(* ===== verification/Prelude.thy ===== *)
theory Prelude
  imports Main "HOL-Library.Word" "HOL-Library.Char_ord" "HOL-Library.List_Lexorder"
    "HOL-Library.Multiset" "HOL-Library.Sublist"
begin

unbundle bit_operations_syntax

text \<open>
  The shared vocabulary of the development: the machine integers of the Rust sources as words,
  the byte encodings \<open>to_le_bytes\<close> / \<open>to_be_bytes\<close> and their inverses, indexed access to a
  \<open>Vec\<close> with the panic made explicit, the string operations of the standard library the
  sources use, and the generic lemmas on lists, options and words the components rely on.
  A Rust \<open>String\<close> is a sequence of UTF-8 bytes; it is an Isabelle \<open>string\<close> whose characters
  are those bytes, so that \<open>length\<close> is Rust's \<open>len()\<close>.
\<close>

named_theorems wire_simps "lengths and round trips of the byte encodings"
named_theorems word_nat "reading word arithmetic in the natural numbers"
named_theorems vec_simps "checked indexed access to vectors"

type_synonym byte = "8 word"
type_synonym u8 = "8 word"
type_synonym u16 = "16 word"
type_synonym u32 = "32 word"
type_synonym u64 = "64 word"

subsection \<open>Byte encodings\<close>

primrec le_bytes :: "nat \<Rightarrow> nat \<Rightarrow> byte list" where
  "le_bytes 0 v = []"
| "le_bytes (Suc n) v = of_nat (v mod 256) # le_bytes n (v div 256)"

primrec of_le :: "byte list \<Rightarrow> nat" where
  "of_le [] = 0"
| "of_le (b # bs) = unat b + 256 * of_le bs"

definition u16_be :: "u16 \<Rightarrow> byte list" where
  "u16_be w = rev (le_bytes 2 (unat w))"

definition u16_of_be :: "byte list \<Rightarrow> u16" where
  "u16_of_be bs = of_nat (of_le (rev bs))"

definition u32_be :: "u32 \<Rightarrow> byte list" where
  "u32_be w = rev (le_bytes 4 (unat w))"

definition u32_of_be :: "byte list \<Rightarrow> u32" where
  "u32_of_be bs = of_nat (of_le (rev bs))"

definition u32_le :: "u32 \<Rightarrow> byte list" where
  "u32_le w = le_bytes 4 (unat w)"

definition u32_of_le :: "byte list \<Rightarrow> u32" where
  "u32_of_le bs = of_nat (of_le bs)"

definition u64_le :: "u64 \<Rightarrow> byte list" where
  "u64_le w = le_bytes 8 (unat w)"

definition u64_of_le :: "byte list \<Rightarrow> u64" where
  "u64_of_le bs = of_nat (of_le bs)"

definition u64_of_be :: "byte list \<Rightarrow> u64" where
  "u64_of_be bs = of_nat (of_le (rev bs))"

definition as_bytes :: "string \<Rightarrow> byte list" where
  "as_bytes s = map of_char s"

subsection \<open>Checked and saturating arithmetic\<close>

definition sat_add :: "'a::len word \<Rightarrow> 'a word \<Rightarrow> 'a word" where
  "sat_add a b = (if unat a + unat b < 2 ^ LENGTH('a) then a + b else - 1)"

definition sat_sub :: "'a::len word \<Rightarrow> 'a word \<Rightarrow> 'a word" where
  "sat_sub a b = (if b \<le> a then a - b else 0)"

definition checked_add :: "'a::len word \<Rightarrow> 'a word \<Rightarrow> 'a word option" where
  "checked_add a b = (if unat a + unat b < 2 ^ LENGTH('a) then Some (a + b) else None)"

definition checked_sub :: "'a::len word \<Rightarrow> 'a word \<Rightarrow> 'a word option" where
  "checked_sub a b = (if b \<le> a then Some (a - b) else None)"

subsection \<open>Checked vector access: \<open>None\<close> is the index panic\<close>

definition vec_get :: "'a list \<Rightarrow> nat \<Rightarrow> 'a option" where
  "vec_get xs i = (if i < length xs then Some (xs ! i) else None)"

definition vec_set :: "'a list \<Rightarrow> nat \<Rightarrow> 'a \<Rightarrow> 'a list option" where
  "vec_set xs i v = (if i < length xs then Some (xs[i := v]) else None)"

text \<open>\<open>Iterator::all\<close> over a predicate that may panic: it stops at the first \<open>false\<close>.\<close>

primrec all_opt :: "('a \<Rightarrow> bool option) \<Rightarrow> 'a list \<Rightarrow> bool option" where
  "all_opt f [] = Some True"
| "all_opt f (x # xs) =
     (case f x of None \<Rightarrow> None | Some b \<Rightarrow> if b then all_opt f xs else Some False)"

subsection \<open>String operations\<close>

primrec split_on :: "char \<Rightarrow> string \<Rightarrow> string list" where
  "split_on c [] = [[]]"
| "split_on c (x # xs) =
     (if x = c then [] # split_on c xs
      else (case split_on c xs of [] \<Rightarrow> [[x]] | y # ys \<Rightarrow> (x # y) # ys))"

fun splitn :: "nat \<Rightarrow> char \<Rightarrow> string \<Rightarrow> string list" where
  "splitn 0 c s = []"
| "splitn (Suc 0) c s = [s]"
| "splitn (Suc (Suc n)) c s =
     (case dropWhile (\<lambda>x. x \<noteq> c) s of
        [] \<Rightarrow> [s]
      | _ # r \<Rightarrow> takeWhile (\<lambda>x. x \<noteq> c) s # splitn (Suc n) c r)"

fun join_with :: "char \<Rightarrow> string list \<Rightarrow> string" where
  "join_with c [] = []"
| "join_with c [s] = s"
| "join_with c (s # t # ss) = s @ c # join_with c (t # ss)"

fun decimal :: "nat \<Rightarrow> string" where
  "decimal n = (if n < 10 then [char_of (48 + n)] else decimal (n div 10) @ [char_of (48 + n mod 10)])"

declare decimal.simps [simp del]

subsection \<open>Lemmas: byte encodings\<close>

lemma length_le_bytes [simp, wire_simps]: "length (le_bytes n v) = n"
  by (induction n arbitrary: v) auto

lemma of_le_le_bytes: "of_le (le_bytes n v) = v mod 256 ^ n"
proof (induction n arbitrary: v)
  case (Suc n)
  have "unat (of_nat (v mod 256) :: byte) = v mod 256"
    by (simp add: unat_of_nat)
  then show ?case
    using Suc by (simp add: mod_mult2_eq)
qed simp

lemma of_le_bound: "of_le bs < 256 ^ length bs"
proof (induction bs)
  case (Cons b bs)
  have "unat b < 256"
    using unsigned_less[of b, where ?'a = nat] by simp
  then show ?case
    using Cons by simp
qed simp

lemma le_bytes_of_le: "length bs = n \<Longrightarrow> le_bytes n (of_le bs) = bs"
proof (induction bs arbitrary: n)
  case (Cons b bs)
  have b: "unat b < 256"
    using unsigned_less[of b, where ?'a = nat] by simp
  then have "(unat b + 256 * of_le bs) mod 256 = unat b" "(unat b + 256 * of_le bs) div 256 = of_le bs"
    by auto
  then show ?case
    using Cons by auto
qed simp

lemma u16_be_length [simp, wire_simps]: "length (u16_be w) = 2"
  by (simp add: u16_be_def)

lemma u32_be_length [simp, wire_simps]: "length (u32_be w) = 4"
  by (simp add: u32_be_def)

lemma u32_le_length [simp, wire_simps]: "length (u32_le w) = 4"
  by (simp add: u32_le_def)

lemma u64_le_length [simp, wire_simps]: "length (u64_le w) = 8"
  by (simp add: u64_le_def)

lemma as_bytes_length [simp, wire_simps]: "length (as_bytes s) = length s"
  by (simp add: as_bytes_def)

lemma unat_mod_width:
  "unat (w :: u16) mod 65536 = unat w"
  "unat (x :: u32) mod 4294967296 = unat x"
  "unat (y :: u64) mod 18446744073709551616 = unat y"
  using unsigned_less[of w, where ?'a = nat] unsigned_less[of x, where ?'a = nat]
    unsigned_less[of y, where ?'a = nat] by simp_all

lemma u16_of_be_be [simp, wire_simps]: "u16_of_be (u16_be w) = w"
  by (simp add: u16_of_be_def u16_be_def of_le_le_bytes unat_mod_width)

lemma u32_of_be_be [simp, wire_simps]: "u32_of_be (u32_be w) = w"
  by (simp add: u32_of_be_def u32_be_def of_le_le_bytes unat_mod_width)

lemma u32_of_le_le [simp, wire_simps]: "u32_of_le (u32_le w) = w"
  by (simp add: u32_of_le_def u32_le_def of_le_le_bytes unat_mod_width)

lemma u64_of_le_le [simp, wire_simps]: "u64_of_le (u64_le w) = w"
  by (simp add: u64_of_le_def u64_le_def of_le_le_bytes unat_mod_width)

lemma u64_le_inject [simp]: "u64_le a = u64_le b \<longleftrightarrow> a = b"
  by (metis u64_of_le_le)

lemma u32_le_inject [simp]: "u32_le a = u32_le b \<longleftrightarrow> a = b"
  by (metis u32_of_le_le)

lemma of_char_byte_inject [simp]: "(of_char a :: byte) = of_char b \<longleftrightarrow> a = b"
proof
  assume "(of_char a :: byte) = of_char b"
  then have "unat (of_nat (of_char a) :: byte) = unat (of_nat (of_char b) :: byte)"
    by (simp only: of_nat_of_char)
  then have "(of_char a :: nat) mod 256 = of_char b mod 256"
    by (simp add: unat_of_nat)
  then show "a = b"
    by simp
qed simp

lemma as_bytes_inject [simp]: "as_bytes s = as_bytes t \<longleftrightarrow> s = t"
  by (simp add: as_bytes_def inj_map_eq_map inj_def)

subsection \<open>Lemmas: words read as natural numbers\<close>

declare word_le_nat_alt [word_nat] word_less_nat_alt [word_nat] unat_div [word_nat] unat_mod [word_nat]

lemma unat_u64_less: "unat (x :: u64) < 18446744073709551616"
  using unsigned_less [of x, where ?'a = nat] by simp

lemma unat_u32_less: "unat (x :: u32) < 4294967296"
  using unsigned_less [of x, where ?'a = nat] by simp

lemma unat_u8_less: "unat (x :: u8) < 256"
  using unsigned_less [of x, where ?'a = nat] by simp

lemma unat_add_exact:
  "unat a + unat b < 2 ^ LENGTH('a) \<Longrightarrow> unat (a + b :: 'a::len word) = unat a + unat b"
  by (simp add: unat_add_lem [THEN iffD1])

lemma unat_mult_exact:
  "unat a * unat b < 2 ^ LENGTH('a) \<Longrightarrow> unat (a * b :: 'a::len word) = unat a * unat b"
  by (simp add: unat_mult_lem [THEN iffD1])

lemma unat_sub_exact: "b \<le> a \<Longrightarrow> unat (a - b :: 'a::len word) = unat a - unat b"
  by (rule unat_sub)

lemma unat_max_word: "unat (- 1 :: 'a::len word) = 2 ^ LENGTH('a) - 1"
  by (simp add: unsigned_minus_1_eq_mask mask_eq_exp_minus_1)

lemma unat_sat_add [word_nat]:
  "unat (sat_add a b :: 'a::len word) = min (unat a + unat b) (2 ^ LENGTH('a) - 1)"
  by (auto simp: sat_add_def unat_add_exact unat_max_word min_def)

lemma unat_sat_sub [word_nat]: "unat (sat_sub a b) = unat a - unat b"
  by (simp add: sat_sub_def unat_sub_exact word_le_nat_alt)

lemma unat_min [word_nat]: "unat (min a b :: 'a::len word) = min (unat a) (unat b)"
  by (simp add: min_def word_le_nat_alt)

lemma unat_max [word_nat]: "unat (max a b :: 'a::len word) = max (unat a) (unat b)"
  by (simp add: max_def word_le_nat_alt)

lemma unat_ucast_32_64 [simp, word_nat]: "unat (ucast (x :: u32) :: u64) = unat x"
  using unat_u32_less [of x] by (simp add: unsigned_ucast_eq take_bit_nat_eq_self_iff)

lemma ucast_32_64_eq_0 [simp]: "(ucast (x :: u32) :: u64) = 0 \<longleftrightarrow> x = 0"
  by (metis unat_ucast_32_64 unat_0_iff)

lemma unat_ucast_64_32 [word_nat]: "unat (ucast (x :: u64) :: u32) = unat x mod 4294967296"
  by (simp add: unsigned_ucast_eq take_bit_eq_mod)

lemma checked_add_Some:
  "checked_add a b = Some c \<longleftrightarrow> unat a + unat b < 2 ^ LENGTH('a) \<and> c = a + (b :: 'a::len word)"
  by (auto simp: checked_add_def)

lemma checked_add_unat: "checked_add a b = Some c \<Longrightarrow> unat c = unat a + unat b"
  by (auto simp: checked_add_Some unat_add_exact)

subsection \<open>Lemmas: vectors\<close>

lemma vec_get_in_range [simp, vec_simps]: "i < length xs \<Longrightarrow> vec_get xs i = Some (xs ! i)"
  by (simp add: vec_get_def)

lemma vec_set_in_range [simp, vec_simps]: "i < length xs \<Longrightarrow> vec_set xs i v = Some (xs[i := v])"
  by (simp add: vec_set_def)

lemma vec_get_Some_iff [vec_simps]: "vec_get xs i = Some x \<longleftrightarrow> i < length xs \<and> xs ! i = x"
  by (auto simp: vec_get_def)

lemma vec_get_None_iff [vec_simps]: "vec_get xs i = None \<longleftrightarrow> length xs \<le> i"
  by (auto simp: vec_get_def)

lemma all_opt_total: "(\<And>x. x \<in> set xs \<Longrightarrow> f x = Some (P x)) \<Longrightarrow> all_opt f xs = Some (\<forall>x \<in> set xs. P x)"
  by (induction xs) auto

subsection \<open>Lemmas: strings\<close>

lemma split_on_not_Nil [simp]: "split_on c s \<noteq> []"
  by (induction s) (auto split: list.splits)

lemma join_split_on [simp]: "join_with c (split_on c s) = s"
proof (induction s)
  case (Cons x xs)
  show ?case
  proof (cases "split_on c xs")
    case Nil
    then show ?thesis by simp
  next
    case (Cons y ys)
    then show ?thesis
      using Cons.IH Cons by (cases ys) auto
  qed
qed simp

lemma split_on_no_sep: "c \<notin> set s \<Longrightarrow> split_on c s = [s]"
  by (induction s) auto

lemma split_on_append_sep: "c \<notin> set s \<Longrightarrow> split_on c (s @ c # t) = s # split_on c t"
  by (induction s) auto

lemma split_on_parts: "p \<in> set (split_on c s) \<Longrightarrow> c \<notin> set p"
proof (induction s arbitrary: p)
  case (Cons x xs)
  then show ?case
    by (cases "split_on c xs") (auto split: if_splits)
qed simp

lemma takeWhile_sep: "c \<notin> set s \<Longrightarrow> takeWhile (\<lambda>x. x \<noteq> c) (s @ c # t) = s"
  by (induction s) auto

lemma dropWhile_sep: "c \<notin> set s \<Longrightarrow> dropWhile (\<lambda>x. x \<noteq> c) (s @ c # t) = c # t"
  by (induction s) auto

lemma dropWhile_sep_Nil: "dropWhile (\<lambda>x. x \<noteq> c) s = [] \<longleftrightarrow> c \<notin> set s"
  by (induction s) auto

lemma dropWhile_sep_Cons:
  "dropWhile (\<lambda>x. x \<noteq> c) s = y # r \<Longrightarrow> y = c \<and> s = takeWhile (\<lambda>x. x \<noteq> c) s @ c # r"
  by (induction s) (auto split: if_splits)

lemma split_on_unfold:
  "split_on c s = (case dropWhile (\<lambda>x. x \<noteq> c) s of
     [] \<Rightarrow> [s] | _ # r \<Rightarrow> takeWhile (\<lambda>x. x \<noteq> c) s # split_on c r)"
proof (cases "dropWhile (\<lambda>x. x \<noteq> c) s")
  case Nil
  then have "c \<notin> set s" using dropWhile_sep_Nil by metis
  then show ?thesis unfolding Nil by (simp add: split_on_no_sep)
next
  case (Cons y r)
  have "c \<notin> set (takeWhile (\<lambda>x. x \<noteq> c) s)"
    by (auto dest: set_takeWhileD)
  then have "split_on c (takeWhile (\<lambda>x. x \<noteq> c) s @ c # r) = takeWhile (\<lambda>x. x \<noteq> c) s # split_on c r"
    by (rule split_on_append_sep)
  then show ?thesis
    using conjunct2 [OF dropWhile_sep_Cons [OF Cons], symmetric] unfolding Cons
    by (simp only: list.case)
qed

lemma decimal_not_Nil [simp]: "decimal n \<noteq> []"
  by (subst decimal.simps) simp

lemma upt_join: "i \<le> j \<Longrightarrow> j \<le> k \<Longrightarrow> [i..<j] @ [j..<k] = [i..<k]"
  using upt_add_eq_append [of i j "k - j"] by simp

end
