(* ===== verification/Core_Key.thy ===== *)
theory Core_Key
  imports Prelude
begin

text \<open>
  Object identity: \<open>crates/talon-core/src/key.rs\<close> (backends, object ids and their namespace
  paths, block ids), \<open>node.rs\<close>, \<open>namespace.rs\<close> (validated namespace names) and the FUSE
  mount's path parser \<open>crates/talon-fuse/src/mapping.rs\<close>. The lemmas give the exact set of
  identities for which printing and parsing are inverse, and relate the two parsers.
\<close>

subsection \<open>Errors and identifiers\<close>

datatype core_error =
    NotFound string
  | NodeUnavailable string
  | BackendError string
  | VersionMismatch string string
  | Unsupported string
  | Serialization string
  | Io string
  | Other string

datatype backend = S3 | Gcs | Azure

definition backend_prefix :: "backend \<Rightarrow> string" where
  "backend_prefix b = (case b of S3 \<Rightarrow> ''s3'' | Gcs \<Rightarrow> ''gcs'' | Azure \<Rightarrow> ''az'')"

definition backend_from_str :: "string \<Rightarrow> core_error + backend" where
  "backend_from_str s =
     (if s = ''s3'' then Inr S3
      else if s = ''gcs'' then Inr Gcs
      else if s = ''az'' \<or> s = ''azure'' then Inr Azure
      else Inl (Other (''unknown backend: '' @ s)))"

type_synonym version = string

record object_id =
  obj_backend :: backend
  obj_bucket :: string
  object_path :: string

definition to_path :: "object_id \<Rightarrow> string" where
  "to_path ob = ''/'' @ backend_prefix (obj_backend ob) @ ''/'' @ obj_bucket ob @ ''/'' @ object_path ob"

definition next_part :: "string list \<Rightarrow> nat \<Rightarrow> string option" where
  "next_part ps i = (if i < length ps \<and> ps ! i \<noteq> [] then Some (ps ! i) else None)"

definition bad_component :: "string \<Rightarrow> bool" where
  "bad_component c \<longleftrightarrow> c = [] \<or> c = ''.'' \<or> c = ''..''"

definition from_path :: "string \<Rightarrow> core_error + object_id" where
  "from_path path =
     (let trimmed = dropWhile (\<lambda>c. c = CHR ''/'') path;
          parts = splitn 3 (CHR ''/'') trimmed
      in case next_part parts 0 of
           None \<Rightarrow> Inl (Other (''missing backend in path: '' @ path))
         | Some pfx \<Rightarrow>
      (case next_part parts 1 of
           None \<Rightarrow> Inl (Other (''missing bucket in path: '' @ path))
         | Some bucket \<Rightarrow>
      (case next_part parts 2 of
           None \<Rightarrow> Inl (Other (''missing object path in path: '' @ path))
         | Some opath \<Rightarrow>
             if list_ex bad_component (split_on (CHR ''/'') opath)
             then Inl (Other (''invalid or ambiguous object path: '' @ path))
             else (case backend_from_str pfx of
                     Inl e \<Rightarrow> Inl e
                   | Inr b \<Rightarrow> Inr \<lparr>obj_backend = b, obj_bucket = bucket, object_path = opath\<rparr>))))"

record block_id =
  blk_object :: object_id
  blk_offset :: u64
  blk_size :: u32
  blk_version :: version

definition block_index :: "block_id \<Rightarrow> u64" where
  "block_index b = (if blk_size b = 0 then 0 else blk_offset b div ucast (blk_size b))"

definition div_ceil :: "u32 \<Rightarrow> u32 \<Rightarrow> u32" where
  "div_ceil a b = (if a mod b > 0 then a div b + 1 else a div b)"

definition page_count :: "block_id \<Rightarrow> u32 \<Rightarrow> u32" where
  "page_count b page_size = (if page_size = 0 then 0 else div_ceil (blk_size b) page_size)"

definition block_display :: "block_id \<Rightarrow> string" where
  "block_display b = to_path (blk_object b) @ ''@'' @ blk_version b @ ''#'' @
     decimal (unat (blk_offset b)) @ ''+'' @ decimal (unat (blk_size b))"

datatype node_role = Coordinator | Worker

record node_info =
  node_id :: string
  address :: string
  role :: node_role

subsection \<open>The mount's path parser\<close>

definition strip_slash :: "string \<Rightarrow> string" where
  "strip_slash p = (case p of c # r \<Rightarrow> if c = CHR ''/'' then r else p | [] \<Rightarrow> p)"

text \<open>
  Error messages print the path with \<open>{path:?}\<close>: in quotes, with quotes, backslashes and control characters escaped. Bytes
  beyond ASCII are printed as they are, which is what the standard library does for printable characters.
\<close>

definition debug_hex :: "nat \<Rightarrow> char" where
  "debug_hex n = char_of (if n < 10 then 48 + n else 87 + n)"

definition debug_char :: "char \<Rightarrow> string" where
  "debug_char c =
     (let n = of_char c :: nat in
      if n = 0 then [CHR 0x5C, CHR ''0'']
      else if n = 9 then [CHR 0x5C, CHR ''t'']
      else if n = 10 then [CHR 0x5C, CHR ''n'']
      else if n = 13 then [CHR 0x5C, CHR ''r'']
      else if n = 0x22 \<or> n = 0x5C then [CHR 0x5C, c]
      else if n < 32 \<or> n = 127
      then [CHR 0x5C, CHR ''u'', CHR 0x7B] @ (if n < 16 then [] else [debug_hex (n div 16)]) @ [debug_hex (n mod 16), CHR 0x7D]
      else [c])"

definition debug_str :: "string \<Rightarrow> string" where
  "debug_str s = [CHR 0x22] @ concat (map debug_char s) @ [CHR 0x22]"

definition path_to_object :: "string \<Rightarrow> core_error + object_id" where
  "path_to_object path =
     (let parts = split_on (CHR ''/'') (strip_slash path)
      in case next_part parts 0 of
           None \<Rightarrow> Inl (Other (''missing backend in path: '' @ debug_str path))
         | Some pfx \<Rightarrow>
      (case backend_from_str pfx of
           Inl e \<Rightarrow> Inl e
         | Inr b \<Rightarrow>
      (case next_part parts 1 of
           None \<Rightarrow> Inl (Other (''missing bucket in path: '' @ debug_str path))
         | Some bucket \<Rightarrow>
             let rest = drop 2 parts in
             if rest = [] \<or> list_ex bad_component rest
             then Inl (Other (''invalid or ambiguous object path: '' @ debug_str path))
             else Inr \<lparr>obj_backend = b, obj_bucket = bucket, object_path = join_with (CHR ''/'') rest\<rparr>)))"

subsection \<open>Namespace names\<close>

datatype namespace_id_error = Reserved | EmptyName | TooLong nat | UnsafePath

definition MAX_NAMESPACE_ID_BYTES :: nat where "MAX_NAMESPACE_ID_BYTES = 255"

definition DEFAULT_NAMESPACE :: string where "DEFAULT_NAMESPACE = ''default''"

definition is_ascii_alphanumeric :: "char \<Rightarrow> bool" where
  "is_ascii_alphanumeric c \<longleftrightarrow>
     (CHR ''0'' \<le> c \<and> c \<le> CHR ''9'') \<or> (CHR ''A'' \<le> c \<and> c \<le> CHR ''Z'') \<or> (CHR ''a'' \<le> c \<and> c \<le> CHR ''z'')"

definition namespace_context :: "string \<Rightarrow> namespace_id_error + string" where
  "namespace_context name =
     (if name = [] then Inl EmptyName
      else if length name > MAX_NAMESPACE_ID_BYTES then Inl (TooLong (length name))
      else if name \<in> {''worker_identity'', ''.worker.lock'', ''.paged-catalog''} then Inl Reserved
      else if name = ''.'' \<or> name = ''..'' \<or>
        \<not> list_all (\<lambda>b. is_ascii_alphanumeric b \<or> b \<in> {CHR ''-'', CHR ''_'', CHR ''.''}) name
      then Inl UnsafePath
      else Inr name)"

datatype namespace_id = Named string | Unattributed

definition namespace_name :: "namespace_id \<Rightarrow> string option" where
  "namespace_name n = (case n of Named s \<Rightarrow> Some s | Unattributed \<Rightarrow> None)"

definition effective_name :: "namespace_id \<Rightarrow> string" where
  "effective_name n = (case namespace_name n of Some s \<Rightarrow> s | None \<Rightarrow> DEFAULT_NAMESPACE)"

definition normalized :: "namespace_id \<Rightarrow> namespace_id" where
  "normalized n = Named (effective_name n)"

definition is_default :: "namespace_id \<Rightarrow> bool" where
  "is_default n \<longleftrightarrow> effective_name n = DEFAULT_NAMESPACE"

definition namespace_validate :: "namespace_id \<Rightarrow> namespace_id_error + unit" where
  "namespace_validate n = (case namespace_context (effective_name n) of Inl e \<Rightarrow> Inl e | Inr _ \<Rightarrow> Inr ())"

subsection \<open>Well-formed object ids\<close>

text \<open>
  The object ids that a namespace path can denote: one non-empty bucket component and a
  non-empty object path without empty, current-directory or parent-directory components.
\<close>

definition wf_object :: "object_id \<Rightarrow> bool" where
  "wf_object ob \<longleftrightarrow> obj_bucket ob \<noteq> [] \<and> CHR ''/'' \<notin> set (obj_bucket ob) \<and>
     \<not> list_ex bad_component (split_on (CHR ''/'') (object_path ob))"

lemma backend_prefix_props [simp]:
  "backend_prefix b \<noteq> []" "CHR ''/'' \<notin> set (backend_prefix b)"
  "backend_from_str (backend_prefix b) = Inr b"
  by (cases b; simp add: backend_prefix_def backend_from_str_def)+

lemma backend_prefix_inject [simp]: "backend_prefix a = backend_prefix b \<longleftrightarrow> a = b"
  by (cases a; cases b) (auto simp: backend_prefix_def)

lemma bad_component_Nil [simp]: "bad_component []"
  by (simp add: bad_component_def)

lemma wf_object_path_not_Nil: "wf_object ob \<Longrightarrow> object_path ob \<noteq> []"
  by (auto simp: wf_object_def)

lemma splitn_3:
  "splitn 3 c s = (case dropWhile (\<lambda>x. x \<noteq> c) s of [] \<Rightarrow> [s]
     | _ # r \<Rightarrow> takeWhile (\<lambda>x. x \<noteq> c) s #
        (case dropWhile (\<lambda>x. x \<noteq> c) r of [] \<Rightarrow> [r] | _ # r2 \<Rightarrow> [takeWhile (\<lambda>x. x \<noteq> c) r, r2]))"
  by (simp only: numeral_3_eq_3 splitn.simps)

lemma splitn_3_eq3:
  "splitn 3 c s = [a, b, r] \<longleftrightarrow> s = a @ c # b @ c # r \<and> c \<notin> set a \<and> c \<notin> set b"
proof
  assume h: "splitn 3 c s = [a, b, r]"
  then obtain y r1 where 1: "dropWhile (\<lambda>x. x \<noteq> c) s = y # r1"
    by (auto simp: splitn_3 split: list.splits)
  then obtain z r2 where 2: "dropWhile (\<lambda>x. x \<noteq> c) r1 = z # r2"
    using h by (auto simp: splitn_3 split: list.splits)
  have "a = takeWhile (\<lambda>x. x \<noteq> c) s" "b = takeWhile (\<lambda>x. x \<noteq> c) r1" "r = r2"
    using h 1 2 by (auto simp: splitn_3)
  then show "s = a @ c # b @ c # r \<and> c \<notin> set a \<and> c \<notin> set b"
    using dropWhile_sep_Cons [OF 1] dropWhile_sep_Cons [OF 2] by (auto dest: set_takeWhileD)
next
  assume "s = a @ c # b @ c # r \<and> c \<notin> set a \<and> c \<notin> set b"
  then show "splitn 3 c s = [a, b, r]"
    by (simp add: splitn_3 takeWhile_sep dropWhile_sep)
qed

lemma splitn_3_parts:
  assumes "next_part (splitn 3 c s) 0 = Some a" "next_part (splitn 3 c s) 1 = Some b"
    "next_part (splitn 3 c s) 2 = Some r"
  shows "splitn 3 c s = [a, b, r]"
proof -
  have "length (splitn 3 c s) \<le> 3"
    unfolding splitn_3 by (simp split: list.split)
  moreover have "2 < length (splitn 3 c s)"
    using assms(3) by (auto simp: next_part_def split: if_splits)
  ultimately have "length (splitn 3 c s) = 3" by simp
  then obtain x y z where "splitn 3 c s = [x, y, z]"
    by (auto simp: numeral_3_eq_3 length_Suc_conv)
  with assms show ?thesis
    by (auto simp: next_part_def split: if_splits)
qed

lemma from_path_iff:
  "from_path p = Inr ob \<longleftrightarrow>
     (\<exists>a. dropWhile (\<lambda>c. c = CHR ''/'') p = a @ CHR ''/'' # obj_bucket ob @ CHR ''/'' # object_path ob \<and>
       a \<noteq> [] \<and> CHR ''/'' \<notin> set a \<and> backend_from_str a = Inr (obj_backend ob) \<and> wf_object ob)"
    (is "?L \<longleftrightarrow> (\<exists>a. ?R a)")
proof
  let ?parts = "splitn 3 (CHR ''/'') (dropWhile (\<lambda>c. c = CHR ''/'') p)"
  assume ?L
  then obtain a b r where parts: "next_part ?parts 0 = Some a" "next_part ?parts 1 = Some b"
      "next_part ?parts 2 = Some r"
    and ok: "\<not> list_ex bad_component (split_on (CHR ''/'') r)"
      "\<exists>k. backend_from_str a = Inr k \<and> ob = \<lparr>obj_backend = k, obj_bucket = b, object_path = r\<rparr>"
    by (auto simp: from_path_def Let_def split: option.splits if_splits sum.splits)
  have "?parts = [a, b, r]"
    using parts by (rule splitn_3_parts)
  then have "dropWhile (\<lambda>c. c = CHR ''/'') p = a @ CHR ''/'' # b @ CHR ''/'' # r"
    "CHR ''/'' \<notin> set a" "CHR ''/'' \<notin> set b"
    unfolding splitn_3_eq3 by simp_all
  moreover have "a \<noteq> []" "b \<noteq> []"
    using parts by (auto simp: next_part_def split: if_splits)
  ultimately show "\<exists>a. ?R a"
    using ok by (intro exI [of _ a]) (auto simp: wf_object_def)
next
  assume "\<exists>a. ?R a"
  then obtain a where R: "?R a" ..
  then have "splitn 3 (CHR ''/'') (dropWhile (\<lambda>c. c = CHR ''/'') p) = [a, obj_bucket ob, object_path ob]"
    unfolding splitn_3_eq3 by (auto simp: wf_object_def)
  moreover have "object_path ob \<noteq> []"
    using R wf_object_path_not_Nil by blast
  ultimately show ?L
    using R by (auto simp: from_path_def next_part_def wf_object_def numeral_2_eq_2)
qed

lemma path_to_object_iff:
  "path_to_object p = Inr ob \<longleftrightarrow>
     (\<exists>a. strip_slash p = a @ CHR ''/'' # obj_bucket ob @ CHR ''/'' # object_path ob \<and>
       a \<noteq> [] \<and> CHR ''/'' \<notin> set a \<and> backend_from_str a = Inr (obj_backend ob) \<and> wf_object ob)"
    (is "?L \<longleftrightarrow> (\<exists>a. ?R a)")
proof
  let ?parts = "split_on (CHR ''/'') (strip_slash p)"
  assume ?L
  then obtain a b k where parts: "next_part ?parts 0 = Some a" "next_part ?parts 1 = Some b"
    and ok: "backend_from_str a = Inr k" "drop 2 ?parts \<noteq> []" "\<not> list_ex bad_component (drop 2 ?parts)"
      "ob = \<lparr>obj_backend = k, obj_bucket = b, object_path = join_with (CHR ''/'') (drop 2 ?parts)\<rparr>"
    by (auto simp: path_to_object_def Let_def split: option.splits if_splits sum.splits)
  from parts ok(2) obtain rest where eq: "?parts = a # b # rest" and "rest \<noteq> []" "a \<noteq> []" "b \<noteq> []"
    by (cases ?parts; cases "tl ?parts") (auto simp: next_part_def split: if_splits)
  have no: "CHR ''/'' \<notin> set q" if "q \<in> set ?parts" for q
    using that by (rule split_on_parts)
  have path: "strip_slash p = join_with (CHR ''/'') ?parts" by simp
  have rest: "split_on (CHR ''/'') (join_with (CHR ''/'') rest) = rest"
  proof -
    have "CHR ''/'' \<notin> set a" "CHR ''/'' \<notin> set b" using no eq by auto
    moreover have "strip_slash p = a @ CHR ''/'' # b @ CHR ''/'' # join_with (CHR ''/'') rest"
      using path \<open>rest \<noteq> []\<close> unfolding eq by (cases rest) auto
    ultimately show ?thesis
      using eq by (simp add: split_on_append_sep)
  qed
  show "\<exists>a. ?R a"
  proof (intro exI [of _ a] conjI)
    show "strip_slash p = a @ CHR ''/'' # obj_bucket ob @ CHR ''/'' # object_path ob"
      using path ok(4) \<open>rest \<noteq> []\<close> unfolding eq by (cases rest) auto
    show "wf_object ob"
      using ok no eq \<open>b \<noteq> []\<close> rest by (auto simp: wf_object_def)
  qed (use ok no eq \<open>a \<noteq> []\<close> in auto)
next
  assume "\<exists>a. ?R a"
  then obtain a where R: "?R a" ..
  then have "split_on (CHR ''/'') (strip_slash p) =
      a # obj_bucket ob # split_on (CHR ''/'') (object_path ob)"
    by (auto simp: wf_object_def split_on_append_sep)
  with R show ?L
    by (auto simp: path_to_object_def next_part_def wf_object_def)
qed

lemma from_path_to_path: "wf_object ob \<Longrightarrow> from_path (to_path ob) = Inr ob"
  unfolding from_path_iff
  by (intro exI [of _ "backend_prefix (obj_backend ob)"])
    (auto simp: to_path_def backend_prefix_def backend_from_str_def split: backend.splits)

lemma from_path_wf: "from_path p = Inr ob \<Longrightarrow> wf_object ob"
  by (auto simp: from_path_iff)

lemma dropWhile_eq_strip_slash:
  assumes "dropWhile (\<lambda>c. c = CHR ''/'') p = x # xs" "\<not> prefix ''//'' p"
  shows "strip_slash p = x # xs"
  using assms by (cases p; cases "tl p") (auto simp: strip_slash_def split: if_splits)

lemma strip_slash_eq_dropWhile:
  assumes "strip_slash p = x # xs" "x \<noteq> CHR ''/''"
  shows "dropWhile (\<lambda>c. c = CHR ''/'') p = x # xs \<and> \<not> prefix ''//'' p"
  using assms by (cases p) (auto simp: strip_slash_def split: if_splits)

lemma strip_slash_dropWhile_iff:
  assumes "a \<noteq> []" "CHR ''/'' \<notin> set a"
  shows "strip_slash p = a @ r \<longleftrightarrow> dropWhile (\<lambda>c. c = CHR ''/'') p = a @ r \<and> \<not> prefix ''//'' p"
proof -
  obtain x xs where a: "a = x # xs" "x \<noteq> CHR ''/''"
    using assms by (cases a) auto
  show ?thesis
    unfolding a append_Cons
    using dropWhile_eq_strip_slash [of p x "xs @ r"] strip_slash_eq_dropWhile [of p x "xs @ r"] a(2)
    by argo
qed

lemma path_to_object_from_path:
  "path_to_object p = Inr ob \<longleftrightarrow> from_path p = Inr ob \<and> \<not> prefix ''//'' p"
proof
  assume "path_to_object p = Inr ob"
  then obtain a where a: "strip_slash p = a @ CHR ''/'' # obj_bucket ob @ CHR ''/'' # object_path ob"
    "a \<noteq> []" "CHR ''/'' \<notin> set a" "backend_from_str a = Inr (obj_backend ob)" "wf_object ob"
    unfolding path_to_object_iff by blast
  show "from_path p = Inr ob \<and> \<not> prefix ''//'' p"
    using a(1) unfolding from_path_iff strip_slash_dropWhile_iff [OF a(2,3)] using a(2-5) by blast
next
  assume h: "from_path p = Inr ob \<and> \<not> prefix ''//'' p"
  then obtain a where a: "dropWhile (\<lambda>c. c = CHR ''/'') p = a @ CHR ''/'' # obj_bucket ob @ CHR ''/'' # object_path ob"
    "a \<noteq> []" "CHR ''/'' \<notin> set a" "backend_from_str a = Inr (obj_backend ob)" "wf_object ob"
    unfolding from_path_iff by blast
  have "strip_slash p = a @ CHR ''/'' # obj_bucket ob @ CHR ''/'' # object_path ob"
    unfolding strip_slash_dropWhile_iff [OF a(2,3)] using a(1) h by blast
  then show "path_to_object p = Inr ob"
    unfolding path_to_object_iff using a(2-5) by blast
qed

lemma to_path_inject:
  assumes "wf_object a" "wf_object b" "to_path a = to_path b"
  shows "a = b"
proof -
  have "Inr a = from_path (to_path b)"
    using from_path_to_path [OF assms(1)] unfolding assms(3) by (rule sym)
  then show ?thesis
    unfolding from_path_to_path [OF assms(2)] by (rule sum.inject(2) [THEN iffD1])
qed

lemma namespace_context_safe:
  assumes "namespace_context s = Inr t"
  shows "t = s \<and> s \<noteq> [] \<and> length s \<le> 255 \<and> CHR ''/'' \<notin> set s \<and> \<not> bad_component s"
proof -
  have "CHR ''/'' \<notin> set s"
    using assms by (auto simp: namespace_context_def list_all_iff is_ascii_alphanumeric_def
        less_eq_char_def split: if_splits)
  then show ?thesis
    using assms by (auto simp: namespace_context_def MAX_NAMESPACE_ID_BYTES_def bad_component_def split: if_splits)
qed

subsection \<open>Properties\<close>

text \<open>
  C19. The logical path is a faithful name: parsing the path of an object id gives the id back exactly
  when the id is well formed (nonempty bucket without a slash, no empty, dot or dot-dot component in
  the key), and these are exactly the ids the parser can return on any path.
\<close>

theorem object_path_roundtrip:
  "(from_path (to_path ob) = Inr ob \<longleftrightarrow> wf_object ob) \<and> ((\<exists>p. from_path p = Inr ob) \<longleftrightarrow> wf_object ob)"
  using from_path_to_path from_path_wf by blast

text \<open>
  C21. The path parser of the FUSE mount and the parser of the core library accept the same paths with
  the same object ids, except that the mount refuses a path with two leading slashes, and both read
  back the printed path of a well-formed id.
\<close>

theorem fuse_path_parser_agrees:
  "(path_to_object p = Inr ob \<longleftrightarrow> from_path p = Inr ob \<and> \<not> prefix ''//'' p) \<and>
   (path_to_object (to_path ob) = Inr ob \<longleftrightarrow> wf_object ob)"
proof -
  have "\<not> prefix ''//'' (to_path ob)" by (cases "obj_backend ob") (auto simp: to_path_def backend_prefix_def)
  then show ?thesis using path_to_object_from_path from_path_to_path from_path_wf by blast
qed

end
