(* ===== verification/Core_Block.thy ===== *)
theory Core_Block
  imports Core_Key
begin

text \<open>
  Blocks, pages and byte ranges: the presence bitmap, block forms and page lengths of
  \<open>crates/talon-core/src/block.rs\<close>, the split of a read into block segments of
  \<open>crates/talon-cache-client/src/read_plan.rs\<close>, and \<open>resolve_read\<close> of
  \<open>crates/talon-fuse/src/mapping.rs\<close>. An index panic of the bitmap is the value \<open>None\<close>;
  the interface \<open>presence_set\<close> states what the bitmap promises to the code that stores pages.
\<close>

subsection \<open>The presence bitmap\<close>

type_synonym page_index = u32

datatype load_hint = HintWhole | HintPaged u32

record present_bitmap =
  bm_words :: "u64 list"
  bm_len :: u32

definition bitmap_new :: "u32 \<Rightarrow> present_bitmap" where
  "bitmap_new n = \<lparr>bm_words = replicate ((unat n + 63) div 64) 0, bm_len = n\<rparr>"

definition bitmap_update :: "present_bitmap \<Rightarrow> page_index \<Rightarrow> (u64 \<Rightarrow> u64) \<Rightarrow> present_bitmap option" where
  "bitmap_update bm p f =
     (let i = unat (p div 64) in
      case vec_get (bm_words bm) i of
        None \<Rightarrow> None
      | Some w \<Rightarrow> map_option (\<lambda>ws. bm\<lparr>bm_words := ws\<rparr>) (vec_set (bm_words bm) i (f w)))"

definition bitmap_set :: "present_bitmap \<Rightarrow> page_index \<Rightarrow> present_bitmap option" where
  "bitmap_set bm p =
     (if p < bm_len bm then bitmap_update bm p (\<lambda>w. w OR push_bit (unat (p mod 64)) 1) else Some bm)"

definition bitmap_clear :: "present_bitmap \<Rightarrow> page_index \<Rightarrow> present_bitmap option" where
  "bitmap_clear bm p =
     (if p < bm_len bm then bitmap_update bm p (\<lambda>w. w AND NOT (push_bit (unat (p mod 64)) 1)) else Some bm)"

definition is_present :: "present_bitmap \<Rightarrow> page_index \<Rightarrow> bool option" where
  "is_present bm p =
     (if p < bm_len bm
      then map_option (\<lambda>w. drop_bit (unat (p mod 64)) w AND 1 = 1) (vec_get (bm_words bm) (unat (p div 64)))
      else Some False)"

definition range_present :: "present_bitmap \<Rightarrow> page_index \<Rightarrow> page_index \<Rightarrow> bool option" where
  "range_present bm s e = all_opt (is_present bm) (map of_nat [unat s..<unat e])"

definition count_ones :: "u64 \<Rightarrow> u32" where
  "count_ones w = of_nat (length (filter (bit w) [0..<64]))"

definition bitmap_count :: "present_bitmap \<Rightarrow> u32" where
  "bitmap_count bm = sum_list (map count_ones (bm_words bm))"

datatype block_form = FormWhole | FormPaged (form_page_size: u32) (form_present: present_bitmap)

record block_meta =
  meta_id :: block_id
  meta_form :: block_form
  meta_len :: u64

definition page_len :: "u64 \<Rightarrow> u32 \<Rightarrow> page_index \<Rightarrow> u64" where
  "page_len len page_size page =
     (if page_size = 0 then 0
      else min (sat_sub len (ucast page * ucast page_size)) (ucast page_size))"

primrec sum_present :: "(page_index \<Rightarrow> bool option) \<Rightarrow> (page_index \<Rightarrow> u64) \<Rightarrow> page_index list \<Rightarrow> u64 option" where
  "sum_present f g [] = Some 0"
| "sum_present f g (p # ps) =
     (case f p of None \<Rightarrow> None
      | Some b \<Rightarrow> map_option (\<lambda>s. if b then g p + s else s) (sum_present f g ps))"

definition resident_bytes :: "block_meta \<Rightarrow> u64 option" where
  "resident_bytes m =
     (case meta_form m of
        FormWhole \<Rightarrow> Some (meta_len m)
      | FormPaged ps bm \<Rightarrow>
          sum_present (is_present bm) (page_len (meta_len m) ps) (map of_nat [0..<unat (bm_len bm)]))"

definition meta_page_len :: "block_meta \<Rightarrow> page_index \<Rightarrow> u64" where
  "meta_page_len m page =
     (case meta_form m of FormWhole \<Rightarrow> 0 | FormPaged ps bm \<Rightarrow> page_len (meta_len m) ps page)"

subsection \<open>Splitting a read into block segments\<close>

record block_segment =
  seg_block :: block_id
  offset_in_block :: u32
  seg_len :: u32

record read_plan =
  rp_object :: object_id
  rp_version :: version
  rp_block_size :: u32
  rp_position :: u64
  rp_end :: u64

datatype 'a iter_step = StepPanic | StepEnd | StepItem 'a

definition plan_next :: "read_plan \<Rightarrow> (block_segment \<times> read_plan) iter_step" where
  "plan_next pl =
     (if rp_position pl \<ge> rp_end pl then StepEnd
      else
        let block_size = ucast (rp_block_size pl) :: u64 in
        if block_size = 0 then StepPanic
        else
          let block_start = rp_position pl div block_size * block_size;
              off = ucast (rp_position pl - block_start) :: u32;
              segment_end = min (sat_add block_start block_size) (rp_end pl);
              len = ucast (segment_end - rp_position pl) :: u32
          in StepItem
              (\<lparr>seg_block = \<lparr>blk_object = rp_object pl, blk_offset = block_start,
                  blk_size = rp_block_size pl, blk_version = rp_version pl\<rparr>,
                offset_in_block = off, seg_len = len\<rparr>,
               pl\<lparr>rp_position := segment_end\<rparr>))"

definition iter_read :: "object_id \<Rightarrow> u64 \<Rightarrow> u64 \<Rightarrow> u32 \<Rightarrow> version \<Rightarrow> u64 \<Rightarrow> read_plan" where
  "iter_read ob offset len block_size ver sz =
     \<lparr>rp_object = ob, rp_version = ver, rp_block_size = block_size, rp_position = offset,
      rp_end = (if block_size = 0 \<or> len = 0 \<or> offset \<ge> sz then offset else min (sat_add offset len) sz)\<rparr>"

record read_target =
  tgt_block :: block_id
  tgt_offset_in_block :: u32

definition resolve_read :: "object_id \<Rightarrow> u64 \<Rightarrow> u32 \<Rightarrow> version \<Rightarrow> core_error + read_target" where
  "resolve_read ob offset block_size ver =
     (if block_size = 0 then Inl (Other ''block_size must be > 0'')
      else
        let bs = ucast block_size :: u64;
            block_start = offset div bs * bs
        in Inr \<lparr>tgt_block = \<lparr>blk_object = ob, blk_offset = block_start, blk_size = block_size, blk_version = ver\<rparr>,
                tgt_offset_in_block = ucast (offset - block_start)\<rparr>)"

text \<open>The position in the natural numbers: every step advances it, up to the end.\<close>

lemma block_start_unat:
  assumes "bs \<noteq> 0"
  shows "unat (pos div ucast bs * ucast bs :: u64) = unat pos div unat (bs :: u32) * unat bs"
proof -
  have "unat pos div unat bs * unat bs \<le> unat pos" by simp
  also have "\<dots> < 2 ^ LENGTH(64)" using unat_u64_less [of pos] by simp
  finally show ?thesis
    by (simp add: unat_mult_exact unat_div)
qed

lemma block_start_le: "(pos :: u64) div ucast (bs :: u32) * ucast bs \<le> pos"
  by (cases "bs = 0") (simp_all add: word_le_nat_alt block_start_unat)

lemma block_offset_unat:
  assumes "bs \<noteq> 0"
  shows "unat (ucast (pos - pos div ucast bs * ucast bs :: u64) :: u32) = unat pos mod unat (bs :: u32)"
proof -
  have "unat (pos - pos div ucast bs * ucast bs :: u64) = unat pos mod unat bs"
    using assms by (simp add: unat_sub_exact block_start_le block_start_unat minus_div_mult_eq_mod unat_mod)
  moreover have "unat pos mod unat bs < 4294967296"
    using assms unat_u32_less [of bs]
    by (metis mod_less_divisor order.strict_trans unat_gt_0)
  ultimately show ?thesis
    by (simp add: unat_ucast_64_32)
qed

lemma segment_end_unat:
  assumes "bs \<noteq> 0" "pos < e"
  shows "unat (min (sat_add (pos div ucast bs * ucast bs) (ucast (bs :: u32))) (e :: u64)) =
    min (unat pos div unat bs * unat bs + unat bs) (unat e)"
  using assms unat_u64_less [of e] by (simp add: word_nat block_start_unat)

lemma next_boundary_gt: "0 < (b :: nat) \<Longrightarrow> p < p div b * b + b"
  using mod_less_divisor [of b p] div_mult_mod_eq [of p b] by linarith

lemma next_boundary_diff: "0 < (b :: nat) \<Longrightarrow> p div b * b + b - p \<le> b"
  using div_mult_mod_eq [of p b] by linarith

lemma plan_next_cases:
  obtains (finished) "rp_end pl \<le> rp_position pl" "plan_next pl = StepEnd"
  | (panic) "rp_position pl < rp_end pl" "rp_block_size pl = 0" "plan_next pl = StepPanic"
  | (item) seg pl' where "rp_position pl < rp_end pl" "rp_block_size pl \<noteq> 0"
      "plan_next pl = StepItem (seg, pl')"
      "pl' = pl\<lparr>rp_position := rp_position pl'\<rparr>"
      "unat (rp_position pl') =
        min (unat (rp_position pl) div unat (rp_block_size pl) * unat (rp_block_size pl) + unat (rp_block_size pl))
          (unat (rp_end pl))"
      "blk_object (seg_block seg) = rp_object pl" "blk_version (seg_block seg) = rp_version pl"
      "blk_size (seg_block seg) = rp_block_size pl"
      "unat (blk_offset (seg_block seg)) =
        unat (rp_position pl) div unat (rp_block_size pl) * unat (rp_block_size pl)"
      "unat (offset_in_block seg) = unat (rp_position pl) mod unat (rp_block_size pl)"
      "unat (seg_len seg) = unat (rp_position pl') - unat (rp_position pl)"
proof (cases "rp_end pl \<le> rp_position pl")
  case True
  then show ?thesis by (intro finished) (simp_all add: plan_next_def)
next
  case False
  then have lt: "rp_position pl < rp_end pl" by simp
  show ?thesis
  proof (cases "rp_block_size pl = 0")
    case True
    with lt show ?thesis by (intro panic) (simp_all add: plan_next_def)
  next
    case nz: False
    define b where "b = rp_block_size pl"
    define start where "start = rp_position pl div ucast b * ucast b"
    define e where "e = min (sat_add start (ucast b)) (rp_end pl)"
    define seg where "seg = \<lparr>seg_block = \<lparr>blk_object = rp_object pl, blk_offset = start, blk_size = b,
        blk_version = rp_version pl\<rparr>, offset_in_block = ucast (rp_position pl - start),
        seg_len = ucast (e - rp_position pl)\<rparr>"
    have b: "b \<noteq> 0" "0 < unat b" and ub: "(ucast b :: u64) \<noteq> 0"
      using nz by (simp_all add: b_def unat_gt_0)
    have e: "unat e = min (unat (rp_position pl) div unat b * unat b + unat b) (unat (rp_end pl))"
      unfolding e_def start_def using b(1) lt by (rule segment_end_unat)
    have le: "rp_position pl \<le> e"
      using e lt next_boundary_gt [OF b(2), of "unat (rp_position pl)"] by (simp add: word_nat)
    have "unat e - unat (rp_position pl) < 4294967296"
      using e next_boundary_diff [OF b(2), of "unat (rp_position pl)"] unat_u32_less [of b] by linarith
    then have len: "unat (ucast (e - rp_position pl) :: u32) = unat e - unat (rp_position pl)"
      by (simp add: unat_ucast_64_32 unat_sub_exact [OF le])
    have "plan_next pl = StepItem (seg, pl\<lparr>rp_position := e\<rparr>)"
      using lt ub by (simp add: plan_next_def Let_def seg_def e_def start_def b_def)
    then show ?thesis
      using lt nz e len b(1)
      by (intro item [of seg "pl\<lparr>rp_position := e\<rparr>"])
        (simp_all add: seg_def start_def block_start_unat block_offset_unat flip: b_def)
  qed
qed

text \<open>
  \<open>plan_read\<close> collects the iterator. The loop ends because every step moves the position
  towards the end; a division by a zero block size would be a panic, \<open>None\<close>.
\<close>

function plan_collect :: "read_plan \<Rightarrow> block_segment list option" where
  "plan_collect pl =
     (case plan_next pl of
        StepPanic \<Rightarrow> None
      | StepEnd \<Rightarrow> Some []
      | StepItem (seg, pl') \<Rightarrow> map_option (Cons seg) (plan_collect pl'))"
  by pat_completeness auto
termination
proof (relation "measure (\<lambda>pl. unat (rp_end pl) - unat (rp_position pl))")
  fix pl it seg pl'
  assume "plan_next pl = StepItem it" "(seg, pl') = it"
  then show "(pl', pl) \<in> measure (\<lambda>pl. unat (rp_end pl) - unat (rp_position pl))"
  proof (cases rule: plan_next_cases [of pl])
    case (item seg2 pl2)
    have "rp_end pl2 = rp_end pl"
      using item(4) by (metis read_plan.simps(5) read_plan.surjective read_plan.update_convs(4))
    then show ?thesis
      using item \<open>(seg, pl') = it\<close> \<open>plan_next pl = StepItem it\<close>
        next_boundary_gt [of "unat (rp_block_size pl)" "unat (rp_position pl)"]
      by (auto simp: word_less_nat_alt unat_gt_0)
  qed auto
qed simp

declare plan_collect.simps [simp del]

definition plan_read :: "object_id \<Rightarrow> u64 \<Rightarrow> u64 \<Rightarrow> u32 \<Rightarrow> version \<Rightarrow> u64 \<Rightarrow> block_segment list option" where
  "plan_read ob offset len block_size ver sz = plan_collect (iter_read ob offset len block_size ver sz)"

subsection \<open>Lemmas: read plans\<close>

definition segment_bytes :: "(nat \<Rightarrow> 'a) \<Rightarrow> block_segment \<Rightarrow> 'a list" where
  "segment_bytes content seg =
     (let start = unat (blk_offset (seg_block seg)) + unat (offset_in_block seg)
      in map content [start..<start + unat (seg_len seg)])"

text \<open>A segment names an aligned block of the object and stays inside it.\<close>

definition segment_ok :: "object_id \<Rightarrow> u32 \<Rightarrow> version \<Rightarrow> block_segment \<Rightarrow> bool" where
  "segment_ok ob bs ver seg \<longleftrightarrow>
     blk_object (seg_block seg) = ob \<and> blk_size (seg_block seg) = bs \<and> blk_version (seg_block seg) = ver \<and>
     unat bs dvd unat (blk_offset (seg_block seg)) \<and> 0 < unat (seg_len seg) \<and>
     unat (offset_in_block seg) + unat (seg_len seg) \<le> unat bs"

lemma plan_collect_correct:
  assumes "rp_block_size pl \<noteq> 0 \<or> rp_end pl \<le> rp_position pl"
  shows "\<exists>segs. plan_collect pl = Some segs \<and>
    concat (map (segment_bytes content) segs) = map content [unat (rp_position pl)..<unat (rp_end pl)] \<and>
    list_all (segment_ok (rp_object pl) (rp_block_size pl) (rp_version pl)) segs"
  using assms
proof (induction pl rule: plan_collect.induct)
  case (1 pl)
  show ?case
  proof (cases rule: plan_next_cases [of pl])
    case finished
    then show ?thesis by (simp add: plan_collect.simps [of pl] word_le_nat_alt)
  next
    case panic
    with "1.prems" show ?thesis by simp
  next
    case (item seg pl')
    let ?P = "unat (rp_position pl)" and ?B = "unat (rp_block_size pl)" and ?E = "unat (rp_end pl)"
      and ?N = "unat (rp_position pl')"
    have same: "rp_end pl' = rp_end pl" "rp_block_size pl' = rp_block_size pl"
      "rp_object pl' = rp_object pl" "rp_version pl' = rp_version pl"
      using item(4) by (metis read_plan.simps read_plan.surjective read_plan.update_convs(4))+
    have B: "0 < ?B" using item(2) by (simp add: unat_gt_0)
    have PN: "?P < ?N" "?N \<le> ?E"
      using item(1,5) next_boundary_gt [OF B, of ?P] by (simp_all add: word_less_nat_alt)
    obtain segs where IH: "plan_collect pl' = Some segs"
      "concat (map (segment_bytes content) segs) = map content [?N..<?E]"
      "list_all (segment_ok (rp_object pl) (rp_block_size pl) (rp_version pl)) segs"
      using "1.IH" [OF item(3) refl] item(2) same by auto
    have start: "unat (blk_offset (seg_block seg)) + unat (offset_in_block seg) = ?P"
      using item by simp
    have "segment_bytes content seg = map content [?P..<?N]"
      using item(11) PN by (simp add: segment_bytes_def start Let_def)
    moreover have "map content [?P..<?N] @ map content [?N..<?E] = map content [?P..<?E]"
      using PN by (simp flip: map_append add: upt_join)
    moreover have "?P mod ?B + (?N - ?P) \<le> ?B"
      using item(5) div_mult_mod_eq [of ?P ?B] PN by linarith
    then have "segment_ok (rp_object pl) (rp_block_size pl) (rp_version pl) seg"
      using item PN by (simp add: segment_ok_def)
    ultimately show ?thesis
      using IH item(3) by (intro exI [of _ "seg # segs"]) (simp add: plan_collect.simps [of pl])
  qed
qed

lemma iter_read_end_unat:
  "block_size \<noteq> 0 \<Longrightarrow> [unat offset..<unat (rp_end (iter_read ob offset len block_size ver sz))] =
     [unat offset..<min (unat offset + unat len) (unat sz)]"
proof -
  assume "block_size \<noteq> 0"
  then have "unat (rp_end (iter_read ob offset len block_size ver sz)) =
      (if len = 0 \<or> unat sz \<le> unat offset then unat offset else min (unat offset + unat len) (unat sz))"
    using unat_u64_less [of sz]
    by (simp add: iter_read_def word_nat word_le_nat_alt del: upt_conv_Nil) linarith
  then show ?thesis by (auto simp: unat_eq_0)
qed

lemma plan_read_correct:
  "\<exists>segs. plan_read ob offset len block_size ver sz = Some segs \<and>
    concat (map (segment_bytes content) segs) =
      (if block_size = 0 then [] else map content [unat offset..<min (unat offset + unat len) (unat sz)]) \<and>
    list_all (segment_ok ob block_size ver) segs"
proof -
  let ?pl = "iter_read ob offset len block_size ver sz"
  have "rp_block_size ?pl \<noteq> 0 \<or> rp_end ?pl \<le> rp_position ?pl"
    by (simp add: iter_read_def)
  from plan_collect_correct [OF this, where content = content] obtain segs where
    "plan_collect ?pl = Some segs"
    "concat (map (segment_bytes content) segs) = map content [unat offset..<unat (rp_end ?pl)]"
    "list_all (segment_ok ob block_size ver) segs"
    by (auto simp: iter_read_def)
  moreover have "map content [unat offset..<unat (rp_end ?pl)] =
      (if block_size = 0 then [] else map content [unat offset..<min (unat offset + unat len) (unat sz)])"
    using iter_read_end_unat [of block_size offset ob len ver sz] by (simp add: iter_read_def)
  ultimately show ?thesis by (auto simp: plan_read_def)
qed

lemma plan_read_singleton_resolves:
  assumes "resolve_read ob offset bs ver = Inr t"
  shows "segment_ok ob bs ver \<lparr>seg_block = tgt_block t, offset_in_block = tgt_offset_in_block t, seg_len = 1\<rparr> \<and>
    unat (blk_offset (tgt_block t)) + unat (tgt_offset_in_block t) = unat offset"
proof -
  have "bs \<noteq> 0" using assms by (auto simp: resolve_read_def split: if_splits)
  moreover from this have "unat offset mod unat bs < unat bs" by (simp add: unat_gt_0)
  ultimately show ?thesis
    using assms by (auto simp: resolve_read_def Let_def segment_ok_def block_start_unat block_offset_unat
        simp del: ucast_32_64_eq_0)
qed

subsection \<open>Lemmas: the presence bitmap\<close>

definition page_bit :: "u64 list \<Rightarrow> nat \<Rightarrow> bool" where
  "page_bit ws j = bit (ws ! (j div 64)) (j mod 64)"

text \<open>The representation invariant: just enough words, and no stray bit at or after the length.\<close>

definition wf_bitmap :: "present_bitmap \<Rightarrow> bool" where
  "wf_bitmap bm \<longleftrightarrow> length (bm_words bm) = (unat (bm_len bm) + 63) div 64 \<and>
     list_all (\<lambda>j. page_bit (bm_words bm) j \<longrightarrow> j < unat (bm_len bm)) [0..<64 * length (bm_words bm)]"

definition bitmap_pages :: "present_bitmap \<Rightarrow> nat set" where
  "bitmap_pages bm = {j. j < unat (bm_len bm) \<and> page_bit (bm_words bm) j}"

lemma unat_div_mod_64 [simp]:
  "unat (p div 64 :: u32) = unat p div 64" "unat (p mod 64 :: u32) = unat p mod 64"
  by (simp_all add: unat_div unat_mod)

lemma wf_bitmap_index:
  "wf_bitmap bm \<Longrightarrow> j < unat (bm_len bm) \<Longrightarrow> j div 64 < length (bm_words bm)"
  by (simp add: wf_bitmap_def)

lemma page_bit_update:
  "i div 64 < length ws \<Longrightarrow>
   page_bit (ws[i div 64 := w]) j = (if j div 64 = i div 64 then bit w (j mod 64) else page_bit ws j)"
  by (simp add: page_bit_def nth_list_update)

lemma same_bit_iff: "j div 64 = i div 64 \<and> j mod 64 = i mod 64 \<longleftrightarrow> j = (i :: nat)"
  by (metis div_mult_mod_eq)

lemma drop_bit_and_1: "(drop_bit n w AND 1 = 1) = bit (w :: u64) n"
  by (simp add: and_one_eq bit_iff_odd_drop_bit odd_iff_mod_2_eq_one)

lemma bitmap_new_ok: "wf_bitmap (bitmap_new n) \<and> bm_len (bitmap_new n) = n \<and> bitmap_pages (bitmap_new n) = {}"
  by (auto simp: bitmap_new_def wf_bitmap_def bitmap_pages_def page_bit_def list_all_iff)

lemma bitmap_update_ok:
  assumes wf: "wf_bitmap bm" and p: "p < bm_len bm"
    and f: "\<And>w b. b < 64 \<Longrightarrow> bit (f w) b = (if b = unat p mod 64 then v else bit w b)"
  shows "\<exists>bm'. bitmap_update bm p f = Some bm' \<and> wf_bitmap bm' \<and> bm_len bm' = bm_len bm \<and>
    bitmap_pages bm' = (if v then insert (unat p) (bitmap_pages bm) else bitmap_pages bm - {unat p})"
proof -
  let ?i = "unat p div 64"
  let ?ws = "(bm_words bm)[?i := f (bm_words bm ! ?i)]"
  have i: "?i < length (bm_words bm)" using wf p by (auto intro: wf_bitmap_index simp: word_less_nat_alt)
  have pb: "page_bit ?ws j = (if j = unat p then v else page_bit (bm_words bm) j)" for j
    using same_bit_iff [of j "unat p"] i by (auto simp: page_bit_update f) (simp_all add: page_bit_def)
  have "bitmap_update bm p f = Some (bm\<lparr>bm_words := ?ws\<rparr>)"
    using i by (simp add: bitmap_update_def Let_def)
  moreover have "wf_bitmap (bm\<lparr>bm_words := ?ws\<rparr>)"
    using wf p by (auto simp: wf_bitmap_def pb list_all_iff word_less_nat_alt)
  moreover have "bitmap_pages (bm\<lparr>bm_words := ?ws\<rparr>) =
      (if v then insert (unat p) (bitmap_pages bm) else bitmap_pages bm - {unat p})"
    using p by (auto simp: bitmap_pages_def pb word_less_nat_alt)
  ultimately show ?thesis by auto
qed

lemma bitmap_set_ok:
  assumes "wf_bitmap bm"
  shows "\<exists>bm'. bitmap_set bm p = Some bm' \<and> wf_bitmap bm' \<and> bm_len bm' = bm_len bm \<and>
    bitmap_pages bm' = (if p < bm_len bm then insert (unat p) (bitmap_pages bm) else bitmap_pages bm)"
  using bitmap_update_ok [OF assms, of p "\<lambda>w. w OR push_bit (unat (p mod 64)) 1" True] assms
  by (auto simp: bitmap_set_def bit_or_iff bit_exp_iff)

lemma bitmap_clear_ok:
  assumes "wf_bitmap bm"
  shows "\<exists>bm'. bitmap_clear bm p = Some bm' \<and> wf_bitmap bm' \<and> bm_len bm' = bm_len bm \<and>
    bitmap_pages bm' = bitmap_pages bm - {unat p}"
proof (cases "p < bm_len bm")
  case True
  then show ?thesis
    using bitmap_update_ok [OF assms True, of "\<lambda>w. w AND NOT (push_bit (unat (p mod 64)) 1)" False]
    by (auto simp: bitmap_clear_def bit_and_iff bit_not_iff bit_exp_iff)
next
  case False
  then show ?thesis
    using assms by (auto simp: bitmap_clear_def bitmap_pages_def word_less_nat_alt)
qed

lemma is_present_ok:
  assumes "wf_bitmap bm"
  shows "is_present bm p = Some (unat p \<in> bitmap_pages bm)"
  using wf_bitmap_index [OF assms, of "unat p"]
  by (auto simp: is_present_def bitmap_pages_def page_bit_def vec_get_def drop_bit_and_1 word_less_nat_alt)

lemma card_page_bits:
  "card {j. j < 64 * length ws \<and> page_bit ws j} = sum_list (map (\<lambda>w. card {b. b < 64 \<and> bit w b}) ws)"
proof (induction ws rule: rev_induct)
  case Nil
  then show ?case by simp
next
  case (snoc w ws)
  let ?A = "{j. j < 64 * length ws \<and> page_bit ws j}" and ?B = "{b. b < 64 \<and> bit w b}"
  have split: "{j. j < 64 * length (ws @ [w]) \<and> page_bit (ws @ [w]) j} = ?A \<union> (+) (64 * length ws) ` ?B"
  proof (intro set_eqI)
    fix j
    show "j \<in> {j. j < 64 * length (ws @ [w]) \<and> page_bit (ws @ [w]) j} \<longleftrightarrow> j \<in> ?A \<union> (+) (64 * length ws) ` ?B"
    proof (cases "j < 64 * length ws")
      case True
      then have "j div 64 < length ws" by simp
      with True show ?thesis by (auto simp: page_bit_def nth_append)
    next
      case False
      then obtain b where "j = 64 * length ws + b" by (metis le_Suc_ex not_less)
      then show ?thesis by (cases "b < 64") (auto simp: page_bit_def)
    qed
  qed
  have "card ((+) (64 * length ws) ` ?B) = card ?B" by (intro card_image) simp
  moreover have "?A \<inter> (+) (64 * length ws) ` ?B = {}" by auto
  ultimately show ?case unfolding split by (simp add: card_Un_disjoint snoc.IH)
qed

lemma unat_count_ones: "unat (count_ones w) = card {b. b < 64 \<and> bit w b}"
proof -
  have "length (filter (bit w) [0..<64]) = card {b. b < 64 \<and> bit w b}"
    by (subst distinct_card [symmetric]) (auto intro: arg_cong [of _ _ card])
  moreover have "card {b. b < 64 \<and> bit w b} \<le> card {..<64::nat}" by (intro card_mono) auto
  ultimately show ?thesis by (simp add: count_ones_def unat_of_nat)
qed

lemma unat_sum_list: "unat (sum_list (map f xs) :: u32) = (\<Sum>x\<leftarrow>xs. unat (f x)) mod 2 ^ 32"
  by (induction xs) (simp_all add: unat_word_ariths mod_simps)

lemma bitmap_count_ok:
  assumes "wf_bitmap bm"
  shows "unat (bitmap_count bm) = card (bitmap_pages bm)"
proof -
  have eq: "{j. j < 64 * length (bm_words bm) \<and> page_bit (bm_words bm) j} = bitmap_pages bm"
    using assms by (auto simp: wf_bitmap_def bitmap_pages_def list_all_iff)
  have "card (bitmap_pages bm) \<le> card {..<unat (bm_len bm)}"
    by (intro card_mono) (auto simp: bitmap_pages_def)
  then have "card (bitmap_pages bm) < 2 ^ 32" using unat_u32_less [of "bm_len bm"] by simp
  then show ?thesis
    using card_page_bits [of "bm_words bm"]
    by (simp add: bitmap_count_def unat_sum_list unat_count_ones eq)
qed

subsection \<open>The interface of the presence set\<close>

text \<open>
  What the bitmap promises to its clients. \<open>pages\<close> is the set of present pages, \<open>cap\<close> the number
  of pages; setting a page outside the capacity is silently ignored, and no operation panics on a
  well-formed value.
\<close>

primrec run_ops :: "('s \<Rightarrow> u32 \<Rightarrow> 's option) \<Rightarrow> ('s \<Rightarrow> u32 \<Rightarrow> 's option) \<Rightarrow> (bool \<times> u32) list \<Rightarrow> 's \<Rightarrow> 's option" where
  "run_ops put del [] s = Some s"
| "run_ops put del (op # ops) s =
     (case (if fst op then put else del) s (snd op) of None \<Rightarrow> None | Some s' \<Rightarrow> run_ops put del ops s')"

primrec pages_after :: "u32 \<Rightarrow> (bool \<times> u32) list \<Rightarrow> nat set \<Rightarrow> nat set" where
  "pages_after n [] A = A"
| "pages_after n (op # ops) A =
     pages_after n ops
       (if \<not> fst op then A - {unat (snd op)} else if snd op < n then insert (unat (snd op)) A else A)"

locale presence_set =
  fixes inv :: "'s \<Rightarrow> bool" and cap :: "'s \<Rightarrow> u32" and pages :: "'s \<Rightarrow> nat set"
    and new :: "u32 \<Rightarrow> 's" and put :: "'s \<Rightarrow> u32 \<Rightarrow> 's option" and del :: "'s \<Rightarrow> u32 \<Rightarrow> 's option"
    and mem :: "'s \<Rightarrow> u32 \<Rightarrow> bool option"
  assumes new_ok: "inv (new n) \<and> cap (new n) = n \<and> pages (new n) = {}"
    and put_ok: "inv s \<Longrightarrow> \<exists>s'. put s p = Some s' \<and> inv s' \<and> cap s' = cap s \<and>
      pages s' = (if p < cap s then insert (unat p) (pages s) else pages s)"
    and del_ok: "inv s \<Longrightarrow> \<exists>s'. del s p = Some s' \<and> inv s' \<and> cap s' = cap s \<and> pages s' = pages s - {unat p}"
    and mem_ok: "inv s \<Longrightarrow> mem s p = Some (unat p \<in> pages s)"
    and bound: "inv s \<Longrightarrow> pages s \<subseteq> {..<unat (cap s)}"
begin

lemma range_mem:
  assumes "inv s"
  shows "all_opt (mem s) (map of_nat [unat (a :: u32)..<unat (b :: u32)]) = Some ({unat a..<unat b} \<subseteq> pages s)"
proof -
  have "unat (of_nat j :: u32) = j" if "j < unat b" for j
    using that unat_u32_less [of b] by (simp add: unat_of_nat)
  then have "(\<forall>x \<in> set (map of_nat [unat a..<unat b]). unat (x :: u32) \<in> pages s) \<longleftrightarrow> {unat a..<unat b} \<subseteq> pages s"
    by (auto simp: subset_iff)
  then show ?thesis using all_opt_total [of _ "mem s" "\<lambda>p. unat p \<in> pages s"] mem_ok [OF assms] by simp
qed

lemma put_then_mem:
  assumes "inv s" "put s p = Some s'"
  shows "mem s' q = Some (if q = p then p < cap s \<or> unat p \<in> pages s else unat q \<in> pages s)"
  using put_ok [OF assms(1), of p] assms(2) by (auto simp: mem_ok word_unat_eq_iff)

lemma del_then_mem:
  assumes "inv s" "del s p = Some s'"
  shows "mem s' q = Some (q \<noteq> p \<and> unat q \<in> pages s)"
  using del_ok [OF assms(1), of p] assms(2) by (auto simp: mem_ok word_unat_eq_iff)

lemma run_ops_ok:
  "inv s \<Longrightarrow> \<exists>s'. run_ops put del ops s = Some s' \<and> inv s' \<and> cap s' = cap s \<and>
    pages s' = pages_after (cap s) ops (pages s)"
proof (induction ops arbitrary: s)
  case Nil
  then show ?case by simp
next
  case (Cons op ops)
  obtain s1 where s1: "(if fst op then put else del) s (snd op) = Some s1" "inv s1" "cap s1 = cap s"
    "pages s1 = (if \<not> fst op then pages s - {unat (snd op)}
       else if snd op < cap s then insert (unat (snd op)) (pages s) else pages s)"
    using put_ok [OF Cons.prems, of "snd op"] del_ok [OF Cons.prems, of "snd op"] by (cases "fst op") auto
  show ?case using Cons.IH [OF s1(2)] by (simp only: run_ops.simps pages_after.simps s1 option.case)
qed

lemma sum_mem:
  assumes "inv s" "distinct ps" "(\<Sum>p\<in>set ps. unat (g p)) < 2 ^ 64"
  shows "\<exists>r. sum_present (mem s) g ps = Some r \<and>
    unat r = (\<Sum>p\<in>{p \<in> set ps. unat p \<in> pages s}. unat (g p))"
  using assms(2,3)
proof (induction ps)
  case Nil
  then show ?case by simp
next
  case (Cons p ps)
  then obtain r where r: "sum_present (mem s) g ps = Some r"
    "unat r = (\<Sum>p\<in>{p \<in> set ps. unat p \<in> pages s}. unat (g p))" by force
  have le: "unat r \<le> (\<Sum>p\<in>set ps. unat (g p))" unfolding r(2) by (intro sum_mono2) auto
  have sets: "{q \<in> set (p # ps). unat q \<in> pages s} =
      (if unat p \<in> pages s then insert p {q \<in> set ps. unat q \<in> pages s} else {q \<in> set ps. unat q \<in> pages s})"
    by auto
  have "unat (g p + r) = unat (g p) + unat r"
    using Cons.prems le by (intro unat_add_exact) simp
  then have "sum_present (mem s) g (p # ps) = Some (if unat p \<in> pages s then g p + r else r) \<and>
      unat (if unat p \<in> pages s then g p + r else r) = (\<Sum>q\<in>{q \<in> set (p # ps). unat q \<in> pages s}. unat (g q))"
    unfolding sets using r Cons.prems by (simp add: mem_ok [OF assms(1), of p])
  then show ?case by (rule exI)
qed

end

interpretation bitmap: presence_set wf_bitmap bm_len bitmap_pages bitmap_new bitmap_set bitmap_clear is_present
proof
  fix bm n p
  show "wf_bitmap (bitmap_new n) \<and> bm_len (bitmap_new n) = n \<and> bitmap_pages (bitmap_new n) = {}"
    by (rule bitmap_new_ok)
  assume "wf_bitmap bm"
  then show "\<exists>bm'. bitmap_set bm p = Some bm' \<and> wf_bitmap bm' \<and> bm_len bm' = bm_len bm \<and>
      bitmap_pages bm' = (if p < bm_len bm then insert (unat p) (bitmap_pages bm) else bitmap_pages bm)"
    and "\<exists>bm'. bitmap_clear bm p = Some bm' \<and> wf_bitmap bm' \<and> bm_len bm' = bm_len bm \<and>
      bitmap_pages bm' = bitmap_pages bm - {unat p}"
    and "is_present bm p = Some (unat p \<in> bitmap_pages bm)"
    by (rule bitmap_set_ok bitmap_clear_ok is_present_ok)+
  show "bitmap_pages bm \<subseteq> {..<unat (bm_len bm)}" by (auto simp: bitmap_pages_def)
qed

subsection \<open>Lemmas: resident bytes\<close>

lemma unat_page_len:
  "unat (page_len len ps p) = min (unat len - unat p * unat ps) (unat ps)"
proof -
  have "unat p * unat ps < 2 ^ 32 * 2 ^ 32"
    using unat_u32_less [of p] unat_u32_less [of ps] by (intro mult_strict_mono') auto
  then have "unat (ucast p * ucast ps :: u64) = unat p * unat ps"
    using unat_mult_exact [of "ucast p :: u64" "ucast ps"] by (simp add: unat_ucast_32_64)
  then show ?thesis by (auto simp: page_len_def word_nat unat_ucast_32_64)
qed

lemma sum_page_len:
  "(\<Sum>j<n. min (L - j * B) B) = min L (n * B)" for L B :: nat
  by (induction n) (auto simp: min_def algebra_simps)

lemma paged_resident:
  assumes "wf_bitmap bm" "meta_form m = FormPaged ps bm"
  shows "\<exists>r. resident_bytes m = Some r \<and>
    unat r = (\<Sum>j\<in>bitmap_pages bm. min (unat (meta_len m) - j * unat ps) (unat ps))"
proof -
  let ?n = "unat (bm_len bm)" and ?L = "unat (meta_len m)" and ?B = "unat ps"
  let ?ps = "map of_nat [0..<?n] :: u32 list"
  have id: "unat (of_nat j :: u32) = j" if "j < ?n" for j
    using that unat_u32_less [of "bm_len bm"] by (simp add: unat_of_nat)
  have inj: "inj_on (of_nat :: nat \<Rightarrow> u32) {..<?n}" by (rule inj_onI) (metis id lessThan_iff)
  have total: "(\<Sum>p\<in>set ?ps. unat (page_len (meta_len m) ps p)) = min ?L (?n * ?B)"
    using inj by (simp add: unat_page_len sum.reindex lessThan_atLeast0 [symmetric] id sum_page_len)
  have "distinct ?ps" using inj by (simp add: distinct_map lessThan_atLeast0)
  moreover have "min ?L (?n * ?B) < 2 ^ 64" using unat_u64_less [of "meta_len m"] by simp
  ultimately obtain r where r: "sum_present (is_present bm) (page_len (meta_len m) ps) ?ps = Some r"
    "unat r = (\<Sum>p\<in>{p \<in> set ?ps. unat p \<in> bitmap_pages bm}. unat (page_len (meta_len m) ps p))"
    using bitmap.sum_mem [OF assms(1), of ?ps "page_len (meta_len m) ps"] total by auto
  have sub: "bitmap_pages bm \<subseteq> {..<?n}" by (rule bitmap.bound [OF assms(1)])
  then have "{p \<in> set ?ps. unat p \<in> bitmap_pages bm} = of_nat ` bitmap_pages bm"
    using sub by (auto simp: id subset_iff intro!: imageI)
  moreover have "inj_on (of_nat :: nat \<Rightarrow> u32) (bitmap_pages bm)" using inj sub by (rule inj_on_subset)
  moreover have "unat (of_nat j :: u32) = j" if "j \<in> bitmap_pages bm" for j using sub id that by auto
  ultimately have "unat r = (\<Sum>j\<in>bitmap_pages bm. min (?L - j * ?B) ?B)"
    using r(2) by (simp add: unat_page_len sum.reindex)
  with r(1) show ?thesis by (simp add: resident_bytes_def assms(2))
qed

lemma paged_resident_le:
  fixes L B :: nat
  assumes "wf_bitmap bm"
  shows "(\<Sum>j\<in>bitmap_pages bm. min (L - j * B) B) \<le> min L (unat (bm_len bm) * B)"
  unfolding sum_page_len [symmetric] by (intro sum_mono2 bitmap.bound [OF assms]) auto

subsection \<open>Properties\<close>

text \<open>
  C7. Splitting a read never panics and is exact: whatever the object contains, the bytes of the
  segments, in order, are the bytes of the object from the offset up to the end of the request or of
  the object, whichever comes first (no bytes when the block size is zero). Every segment is
  nonempty, names an aligned block of the right object, version and block size, and stays inside it.
\<close>

theorem plan_read_tiles_request:
  "\<exists>segs. plan_read ob offset len block_size ver sz = Some segs \<and>
    concat (map (segment_bytes content) segs) =
      (if block_size = 0 then [] else map content [unat offset..<min (unat offset + unat len) (unat sz)]) \<and>
    list_all (segment_ok ob block_size ver) segs"
  by (rule plan_read_correct)

text \<open>
  C22. A FUSE read of one offset either fails because the block size is zero, or resolves to the
  aligned block that contains the offset, at the position of the offset inside that block.
\<close>

theorem resolve_read_in_block:
  "(resolve_read ob offset bs ver = Inl (Other ''block_size must be > 0'') \<longleftrightarrow> bs = 0) \<and>
   (bs \<noteq> 0 \<longrightarrow> (\<exists>t. resolve_read ob offset bs ver = Inr t \<and>
      unat bs dvd unat (blk_offset (tgt_block t)) \<and> unat (tgt_offset_in_block t) < unat bs \<and>
      unat (blk_offset (tgt_block t)) + unat (tgt_offset_in_block t) = unat offset))"
proof -
  have "\<exists>t. resolve_read ob offset bs ver = Inr t" if "bs \<noteq> 0"
    using that by (simp add: resolve_read_def Let_def)
  then show ?thesis
    using plan_read_singleton_resolves [of ob offset bs ver]
    by (fastforce simp: segment_ok_def resolve_read_def Let_def)
qed

theorem resolve_read_in_block_witness:
  "(8 :: u32) \<noteq> 0 \<and> (\<exists>t. resolve_read \<lparr>obj_backend = S3, obj_bucket = ''b'', object_path = ''k''\<rparr> 20 8 ''v1'' = Inr t \<and> unat (tgt_offset_in_block t) < 8 \<and>
     unat (blk_offset (tgt_block t)) + unat (tgt_offset_in_block t) = 20)"
  using resolve_read_in_block [of "\<lparr>obj_backend = S3, obj_bucket = ''b'', object_path = ''k''\<rparr>" 20 8 "''v1''"] by auto

text \<open>
  C8. Starting from an empty bitmap, any sequence of page insertions and removals (in or out of
  range) runs without an index panic, and afterwards the bitmap agrees with the mathematical set the
  sequence describes: on single lookups, on range lookups and on the number of present pages.
\<close>

theorem bitmap_refines_set:
  "\<exists>bm. run_ops bitmap_set bitmap_clear ops (bitmap_new n) = Some bm \<and>
    (\<forall>p. is_present bm p = Some (unat p \<in> pages_after n ops {})) \<and>
    (\<forall>s e. range_present bm s e = Some ({unat s..<unat e} \<subseteq> pages_after n ops {})) \<and>
    unat (bitmap_count bm) = card (pages_after n ops {})"
  using bitmap.run_ops_ok [of "bitmap_new n" ops] bitmap_new_ok [of n]
  by (auto simp: is_present_ok bitmap_count_ok range_present_def bitmap.range_mem)

text \<open>
  C20. The resident bytes of a paged block are computed without panic or wrap-around, are the sum of
  the lengths of the present pages, never exceed the block length, and equal it when the pages cover
  the block and all of them are present.
\<close>

theorem resident_bytes_exact:
  assumes "wf_bitmap bm" "meta_form m = FormPaged ps bm"
  shows "\<exists>r. resident_bytes m = Some r \<and>
    unat r = (\<Sum>j\<in>bitmap_pages bm. unat (page_len (meta_len m) ps (of_nat j))) \<and> r \<le> meta_len m \<and>
    (bitmap_pages bm = {..<unat (bm_len bm)} \<and> unat (meta_len m) \<le> unat (bm_len bm) * unat ps \<longrightarrow> r = meta_len m)"
proof -
  obtain r where r: "resident_bytes m = Some r"
    "unat r = (\<Sum>j\<in>bitmap_pages bm. min (unat (meta_len m) - j * unat ps) (unat ps))"
    using paged_resident [OF assms] by blast
  have "unat r = (\<Sum>j\<in>bitmap_pages bm. unat (page_len (meta_len m) ps (of_nat j)))"
    unfolding r(2)
  proof (rule sum.cong)
    fix j assume "j \<in> bitmap_pages bm"
    then have "j < 2 ^ 32" using bitmap.bound [OF assms(1)] unat_u32_less [of "bm_len bm"] by force
    then show "min (unat (meta_len m) - j * unat ps) (unat ps) = unat (page_len (meta_len m) ps (of_nat j))"
      by (simp add: unat_page_len unat_of_nat)
  qed simp
  moreover have "r \<le> meta_len m"
    using paged_resident_le [OF assms(1), of "unat (meta_len m)" "unat ps"] r(2) by (simp add: word_le_nat_alt)
  moreover have "unat r = unat (meta_len m)"
    if "bitmap_pages bm = {..<unat (bm_len bm)}" "unat (meta_len m) \<le> unat (bm_len bm) * unat ps"
    using r(2) that by (simp add: sum_page_len)
  ultimately show ?thesis using r(1) by (auto simp only: word_unat_eq_iff)
qed

theorem resident_bytes_exact_witness:
  "\<forall>b. \<exists>r. resident_bytes \<lparr>meta_id = b, meta_form = FormPaged 4 \<lparr>bm_words = [7], bm_len = 3\<rparr>, meta_len = 10\<rparr> = Some r \<and>
    r = 10"
proof -
  let ?bm = "\<lparr>bm_words = [7], bm_len = 3\<rparr> :: present_bitmap"
  have wf: "wf_bitmap ?bm" by code_simp
  have "list_all (page_bit [7]) [0..<3]" by code_simp
  then have "bitmap_pages ?bm = {..<3}" by (auto simp: bitmap_pages_def list_all_iff)
  then show ?thesis
    using resident_bytes_exact [OF wf, of "\<lparr>meta_id = b, meta_form = FormPaged 4 ?bm, meta_len = 10\<rparr>" 4 for b]
    by auto
qed

end
