(* ===== verification/Placement.thy ===== *)
theory Placement
  imports Core_Block
begin

text \<open>
  Client-side placement of cache blocks: the Maglev table of
  \<open>crates/talon-core/src/placement.rs\<close>. SHA-256 (package \<open>sha2\<close>) is the parameter \<open>sha\<close>; the
  unstable sort of the standard library is the parameter \<open>usort\<close>, of which only
  \<open>unstable_sort\<close> is relied on. \<open>usize\<close> is a 64-bit word where the code wraps and a natural number
  where it only counts. \<open>None\<close> is a panic or a loop that does not return; the theorems show that the
  construction and the ranking do return.
\<close>

subsection \<open>Hash inputs\<close>

definition BLOCK_DOMAIN :: "byte list" where
  "BLOCK_DOMAIN = as_bytes ''talon-cache-maglev-block-v1'' @ [0]"

definition WORKER_DOMAIN :: "byte list" where
  "WORKER_DOMAIN = as_bytes ''talon-cache-maglev-worker-v1'' @ [0]"

definition MEMBERSHIP_DOMAIN :: "byte list" where
  "MEMBERSHIP_DOMAIN = as_bytes ''talon-cache-membership-v1'' @ [0]"

definition MIN_TABLE_SIZE :: nat where "MIN_TABLE_SIZE = 4096"
definition SLOTS_PER_WORKER :: nat where "SLOTS_PER_WORKER = 64"
definition EMPTY_SLOT :: u32 where "EMPTY_SLOT = - 1"

definition hash_field :: "byte list \<Rightarrow> byte list" where
  "hash_field v = u64_le (of_nat (length v)) @ v"

definition backend_tag :: "backend \<Rightarrow> byte" where
  "backend_tag b = (case b of S3 \<Rightarrow> 0 | Gcs \<Rightarrow> 1 | Azure \<Rightarrow> 2)"

text \<open>The bytes fed to the hasher, in order.\<close>

definition block_hash_input :: "block_id \<Rightarrow> byte list" where
  "block_hash_input b = BLOCK_DOMAIN @ [backend_tag (obj_backend (blk_object b))]
     @ hash_field (as_bytes (obj_bucket (blk_object b)))
     @ hash_field (as_bytes (object_path (blk_object b)))
     @ u64_le (blk_offset b) @ u32_le (blk_size b) @ hash_field (as_bytes (blk_version b))"

definition cache_block_hash :: "(byte list \<Rightarrow> byte list) \<Rightarrow> block_id \<Rightarrow> byte list" where
  "cache_block_hash sha b = sha (block_hash_input b)"

definition worker_permutation :: "(byte list \<Rightarrow> byte list) \<Rightarrow> string \<Rightarrow> u64 \<Rightarrow> u64 \<times> u64" where
  "worker_permutation sha worker mk =
     (let digest = sha (WORKER_DOMAIN @ hash_field (as_bytes worker));
          offset = u64_of_le (take 8 digest) AND mk;
          skip = (u64_of_le (take 8 (drop 8 digest)) OR 1) AND mk
      in (offset, skip))"

subsection \<open>The table\<close>

record placement_table =
  pt_workers :: "node_info list"
  pt_slots :: "u32 list"
  pt_mask :: u64

text \<open>\<open>usize::saturating_mul\<close> and \<open>usize::checked_next_power_of_two\<close>.\<close>

definition sat_mul :: "nat \<Rightarrow> nat \<Rightarrow> nat" where
  "sat_mul a b = min (a * b) (2 ^ 64 - 1)"

function next_pow2_from :: "nat \<Rightarrow> nat \<Rightarrow> nat option" where
  "next_pow2_from k n = (if 64 \<le> k then None else if n \<le> 2 ^ k then Some (2 ^ k) else next_pow2_from (Suc k) n)"
  by auto
termination by (relation "measure (\<lambda>(k, n). 64 - k)") auto

definition checked_next_power_of_two :: "nat \<Rightarrow> nat option" where
  "checked_next_power_of_two n = next_pow2_from 0 n"

fun dedup_ids :: "node_info list \<Rightarrow> node_info list" where
  "dedup_ids (x # y # r) = (if node_id y = node_id x then dedup_ids (x # r) else x # dedup_ids (y # r))"
| "dedup_ids xs = xs"

definition candidate :: "u64 \<Rightarrow> u64 \<Rightarrow> u64 \<Rightarrow> u64 \<Rightarrow> nat" where
  "candidate mk offset skip n = unat ((offset + n * skip) AND mk)"

text \<open>The inner \<open>loop\<close>: the next free slot of one worker's permutation and the advanced counter.\<close>

partial_function (option) probe_slot :: "u32 list \<Rightarrow> u64 \<Rightarrow> u64 \<Rightarrow> u64 \<Rightarrow> u64 \<Rightarrow> (nat \<times> u64) option" where
  "probe_slot slots mk offset skip n =
     (case vec_get slots (candidate mk offset skip n) of
        None \<Rightarrow> None
      | Some w \<Rightarrow>
          if w = EMPTY_SLOT then Some (candidate mk offset skip n, n + 1)
          else probe_slot slots mk offset skip (n + 1))"

record fill_state =
  fs_slots :: "u32 list"
  fs_next :: "u64 list"
  fs_filled :: nat

text \<open>One pass of the \<open>for\<close> loop over the workers, leaving early when the table is full.\<close>

primrec fill_round :: "u64 \<Rightarrow> nat \<Rightarrow> (nat \<times> u64 \<times> u64) list \<Rightarrow> fill_state \<Rightarrow> fill_state option" where
  "fill_round mk tsize [] st = Some st"
| "fill_round mk tsize (p # ps) st =
     (case p of (i, offset, skip) \<Rightarrow>
      (case vec_get (fs_next st) i of None \<Rightarrow> None
      | Some n \<Rightarrow>
        (case probe_slot (fs_slots st) mk offset skip n of
          None \<Rightarrow> None
        | Some (slot, n') \<Rightarrow>
            let st' = \<lparr>fs_slots = (fs_slots st)[slot := of_nat i], fs_next = (fs_next st)[i := n'],
                       fs_filled = fs_filled st + 1\<rparr>
            in if fs_filled st' = tsize then Some st' else fill_round mk tsize ps st')))"

partial_function (option) fill_table :: "u64 \<Rightarrow> nat \<Rightarrow> (nat \<times> u64 \<times> u64) list \<Rightarrow> fill_state \<Rightarrow> fill_state option" where
  "fill_table mk tsize ps st =
     (if fs_filled st < tsize
      then case fill_round mk tsize ps st of None \<Rightarrow> None | Some st' \<Rightarrow> fill_table mk tsize ps st'
      else Some st)"

definition table_workers :: "(node_info list \<Rightarrow> node_info list) \<Rightarrow> node_info list \<Rightarrow> node_info list" where
  "table_workers usort nodes = dedup_ids (usort (filter (\<lambda>n. role n = Worker) nodes))"

definition table_new ::
  "(byte list \<Rightarrow> byte list) \<Rightarrow> (node_info list \<Rightarrow> node_info list) \<Rightarrow> node_info list \<Rightarrow> placement_table option" where
  "table_new sha usort nodes =
     (let workers = table_workers usort nodes in
      if workers = [] then Some \<lparr>pt_workers = workers, pt_slots = [], pt_mask = 0\<rparr>
      else if \<not> length workers < unat EMPTY_SLOT then None
      else case checked_next_power_of_two (max (sat_mul (length workers) SLOTS_PER_WORKER) MIN_TABLE_SIZE) of
        None \<Rightarrow> None
      | Some table_size \<Rightarrow>
          let mk = of_nat table_size - 1;
              perms = map (\<lambda>w. worker_permutation sha (node_id w) mk) workers;
              st0 = \<lparr>fs_slots = replicate table_size EMPTY_SLOT, fs_next = replicate (length workers) 0, fs_filled = 0\<rparr>
          in map_option (\<lambda>st. \<lparr>pt_workers = workers, pt_slots = fs_slots st, pt_mask = mk\<rparr>)
               (fill_table mk table_size (enumerate 0 perms) st0))"

definition primary :: "(byte list \<Rightarrow> byte list) \<Rightarrow> placement_table \<Rightarrow> block_id \<Rightarrow> node_info option option" where
  "primary sha t b =
     (let digest = cache_block_hash sha b;
          slot = u64_of_le (take 8 digest) AND pt_mask t
      in case vec_get (pt_slots t) (unat slot) of
           None \<Rightarrow> Some None
         | Some w \<Rightarrow> map_option Some (vec_get (pt_workers t) (unat w)))"

primrec rank_loop :: "placement_table \<Rightarrow> u64 \<Rightarrow> u64 \<Rightarrow> nat \<Rightarrow> nat list \<Rightarrow> node_info list \<Rightarrow> node_info list option" where
  "rank_loop t start stride target [] result = Some result"
| "rank_loop t start stride target (probe # probes) result =
     (case vec_get (pt_slots t) (candidate (pt_mask t) start stride (of_nat probe)) of None \<Rightarrow> None
      | Some w \<Rightarrow>
        (case vec_get (pt_workers t) (unat w) of None \<Rightarrow> None
         | Some node \<Rightarrow>
             if list_ex (\<lambda>m. node_id m = node_id node) result
             then rank_loop t start stride target probes result
             else let result' = result @ [node]
                  in if length result' = target then Some result'
                     else rank_loop t start stride target probes result'))"

definition rank :: "(byte list \<Rightarrow> byte list) \<Rightarrow> placement_table \<Rightarrow> block_id \<Rightarrow> nat \<Rightarrow> node_info list option" where
  "rank sha t b k =
     (let target = min k (length (pt_workers t)) in
      if target = 0 then Some []
      else
        let digest = cache_block_hash sha b;
            start = u64_of_le (take 8 digest) AND pt_mask t;
            stride = (u64_of_le (take 8 (drop 8 digest)) OR 1) AND pt_mask t
        in rank_loop t start stride target [0..<length (pt_slots t)] [])"

definition rank_cache_workers ::
  "(byte list \<Rightarrow> byte list) \<Rightarrow> (node_info list \<Rightarrow> node_info list) \<Rightarrow> block_id \<Rightarrow> node_info list \<Rightarrow> nat
    \<Rightarrow> string list option" where
  "rank_cache_workers sha usort b nodes k =
     (case table_new sha usort nodes of None \<Rightarrow> None
      | Some t \<Rightarrow> map_option (map node_id) (rank sha t b k))"

definition membership_hash_input :: "node_info list \<Rightarrow> byte list" where
  "membership_hash_input ws =
     MEMBERSHIP_DOMAIN @ concat (map (\<lambda>w. hash_field (as_bytes (node_id w)) @ hash_field (as_bytes (address w))) ws)"

definition cache_membership_epoch ::
  "(byte list \<Rightarrow> byte list) \<Rightarrow> (node_info list \<Rightarrow> node_info list) \<Rightarrow> node_info list \<Rightarrow> u64" where
  "cache_membership_epoch sha usort nodes =
     (if nodes = [] then 0
      else
        let workers = filter (\<lambda>n. role n = Worker) nodes in
        if workers = [] then 0
        else max (u64_of_be (take 8 (sha (membership_hash_input (usort workers))))) 1)"

subsection \<open>What is relied on\<close>

definition unstable_sort :: "(node_info list \<Rightarrow> node_info list) \<Rightarrow> bool" where
  "unstable_sort usort \<longleftrightarrow> (\<forall>xs. mset (usort xs) = mset xs \<and> sorted (map node_id (usort xs)))"

subsection \<open>Lemmas: odd strides visit every slot\<close>

lemma unat_and_mask:
  assumes "k \<le> 64"
  shows "unat (x AND (2 ^ k - 1 :: u64)) = unat x mod 2 ^ k"
proof -
  have "x AND (2 ^ k - 1) = take_bit k x"
    by (simp only: take_bit_eq_mask mask_eq_exp_minus_1)
  then have "unat (x AND (2 ^ k - 1)) = take_bit k (unat x)" by (simp only: unsigned_take_bit_eq)
  then show ?thesis by (simp only: take_bit_eq_mod)
qed

lemma candidate_lt: "k \<le> 64 \<Longrightarrow> candidate (2 ^ k - 1) off skip n < 2 ^ k"
  by (simp add: candidate_def unat_and_mask)

lemma int_candidate:
  assumes "k \<le> 64"
  shows "int (candidate (2 ^ k - 1) off skip n) = (uint off + uint n * uint skip) mod 2 ^ k"
proof -
  have "(2 :: int) ^ k dvd 2 ^ 64" using assms by (rule le_imp_power_dvd)
  then have "uint (off + n * skip) mod 2 ^ k = (uint off + uint n * uint skip) mod 2 ^ k"
    by (simp add: uint_word_ariths mod_mod_cancel mod_simps)
  then show ?thesis
    using assms by (simp add: candidate_def unat_and_mask zmod_int)
qed

lemma candidate_shift_inj:
  assumes k: "k \<le> 63" and odd: "odd (uint skip)"
  shows "inj_on (\<lambda>t. candidate (2 ^ k - 1) off skip (n + of_nat t)) {..<2 ^ k}"
proof (rule inj_onI)
  fix s t :: nat
  assume st: "s \<in> {..<2 ^ k}" "t \<in> {..<2 ^ k}"
    and eq: "candidate (2 ^ k - 1) off skip (n + of_nat s) = candidate (2 ^ k - 1) off skip (n + of_nat t)"
  have dvd: "(2 :: int) ^ k dvd 2 ^ 64" using k by (intro le_imp_power_dvd) simp
  have step: "(uint off + uint (n + of_nat j :: u64) * uint skip) mod 2 ^ k =
      (uint off + (uint n + int j) * uint skip) mod 2 ^ k" if "j < 2 ^ k" for j
  proof -
    have "uint (n + of_nat j :: u64) mod 2 ^ k = (uint n + int j) mod 2 ^ k"
    proof -
      have "n + of_nat j = word_of_int (uint n + int j)" by simp
      then have "uint (n + of_nat j :: u64) = (uint n + int j) mod 2 ^ 64" by (simp only: uint_word_of_int) simp
      then show ?thesis by (simp only: mod_mod_cancel [OF dvd])
    qed
    then show ?thesis by (metis mod_add_right_eq mod_mult_left_eq)
  qed
  have "(uint off + (uint n + int s) * uint skip) mod 2 ^ k = (uint off + (uint n + int t) * uint skip) mod 2 ^ k"
    using arg_cong [OF eq, of int] st step [of s] step [of t] k by (simp add: int_candidate)
  then have "2 ^ k dvd (uint off + (uint n + int s) * uint skip) - (uint off + (uint n + int t) * uint skip)"
    by (simp add: mod_eq_dvd_iff)
  then have "2 ^ k dvd (int s - int t) * uint skip" by (simp add: algebra_simps)
  moreover have "coprime (2 ^ k) (uint skip)" using odd by simp
  ultimately have "(2 :: int) ^ k dvd int s - int t" by (simp add: coprime_dvd_mult_left_iff)
  moreover have "int s < 2 ^ k" "int t < 2 ^ k" using st by simp_all
  then have "\<bar>int s - int t\<bar> < 2 ^ k" by linarith
  ultimately show "s = t" using dvd_imp_le_int [of "int s - int t" "2 ^ k"] by (cases "s = t") auto
qed

lemma candidate_cover:
  assumes "k \<le> 63" "odd (uint skip)" "c < 2 ^ k"
  shows "\<exists>t < 2 ^ k. candidate (2 ^ k - 1) off skip (n + of_nat t) = c"
proof -
  let ?f = "\<lambda>t. candidate (2 ^ k - 1) off skip (n + of_nat t)"
  have "?f ` {..<2 ^ k} \<subseteq> {..<2 ^ k}" using assms(1) by (auto intro!: candidate_lt)
  then have "?f ` {..<2 ^ k} = {..<2 ^ k}"
    using endo_inj_surj [OF finite_lessThan _ candidate_shift_inj [OF assms(1,2)]] by blast
  with assms(3) show ?thesis by (metis (no_types, lifting) imageE lessThan_iff)
qed

lemma probe_slot_returns:
  assumes "k \<le> 63" "length slots = 2 ^ k" "odd (uint skip)" "EMPTY_SLOT \<in> set slots"
  shows "\<exists>slot n'. probe_slot slots (2 ^ k - 1) off skip n = Some (slot, n') \<and> slot < length slots \<and>
    slots ! slot = EMPTY_SLOT"
proof -
  have go: "slots ! candidate (2 ^ k - 1) off skip (n + of_nat t) = EMPTY_SLOT \<Longrightarrow> ?thesis" for t
  proof (induction t arbitrary: n)
    case 0
    then show ?case using assms(1,2) candidate_lt [of k off skip n] by (simp add: probe_slot.simps)
  next
    case (Suc t)
    show ?case
    proof (cases "slots ! candidate (2 ^ k - 1) off skip n = EMPTY_SLOT")
      case True
      then show ?thesis using assms(1,2) candidate_lt [of k off skip n] by (simp add: probe_slot.simps)
    next
      case False
      have "n + of_nat (Suc t) = n + 1 + of_nat t" by simp
      with Suc.prems have "\<exists>slot n'. probe_slot slots (2 ^ k - 1) off skip (n + 1) = Some (slot, n') \<and>
          slot < length slots \<and> slots ! slot = EMPTY_SLOT" using Suc.IH [of "n + 1"] by (simp only:)
      with False show ?thesis
        using assms(1,2) candidate_lt [of k off skip n]
        by (subst probe_slot.simps) simp
    qed
  qed
  obtain c where "c < 2 ^ k" "slots ! c = EMPTY_SLOT" using assms(2,4) by (metis in_set_conv_nth)
  with candidate_cover [OF assms(1,3), of c off n] go show ?thesis by metis
qed

subsection \<open>Lemmas: filling the table\<close>

text \<open>The share of the worker at position \<open>i\<close> when \<open>filled\<close> slots are taken in turn by \<open>n\<close> workers.\<close>

definition share :: "nat \<Rightarrow> nat \<Rightarrow> nat \<Rightarrow> nat" where
  "share n filled i = (filled + n - 1 - i) div n"

definition fill_inv :: "nat \<Rightarrow> nat \<Rightarrow> fill_state \<Rightarrow> bool" where
  "fill_inv n k st \<longleftrightarrow> length (fs_slots st) = 2 ^ k \<and> length (fs_next st) = n \<and> fs_filled st \<le> 2 ^ k \<and>
     (\<forall>w \<in> set (fs_slots st). w = EMPTY_SLOT \<or> unat w < n) \<and>
     (\<forall>i < n. count (mset (fs_slots st)) (of_nat i) = share n (fs_filled st) i) \<and>
     count (mset (fs_slots st)) EMPTY_SLOT = 2 ^ k - fs_filled st"

lemma share_eq: "i \<le> n \<Longrightarrow> j < n \<Longrightarrow> share n (q * n + i) j = q + (if j < i then 1 else 0)"
proof -
  assume a: "i \<le> n" "j < n"
  show ?thesis
  proof (cases "j < i")
    case True
    then have "q * n + i + n - 1 - j = (i - 1 - j) + (q + 1) * n" using a by simp
    moreover have "i - 1 - j < n" using a True by simp
    ultimately show ?thesis using a True by (simp only: share_def div_mult_self1) simp
  next
    case False
    then have "q * n + i + n - 1 - j = (n - 1 - (j - i)) + q * n" using a by simp
    moreover have "n - 1 - (j - i) < n" using a by simp
    ultimately show ?thesis using a False by (simp only: share_def div_mult_self1) simp
  qed
qed

lemma share_step:
  assumes "i < n" "j < n"
  shows "share n (Suc (q * n + i)) j = share n (q * n + i) j + (if j = i then 1 else 0)"
  using share_eq [of "Suc i" n j q] share_eq [of i n j q] assms by auto

lemma unat_EMPTY_SLOT: "unat EMPTY_SLOT = 4294967295"
  by (simp add: EMPTY_SLOT_def unat_max_word)

lemma unat_worker_index: "i < n \<Longrightarrow> n < 4294967295 \<Longrightarrow> unat (of_nat i :: u32) = i"
  by (simp add: unat_of_nat)

lemma worker_index_neq: "i < n \<Longrightarrow> n < 4294967295 \<Longrightarrow> (of_nat i :: u32) \<noteq> EMPTY_SLOT"
  using unat_worker_index [of i n] unat_EMPTY_SLOT by force

lemma worker_index_eq:
  "i < n \<Longrightarrow> j < n \<Longrightarrow> n < 4294967295 \<Longrightarrow> (of_nat i :: u32) = of_nat j \<longleftrightarrow> i = j"
  by (metis unat_worker_index)

lemma fill_inv_step:
  assumes inv: "fill_inv n k st" and n: "n < 4294967295" and i: "i < n"
    and filled: "fs_filled st = q * n + i" "fs_filled st < 2 ^ k"
    and slot: "slot < length (fs_slots st)" "fs_slots st ! slot = EMPTY_SLOT"
  shows "fill_inv n k \<lparr>fs_slots = (fs_slots st)[slot := of_nat i], fs_next = (fs_next st)[i := n'],
                       fs_filled = fs_filled st + 1\<rparr>"
proof -
  let ?s = "(fs_slots st)[slot := of_nat i]"
  have m: "mset ?s = add_mset (of_nat i) (mset (fs_slots st) - {#EMPTY_SLOT#})"
    using mset_update [OF slot(1), of "of_nat i"] slot(2) by simp
  have "\<forall>w \<in> set ?s. w = EMPTY_SLOT \<or> unat w < n"
    using inv set_update_subset_insert [of "fs_slots st" slot "of_nat i"] unat_worker_index [OF i n] i
    by (fastforce simp: fill_inv_def)
  moreover have "count (mset ?s) (of_nat j) = share n (fs_filled st + 1) j" if j: "j < n" for j
    using inv j share_step [OF i j, of q] filled(1) worker_index_eq [OF i j n] worker_index_neq [OF j n]
    by (auto simp: m fill_inv_def)
  moreover have "count (mset ?s) EMPTY_SLOT = 2 ^ k - (fs_filled st + 1)"
    using inv filled(2) worker_index_neq [OF i n] by (auto simp: m fill_inv_def)
  ultimately show ?thesis using inv filled(2) by (simp add: fill_inv_def)
qed

lemma fill_round_returns:
  assumes k: "k \<le> 63" and n: "n < 4294967295"
  shows "\<lbrakk>fill_inv n k st; fs_filled st < 2 ^ k; fs_filled st = q * n + i; length qs = n - i; i \<le> n;
    list_all (\<lambda>p. odd (uint (snd p))) qs\<rbrakk> \<Longrightarrow>
    \<exists>st'. fill_round (2 ^ k - 1) (2 ^ k) (enumerate i qs) st = Some st' \<and> fill_inv n k st' \<and>
      (fs_filled st' = 2 ^ k \<or> fs_filled st' < 2 ^ k \<and> fs_filled st' = Suc q * n)"
proof (induction qs arbitrary: i st)
  case Nil
  then show ?case by simp
next
  case (Cons p qs)
  obtain off skip where p: "p = (off, skip)" by (cases p)
  have i: "i < n" using Cons.prems(4) by simp
  have "EMPTY_SLOT \<in># mset (fs_slots st)"
    using Cons.prems(1,2) by (simp add: fill_inv_def flip: count_greater_zero_iff del: set_mset_mset)
  then obtain slot n' where probe:
    "probe_slot (fs_slots st) (2 ^ k - 1) off skip (fs_next st ! i) = Some (slot, n')"
    "slot < length (fs_slots st)" "fs_slots st ! slot = EMPTY_SLOT"
    using probe_slot_returns [OF k, of "fs_slots st" skip off "fs_next st ! i"] Cons.prems(1,6) p
    by (auto simp: fill_inv_def)
  let ?st = "\<lparr>fs_slots = (fs_slots st)[slot := of_nat i], fs_next = (fs_next st)[i := n'],
              fs_filled = fs_filled st + 1\<rparr>"
  have inv: "fill_inv n k ?st"
    by (rule fill_inv_step [OF Cons.prems(1) n i Cons.prems(3,2) probe(2,3)])
  have get: "vec_get (fs_next st) i = Some (fs_next st ! i)"
    using Cons.prems(1) i by (simp add: fill_inv_def)
  have unf: "fill_round (2 ^ k - 1) (2 ^ k) (enumerate i (p # qs)) st =
      (if fs_filled ?st = 2 ^ k then Some ?st else fill_round (2 ^ k - 1) (2 ^ k) (enumerate (Suc i) qs) ?st)"
    by (simp add: p get probe(1))
  show ?case
  proof (cases "fs_filled ?st = 2 ^ k")
    case True
    then show ?thesis unfolding unf using inv by simp
  next
    case False
    then have "fs_filled ?st < 2 ^ k" using Cons.prems(2) by simp
    then show ?thesis
      unfolding unf if_not_P [OF False] using Cons.prems(3-6) i by (intro Cons.IH [OF inv]) auto
  qed
qed

lemma fill_table_returns:
  assumes k: "k \<le> 63" and n: "0 < n" "n < 4294967295" and qs: "length qs = n" "list_all (\<lambda>p. odd (uint (snd p))) qs"
  shows "\<lbrakk>fill_inv n k st; fs_filled st = 2 ^ k \<or> fs_filled st = q * n\<rbrakk> \<Longrightarrow>
    \<exists>st'. fill_table (2 ^ k - 1) (2 ^ k) (enumerate 0 qs) st = Some st' \<and> fill_inv n k st' \<and> fs_filled st' = 2 ^ k"
proof (induction "2 ^ k - fs_filled st" arbitrary: st q rule: less_induct)
  case less
  show ?case
  proof (cases "fs_filled st < 2 ^ k")
    case False
    then show ?thesis using less.prems(1) by (auto simp: fill_table.simps fill_inv_def)
  next
    case True
    then obtain st' where st': "fill_round (2 ^ k - 1) (2 ^ k) (enumerate 0 qs) st = Some st'" "fill_inv n k st'"
      "fs_filled st' = 2 ^ k \<or> fs_filled st' < 2 ^ k \<and> fs_filled st' = Suc q * n"
      using fill_round_returns [OF k n(2) less.prems(1), of q 0 qs] less.prems(2) qs by auto
    have "fs_filled st < fs_filled st'" using st'(3) True less.prems(2) n(1) by auto
    then have "2 ^ k - fs_filled st' < 2 ^ k - fs_filled st" using True by simp
    from less.hyps [OF this st'(2), of "Suc q"] st'(3) obtain st2 where
      "fill_table (2 ^ k - 1) (2 ^ k) (enumerate 0 qs) st' = Some st2 \<and> fill_inv n k st2 \<and> fs_filled st2 = 2 ^ k"
      by blast
    then show ?thesis using True st'(1) by (subst fill_table.simps) simp
  qed
qed

subsection \<open>Lemmas: building the table\<close>

lemma next_pow2_from_returns:
  "\<lbrakk>j \<le> 63; n \<le> 2 ^ 63; j = 0 \<or> 2 ^ (j - 1) < n\<rbrakk> \<Longrightarrow>
    \<exists>k \<le> 63. next_pow2_from j n = Some (2 ^ k) \<and> n \<le> 2 ^ k \<and> (k = 0 \<or> 2 ^ (k - 1) < n)"
proof (induction j n rule: next_pow2_from.induct)
  case (1 j n)
  show ?case
  proof (cases "n \<le> 2 ^ j")
    case True
    then show ?thesis using "1.prems" by auto
  next
    case False
    then have "j \<noteq> 63" using "1.prems"(2) by auto
    then have "Suc j \<le> 63" using "1.prems"(1) by simp
    then show ?thesis
      using "1.IH" [OF _ False] "1.prems" False by (subst next_pow2_from.simps) simp
  qed
qed

lemma next_power_of_two_returns:
  "n \<le> 2 ^ 63 \<Longrightarrow> \<exists>k \<le> 63. checked_next_power_of_two n = Some (2 ^ k) \<and> n \<le> 2 ^ k \<and> (k = 0 \<or> 2 ^ (k - 1) < n)"
  using next_pow2_from_returns [of 0 n] by (simp add: checked_next_power_of_two_def)

lemma odd_stride:
  assumes "0 < k"
  shows "odd (uint ((x OR 1) AND (2 ^ k - 1 :: u64)))"
proof -
  have "bit ((x OR 1) AND (2 ^ k - 1 :: u64)) 0"
    using assms unfolding mask_eq_exp_minus_1 [symmetric] by (simp add: bit_simps)
  then have "bit (uint ((x OR 1) AND (2 ^ k - 1 :: u64))) 0" by (simp add: bit_uint_iff del: bit_0)
  then show ?thesis unfolding bit_0 .
qed

lemma dedup_ids_set: "set (dedup_ids xs) \<subseteq> set xs \<and> node_id ` set (dedup_ids xs) = node_id ` set xs"
  by (induction xs rule: dedup_ids.induct) auto

lemma dedup_ids_hd: "dedup_ids (x # xs) = y # ys \<Longrightarrow> y = x"
  by (induction "x # xs" arbitrary: xs rule: dedup_ids.induct) (auto split: if_splits)

lemma dedup_ids_distinct: "sorted (map node_id xs) \<Longrightarrow> distinct (map node_id (dedup_ids xs))"
proof (induction xs rule: dedup_ids.induct)
  case (1 x y r)
  show ?case
  proof (cases "node_id y = node_id x")
    case True
    then show ?thesis using 1 by auto
  next
    case False
    then have "node_id x < node_id z" if "z \<in> set (y # r)" for z
      using "1.prems" that by (auto simp: less_le)
    then have "node_id x \<notin> node_id ` set (dedup_ids (y # r))"
      using dedup_ids_set [of "y # r"] by force
    then show ?thesis using 1 False by auto
  qed
qed auto

lemma dedup_ids_id: "distinct (map node_id xs) \<Longrightarrow> dedup_ids xs = xs"
  by (induction xs rule: dedup_ids.induct) auto

lemma unstable_sort_unique:
  assumes "unstable_sort usort" "mset xs = mset ys" "distinct (map node_id xs)"
  shows "usort ys = sort_key node_id xs"
  using assms by (intro sort_key_inj_key_eq [symmetric]) (auto simp: unstable_sort_def distinct_map)

lemma table_workers_ids:
  assumes "unstable_sort usort"
  shows "distinct (map node_id (table_workers usort nodes)) \<and>
    set (table_workers usort nodes) \<subseteq> {n \<in> set nodes. role n = Worker} \<and>
    node_id ` set (table_workers usort nodes) = node_id ` {n \<in> set nodes. role n = Worker}"
proof -
  let ?s = "usort (filter (\<lambda>n. role n = Worker) nodes)"
  have "set ?s = {n \<in> set nodes. role n = Worker}" "sorted (map node_id ?s)"
    using assms mset_eq_setD [of ?s "filter (\<lambda>n. role n = Worker) nodes"]
    by (auto simp: unstable_sort_def)
  then show ?thesis
    using dedup_ids_set [of ?s] dedup_ids_distinct [of ?s] by (auto simp: table_workers_def)
qed

definition table_ok :: "placement_table \<Rightarrow> nat \<Rightarrow> bool" where
  "table_ok t k \<longleftrightarrow> 12 \<le> k \<and> k \<le> 63 \<and> pt_mask t = 2 ^ k - 1 \<and> length (pt_slots t) = 2 ^ k \<and>
     64 * length (pt_workers t) \<le> 2 ^ k \<and> pt_workers t \<noteq> [] \<and> length (pt_workers t) < 4294967295 \<and>
     distinct (map node_id (pt_workers t)) \<and>
     (\<forall>w \<in> set (pt_slots t). unat w < length (pt_workers t)) \<and>
     (\<forall>i < length (pt_workers t). count (mset (pt_slots t)) (of_nat i) = share (length (pt_workers t)) (2 ^ k) i)"

lemma share_0: "i < n \<Longrightarrow> share n 0 i = 0"
  by (simp add: share_def)

lemma table_new_returns:
  assumes usort: "unstable_sort usort" and n: "table_workers usort nodes \<noteq> []"
    "length (table_workers usort nodes) < 4294967295"
  shows "\<exists>t k. table_new sha usort nodes = Some t \<and> pt_workers t = table_workers usort nodes \<and> table_ok t k"
proof -
  let ?ws = "table_workers usort nodes"
  let ?n = "length ?ws"
  let ?wanted = "max (sat_mul ?n SLOTS_PER_WORKER) MIN_TABLE_SIZE"
  have wanted: "?wanted = max (?n * 64) 4096" "?wanted \<le> 2 ^ 63"
    using n(2) by (auto simp: sat_mul_def SLOTS_PER_WORKER_def MIN_TABLE_SIZE_def)
  obtain k where k: "k \<le> 63" "checked_next_power_of_two ?wanted = Some (2 ^ k)" "?wanted \<le> 2 ^ k"
    using next_power_of_two_returns [OF wanted(2)] by blast
  have "(2 :: nat) ^ 12 \<le> 2 ^ k" using k(3) wanted(1) by simp
  then have k12: "12 \<le> k" by (simp only: power_increasing_iff)
  let ?mk = "2 ^ k - 1 :: u64"
  let ?perms = "map (\<lambda>w. worker_permutation sha (node_id w) ?mk) ?ws"
  let ?st0 = "\<lparr>fs_slots = replicate (2 ^ k) EMPTY_SLOT, fs_next = replicate ?n 0, fs_filled = 0\<rparr>"
  have odd: "list_all (\<lambda>p. odd (uint (snd p))) ?perms"
    using odd_stride [of k] k12 by (simp add: list_all_iff worker_permutation_def Let_def)
  have inv0: "fill_inv ?n k ?st0"
    using n(2) worker_index_neq [of _ ?n] by (auto simp: fill_inv_def share_0)
  obtain st where st: "fill_table ?mk (2 ^ k) (enumerate 0 ?perms) ?st0 = Some st" "fill_inv ?n k st"
    "fs_filled st = 2 ^ k"
    using fill_table_returns [OF k(1) _ n(2) _ odd inv0, of 0] n(1) by auto
  let ?t = "\<lparr>pt_workers = ?ws, pt_slots = fs_slots st, pt_mask = ?mk\<rparr>"
  have "EMPTY_SLOT \<notin> set (fs_slots st)"
    using st(2,3) by (simp add: fill_inv_def count_eq_zero_iff)
  then have "table_ok ?t k"
    using st(2,3) k(1,3) k12 n wanted(1) table_workers_ids [OF usort, of nodes]
    by (auto simp: table_ok_def fill_inv_def)
  moreover have "table_new sha usort nodes = Some ?t"
    using n k(2) st(1) by (simp add: table_new_def Let_def unat_EMPTY_SLOT)
  ultimately show ?thesis by fastforce
qed

subsection \<open>Lemmas: ranking\<close>

text \<open>The reference order: keep the first occurrence of every worker id.\<close>

primrec first_by_id :: "node_info list \<Rightarrow> node_info list \<Rightarrow> node_info list" where
  "first_by_id res [] = res"
| "first_by_id res (x # xs) =
     (if node_id x \<in> node_id ` set res then first_by_id res xs else first_by_id (res @ [x]) xs)"

definition slot_owner :: "placement_table \<Rightarrow> nat \<Rightarrow> node_info" where
  "slot_owner t c = pt_workers t ! unat (pt_slots t ! c)"

lemma first_by_id_props:
  "(distinct (map node_id res) \<longrightarrow> distinct (map node_id (first_by_id res xs))) \<and>
   set (first_by_id res xs) \<subseteq> set res \<union> set xs \<and>
   node_id ` set (first_by_id res xs) = node_id ` (set res \<union> set xs) \<and> prefix res (first_by_id res xs)"
proof (induction xs arbitrary: res)
  case Nil
  then show ?case by simp
next
  case (Cons x xs)
  show ?case
  proof (cases "node_id x \<in> node_id ` set res")
    case True
    then show ?thesis using Cons.IH [of res] by auto
  next
    case False
    have "prefix res (first_by_id (res @ [x]) xs)"
      using Cons.IH [of "res @ [x]"] by (auto elim: prefixE intro: prefixI)
    then show ?thesis using False Cons.IH [of "res @ [x]"] by auto
  qed
qed

lemma rank_loop_eq:
  assumes ok: "table_ok t k"
  shows "length res < target \<Longrightarrow>
    rank_loop t start stride target ps res =
      Some (take target (first_by_id res (map (\<lambda>p. slot_owner t (candidate (pt_mask t) start stride (of_nat p))) ps)))"
proof (induction ps arbitrary: res)
  case Nil
  then show ?case by simp
next
  case (Cons p ps)
  let ?c = "candidate (pt_mask t) start stride (of_nat p)"
  let ?x = "slot_owner t ?c"
  have c: "?c < length (pt_slots t)" using ok candidate_lt [of k start stride "of_nat p"] by (simp add: table_ok_def)
  then have w: "unat (pt_slots t ! ?c) < length (pt_workers t)" using ok by (simp add: table_ok_def)
  have ex: "list_ex (\<lambda>m. node_id m = node_id ?x) res \<longleftrightarrow> node_id ?x \<in> node_id ` set res"
    unfolding list_ex_iff image_iff by metis
  have unf: "rank_loop t start stride target (p # ps) res =
      (if node_id ?x \<in> node_id ` set res then rank_loop t start stride target ps res
       else if Suc (length res) = target then Some (res @ [?x])
       else rank_loop t start stride target ps (res @ [?x]))"
    using c w ex by (simp add: slot_owner_def Let_def)
  show ?case
  proof (cases "node_id ?x \<notin> node_id ` set res \<and> Suc (length res) = target")
    case True
    obtain zs where "first_by_id (res @ [?x]) (map (\<lambda>p. slot_owner t (candidate (pt_mask t) start stride (of_nat p))) ps) =
        (res @ [?x]) @ zs" using first_by_id_props [of "res @ [?x]"] by (metis prefixE)
    then show ?thesis unfolding unf using True by auto
  next
    case False
    then show ?thesis unfolding unf using Cons.prems by (auto simp: Cons.IH)
  qed
qed

lemma every_worker_owns_a_slot:
  assumes "table_ok t k" "x \<in> set (pt_workers t)"
  shows "\<exists>c < 2 ^ k. slot_owner t c = x"
proof -
  let ?n = "length (pt_workers t)"
  obtain i where i: "i < ?n" "pt_workers t ! i = x" using assms(2) by (auto simp: in_set_conv_nth)
  have "64 * ?n \<le> 2 ^ k" using assms(1) by (simp add: table_ok_def)
  then have "?n \<le> 2 ^ k + ?n - 1 - i" using i(1) by linarith
  then have "0 < share ?n (2 ^ k) i" using i(1) by (auto simp: share_def div_greater_zero_iff)
  then have "0 < count (mset (pt_slots t)) (of_nat i)" using assms(1) i(1) by (simp add: table_ok_def)
  then have "of_nat i \<in> set (pt_slots t)" by (simp only: count_greater_zero_iff set_mset_mset)
  then obtain c where "c < length (pt_slots t)" "pt_slots t ! c = of_nat i" by (auto simp: in_set_conv_nth)
  then show ?thesis
    using assms(1) i unat_worker_index [of i ?n] by (auto simp: slot_owner_def table_ok_def)
qed

definition preference :: "(byte list \<Rightarrow> byte list) \<Rightarrow> placement_table \<Rightarrow> block_id \<Rightarrow> node_info list" where
  "preference sha t b =
     (let digest = cache_block_hash sha b;
          start = u64_of_le (take 8 digest) AND pt_mask t;
          stride = (u64_of_le (take 8 (drop 8 digest)) OR 1) AND pt_mask t
      in first_by_id []
           (map (\<lambda>p. slot_owner t (candidate (pt_mask t) start stride (of_nat p))) [0..<length (pt_slots t)]))"

lemma mset_eq_by_ids:
  assumes "distinct (map node_id xs)" "distinct (map node_id ys)" "set xs \<subseteq> set ys"
    "node_id ` set xs = node_id ` set ys"
  shows "mset xs = mset ys"
proof -
  have "set ys \<subseteq> set xs"
  proof
    fix y assume y: "y \<in> set ys"
    then obtain x where "x \<in> set xs" "node_id x = node_id y" using assms(4) by (metis imageE imageI)
    then show "y \<in> set xs" using y assms(2,3) by (metis distinct_map inj_onD subsetD)
  qed
  then show ?thesis using assms(1-3) set_eq_iff_mset_eq_distinct [of xs ys] by (auto simp: distinct_map)
qed

lemma preference_perm:
  assumes ok: "table_ok t k"
  shows "mset (preference sha t b) = mset (pt_workers t)"
proof (rule mset_eq_by_ids)
  define start where "start = u64_of_le (take 8 (cache_block_hash sha b)) AND pt_mask t"
  define stride where "stride = (u64_of_le (take 8 (drop 8 (cache_block_hash sha b))) OR 1) AND pt_mask t"
  let ?cand = "\<lambda>p. candidate (pt_mask t) start stride (of_nat p)"
  let ?xs = "map (\<lambda>p. slot_owner t (?cand p)) [0..<length (pt_slots t)]"
  have pref: "preference sha t b = first_by_id [] ?xs"
    by (simp add: preference_def start_def stride_def Let_def)
  have cand: "?cand p < 2 ^ k" for p using ok by (simp add: table_ok_def candidate_lt)
  have "slot_owner t (?cand p) \<in> set (pt_workers t)" for p
    using ok cand [of p] by (simp add: slot_owner_def table_ok_def)
  then have sub: "set ?xs \<subseteq> set (pt_workers t)" by auto
  have "set (pt_workers t) \<subseteq> set ?xs"
  proof
    fix x assume "x \<in> set (pt_workers t)"
    then obtain c where c: "c < 2 ^ k" "slot_owner t c = x" using every_worker_owns_a_slot [OF ok] by blast
    have "odd (uint stride)" using ok odd_stride [of k] by (simp add: stride_def table_ok_def)
    then obtain p where "p < 2 ^ k" "?cand p = c"
      using candidate_cover [of k stride c start 0] c(1) ok by (auto simp: table_ok_def)
    then show "x \<in> set ?xs" using c(2) ok by (auto simp: table_ok_def)
  qed
  with sub have xs: "set ?xs = set (pt_workers t)" by blast
  show "distinct (map node_id (pt_workers t))" using ok by (simp add: table_ok_def)
  show "distinct (map node_id (preference sha t b))" "set (preference sha t b) \<subseteq> set (pt_workers t)"
    "node_id ` set (preference sha t b) = node_id ` set (pt_workers t)"
    using first_by_id_props [of "[]" ?xs] xs by (auto simp: pref)
qed

lemma rank_preference:
  assumes "table_ok t k"
  shows "rank sha t b j = Some (take j (preference sha t b))"
proof -
  have len: "length (preference sha t b) = length (pt_workers t)"
    using preference_perm [OF assms] by (metis size_mset)
  then have "take (min j (length (pt_workers t))) (preference sha t b) = take j (preference sha t b)"
    by (simp add: min_def)
  then show ?thesis
    using rank_loop_eq [OF assms, of "[]"]
    by (auto simp: rank_def preference_def Let_def)
qed

lemma primary_preference:
  assumes "table_ok t k"
  shows "primary sha t b = Some (Some (hd (preference sha t b)))"
proof -
  define start where "start = u64_of_le (take 8 (cache_block_hash sha b)) AND pt_mask t"
  define stride where "stride = (u64_of_le (take 8 (drop 8 (cache_block_hash sha b))) OR 1) AND pt_mask t"
  let ?cand = "\<lambda>p. candidate (pt_mask t) start stride (of_nat p)"
  have cand0: "?cand 0 = unat start" by (simp add: candidate_def start_def and.assoc)
  have len: "length (pt_slots t) = 2 ^ k" using assms by (simp add: table_ok_def)
  have upt: "[0..<length (pt_slots t)] = 0 # [1..<2 ^ k]" by (simp add: len upt_conv_Cons)
  have "preference sha t b =
      first_by_id [slot_owner t (?cand 0)] (map (\<lambda>p. slot_owner t (?cand p)) [1..<2 ^ k])"
    by (simp add: preference_def upt Let_def start_def stride_def)
  then have "hd (preference sha t b) = slot_owner t (unat start)"
    using first_by_id_props [of "[slot_owner t (?cand 0)]"] by (metis cand0 list.sel(1) prefix_Cons prefix_order.order_refl append_Cons prefixE)
  moreover have "unat start < 2 ^ k" using assms cand0 candidate_lt [of k start stride 0] by (simp add: table_ok_def)
  moreover from this have "unat (pt_slots t ! unat start) < length (pt_workers t)"
    using assms len by (simp add: table_ok_def)
  ultimately show ?thesis
    by (simp add: primary_def Let_def start_def [symmetric] len slot_owner_def)
qed

subsection \<open>Lemmas: hash inputs are unambiguous\<close>

lemma hash_field_inject:
  assumes "length a < 2 ^ 64" "length b < 2 ^ 64" "hash_field a @ x = hash_field b @ y"
  shows "a = b \<and> x = y"
proof -
  have "u64_le (of_nat (length a)) = u64_le (of_nat (length b))" "a @ x = b @ y"
    using assms(3) by (auto simp: hash_field_def append_eq_append_conv)
  then have "of_nat (length a) = (of_nat (length b) :: u64)" by simp
  then have "unat (of_nat (length a) :: u64) = unat (of_nat (length b) :: u64)" by simp
  then have "length a = length b" using assms(1,2) by (simp add: unat_of_nat)
  with \<open>a @ x = b @ y\<close> show ?thesis by simp
qed

lemma backend_tag_inject: "backend_tag a = backend_tag b \<longleftrightarrow> a = b"
  by (cases a; cases b) (auto simp: backend_tag_def)

definition field_lengths_ok :: "block_id \<Rightarrow> bool" where
  "field_lengths_ok b \<longleftrightarrow> length (obj_bucket (blk_object b)) < 2 ^ 64 \<and> length (object_path (blk_object b)) < 2 ^ 64 \<and>
     length (blk_version b) < 2 ^ 64"

lemma block_hash_input_inject:
  assumes "field_lengths_ok a" "field_lengths_ok b" "block_hash_input a = block_hash_input b"
  shows "a = b"
proof -
  let ?o = blk_object
  have 1: "backend_tag (obj_backend (?o a)) = backend_tag (obj_backend (?o b))"
    and 2: "hash_field (as_bytes (obj_bucket (?o a))) @ hash_field (as_bytes (object_path (?o a))) @
        u64_le (blk_offset a) @ u32_le (blk_size a) @ hash_field (as_bytes (blk_version a)) =
      hash_field (as_bytes (obj_bucket (?o b))) @ hash_field (as_bytes (object_path (?o b))) @
        u64_le (blk_offset b) @ u32_le (blk_size b) @ hash_field (as_bytes (blk_version b))"
    using assms(3) by (auto simp: block_hash_input_def)
  have 3: "obj_bucket (?o a) = obj_bucket (?o b)"
    and 4: "hash_field (as_bytes (object_path (?o a))) @ u64_le (blk_offset a) @ u32_le (blk_size a) @
        hash_field (as_bytes (blk_version a)) =
      hash_field (as_bytes (object_path (?o b))) @ u64_le (blk_offset b) @ u32_le (blk_size b) @
        hash_field (as_bytes (blk_version b))"
    using hash_field_inject [OF _ _ 2] assms(1,2) by (simp_all add: field_lengths_ok_def)
  have 5: "object_path (?o a) = object_path (?o b)"
    and 6: "u64_le (blk_offset a) @ u32_le (blk_size a) @ hash_field (as_bytes (blk_version a)) =
      u64_le (blk_offset b) @ u32_le (blk_size b) @ hash_field (as_bytes (blk_version b))"
    using hash_field_inject [OF _ _ 4] assms(1,2) by (simp_all add: field_lengths_ok_def)
  have 7: "blk_offset a = blk_offset b" "blk_size a = blk_size b"
    and 8: "hash_field (as_bytes (blk_version a)) @ [] = hash_field (as_bytes (blk_version b)) @ []"
    using 6 by (auto simp: append_eq_append_conv)
  have "blk_version a = blk_version b"
    using hash_field_inject [OF _ _ 8] assms(1,2) by (simp add: field_lengths_ok_def)
  then show ?thesis using 1 3 5 7 by (auto simp: backend_tag_inject)
qed

lemma membership_fields_inject:
  "\<lbrakk>\<forall>w \<in> set xs \<union> set ys. length (node_id w) < 2 ^ 64 \<and> length (address w) < 2 ^ 64;
    concat (map (\<lambda>w. hash_field (as_bytes (node_id w)) @ hash_field (as_bytes (address w))) xs) =
    concat (map (\<lambda>w. hash_field (as_bytes (node_id w)) @ hash_field (as_bytes (address w))) ys)\<rbrakk> \<Longrightarrow>
   map (\<lambda>w. (node_id w, address w)) xs = map (\<lambda>w. (node_id w, address w)) ys"
proof (induction xs arbitrary: ys)
  case Nil
  then show ?case by (cases ys) (auto simp: hash_field_def dest: arg_cong [of _ _ length])
next
  case (Cons x xs)
  let ?f = "\<lambda>w. hash_field (as_bytes (node_id w)) @ hash_field (as_bytes (address w))"
  obtain y zs where ys: "ys = y # zs"
    using Cons.prems(2) by (cases ys) (auto simp: hash_field_def dest: arg_cong [of _ _ length])
  have 1: "hash_field (as_bytes (node_id x)) @ hash_field (as_bytes (address x)) @ concat (map ?f xs) =
      hash_field (as_bytes (node_id y)) @ hash_field (as_bytes (address y)) @ concat (map ?f zs)"
    using Cons.prems(2) by (simp add: ys)
  have 2: "node_id x = node_id y"
    "hash_field (as_bytes (address x)) @ concat (map ?f xs) = hash_field (as_bytes (address y)) @ concat (map ?f zs)"
    using hash_field_inject [OF _ _ 1] Cons.prems(1) by (simp_all add: ys)
  have 3: "address x = address y" "concat (map ?f xs) = concat (map ?f zs)"
    using hash_field_inject [OF _ _ 2(2)] Cons.prems(1) by (simp_all add: ys)
  show ?case using Cons.IH [OF _ 3(2)] Cons.prems(1) 2(1) 3(1) by (simp add: ys)
qed

subsection \<open>Properties\<close>

lemma unstable_sort_sort_key: "unstable_sort (sort_key node_id)"
  by (simp add: unstable_sort_def)

lemma share_div:
  assumes "i < n"
  shows "share n s i = s div n + (if i < s mod n then 1 else 0)"
  using share_eq [of "s mod n" n i "s div n"] assms by simp

lemma table_new_empty:
  "table_workers usort nodes = [] \<Longrightarrow>
    table_new sha usort nodes = Some \<lparr>pt_workers = [], pt_slots = [], pt_mask = 0\<rparr>"
  by (simp add: table_new_def Let_def)

text \<open>
  C2. Building the placement table returns for every nonempty membership of fewer than
  \<open>2^32 - 1\<close> workers: the probing loops end, and the result indexes exactly the workers of the
  membership, by strictly distinct ids. The table has a power of two of slots, at least 4096 and at
  least 64 per worker; every slot is owned by a worker, and the shares are perfectly balanced: each
  worker owns the quotient of slots by workers, and the first workers one of the remainder each.
\<close>

theorem placement_table_balanced:
  assumes "unstable_sort usort" "table_workers usort nodes \<noteq> []"
    "length (table_workers usort nodes) < 2 ^ 32 - 1"
  shows "\<exists>t k. table_new sha usort nodes = Some t \<and> pt_workers t = table_workers usort nodes \<and>
    distinct (map node_id (pt_workers t)) \<and>
    length (pt_slots t) = 2 ^ k \<and> max 4096 (64 * length (pt_workers t)) \<le> 2 ^ k \<and> pt_mask t = 2 ^ k - 1 \<and>
    (\<forall>w \<in> set (pt_slots t). unat w < length (pt_workers t)) \<and>
    (\<forall>i < length (pt_workers t). count (mset (pt_slots t)) (of_nat i) =
       2 ^ k div length (pt_workers t) + (if i < 2 ^ k mod length (pt_workers t) then 1 else 0))"
proof -
  obtain t k where t: "table_new sha usort nodes = Some t" "pt_workers t = table_workers usort nodes" "table_ok t k"
    using table_new_returns [OF assms(1,2), of sha] assms(3) by auto
  then have "(4096 :: nat) \<le> 2 ^ k" using power_increasing [of 12 k "2 :: nat"] by (simp add: table_ok_def)
  with t show ?thesis by (intro exI [of _ t] exI [of _ k]) (auto simp: table_ok_def share_div)
qed

theorem placement_table_balanced_witness:
  "\<exists>t k. table_new (\<lambda>_. replicate 32 0) (sort_key node_id)
      [\<lparr>node_id = ''w1'', address = ''a:1'', role = Worker\<rparr>, \<lparr>node_id = ''c'', address = ''a:2'', role = Coordinator\<rparr>] = Some t \<and>
    length (pt_slots t) = 2 ^ k \<and> count (mset (pt_slots t)) 0 = 2 ^ k"
  using placement_table_balanced [OF unstable_sort_sort_key,
      of "[\<lparr>node_id = ''w1'', address = ''a:1'', role = Worker\<rparr>, \<lparr>node_id = ''c'', address = ''a:2'', role = Coordinator\<rparr>]"
        "\<lambda>_. replicate 32 0"]
  by (fastforce simp: table_workers_def)

text \<open>
  C6. Every block has one preference order over the whole membership: a permutation of the table's
  workers such that the primary is its first element and, for every \<open>k\<close>, the ranked replicas are its
  first \<open>k\<close> elements. So a ranking has exactly \<open>min k n\<close> distinct workers, primary first, rankings of
  different sizes are nested, and ranking always returns; with no worker it is empty.
\<close>

theorem ranking_is_prefix_of_preference:
  assumes "unstable_sort usort" "length (table_workers usort nodes) < 2 ^ 32 - 1"
  shows "\<exists>t order. table_new sha usort nodes = Some t \<and> mset order = mset (table_workers usort nodes) \<and>
    distinct (map node_id order) \<and>
    primary sha t b = Some (if order = [] then None else Some (hd order)) \<and>
    (\<forall>k. rank sha t b k = Some (take k order)) \<and>
    (\<forall>k. rank_cache_workers sha usort b nodes k = Some (take k (map node_id order)))"
proof (cases "table_workers usort nodes = []")
  case True
  then show ?thesis
    by (auto simp: rank_cache_workers_def table_new_empty rank_def primary_def Let_def vec_get_def)
next
  case False
  obtain t k where t: "table_new sha usort nodes = Some t" "pt_workers t = table_workers usort nodes" "table_ok t k"
    using table_new_returns [OF assms(1) False, of sha] assms(2) by auto
  have perm: "mset (preference sha t b) = mset (table_workers usort nodes)"
    using preference_perm [OF t(3)] t(2) by simp
  then have "distinct (map node_id (preference sha t b))"
    using table_workers_ids [OF assms(1), of nodes] mset_eq_imp_distinct_iff [of "map node_id (preference sha t b)" "map node_id (table_workers usort nodes)"]
    by (simp add: mset_map)
  moreover have "preference sha t b \<noteq> []" using perm False by auto
  ultimately show ?thesis
    using t perm rank_preference [OF t(3)] primary_preference [OF t(3)]
    by (intro exI [of _ t] exI [of _ "preference sha t b"]) (simp add: rank_cache_workers_def take_map)
qed

theorem ranking_is_prefix_of_preference_witness:
  "rank_cache_workers (\<lambda>_. replicate 32 0) (sort_key node_id)
     \<lparr>blk_object = \<lparr>obj_backend = S3, obj_bucket = ''b'', object_path = ''k''\<rparr>, blk_offset = 0, blk_size = 4096, blk_version = ''v''\<rparr>
     [\<lparr>node_id = ''w1'', address = ''a:1'', role = Worker\<rparr>] 3 = Some [''w1'']"
  using ranking_is_prefix_of_preference [OF unstable_sort_sort_key, of "[\<lparr>node_id = ''w1'', address = ''a:1'', role = Worker\<rparr>]"
      "\<lambda>_. replicate 32 0"
      "\<lparr>blk_object = \<lparr>obj_backend = S3, obj_bucket = ''b'', object_path = ''k''\<rparr>, blk_offset = 0, blk_size = 4096, blk_version = ''v''\<rparr>"]
  by (auto simp: table_workers_def)

text \<open>
  C17. Placement and the membership epoch do not depend on the order in which the nodes were listed,
  nor on how the unstable sort breaks ties, as long as the worker ids are distinct: two clients with
  the same membership build the same table and the same epoch.
\<close>

theorem placement_order_independent:
  assumes "unstable_sort usort" "unstable_sort usort'" "mset nodes = mset nodes'"
    "distinct (map node_id (filter (\<lambda>n. role n = Worker) nodes))"
  shows "table_new sha usort nodes = table_new sha usort' nodes' \<and>
    cache_membership_epoch sha usort nodes = cache_membership_epoch sha usort' nodes'"
proof -
  let ?w = "filter (\<lambda>n. role n = Worker)"
  have m: "mset (?w nodes) = mset (?w nodes')" using assms(3) by (metis mset_filter)
  have eq: "usort (?w nodes) = usort' (?w nodes')"
    using unstable_sort_unique [OF assms(1) refl assms(4)] unstable_sort_unique [OF assms(2) m assms(4)] by simp
  have "nodes = [] \<longleftrightarrow> nodes' = []" "?w nodes = [] \<longleftrightarrow> ?w nodes' = []"
    using assms(3) m by (metis mset_zero_iff)+
  then show ?thesis
    by (simp only: table_new_def table_workers_def cache_membership_epoch_def eq Let_def)
qed

theorem placement_order_independent_witness:
  "cache_membership_epoch (\<lambda>x. take 32 (rev x)) (sort_key node_id)
     [\<lparr>node_id = ''a'', address = ''1'', role = Worker\<rparr>, \<lparr>node_id = ''b'', address = ''2'', role = Worker\<rparr>] =
   cache_membership_epoch (\<lambda>x. take 32 (rev x)) (sort_key node_id)
     [\<lparr>node_id = ''b'', address = ''2'', role = Worker\<rparr>, \<lparr>node_id = ''a'', address = ''1'', role = Worker\<rparr>]"
  using placement_order_independent [OF unstable_sort_sort_key unstable_sort_sort_key,
      of "[\<lparr>node_id = ''a'', address = ''1'', role = Worker\<rparr>, \<lparr>node_id = ''b'', address = ''2'', role = Worker\<rparr>]"
         "[\<lparr>node_id = ''b'', address = ''2'', role = Worker\<rparr>, \<lparr>node_id = ''a'', address = ''1'', role = Worker\<rparr>]"
         "\<lambda>x. take 32 (rev x)"]
  by (simp add: add_mset_commute)

text \<open>
  C18. The bytes hashed for placement identify what they name: two blocks with equal hash input are the
  same block, and two sorted memberships with equal hash input have the same ids and addresses in the
  same order. The hypotheses only say that strings are shorter than \<open>2^64\<close> bytes.
\<close>

theorem hash_inputs_injective:
  assumes "field_lengths_ok a" "field_lengths_ok b"
    "\<forall>w \<in> set xs \<union> set ys. length (node_id w) < 2 ^ 64 \<and> length (address w) < 2 ^ 64"
  shows "(block_hash_input a = block_hash_input b \<longleftrightarrow> a = b) \<and>
    (membership_hash_input xs = membership_hash_input ys \<longleftrightarrow>
      map (\<lambda>w. (node_id w, address w)) xs = map (\<lambda>w. (node_id w, address w)) ys)"
proof -
  have f: "concat (map (\<lambda>w. hash_field (as_bytes (node_id w)) @ hash_field (as_bytes (address w))) zs) =
      concat (map (\<lambda>(i, d). hash_field (as_bytes i) @ hash_field (as_bytes d)) (map (\<lambda>w. (node_id w, address w)) zs))" for zs
    by (simp add: comp_def)
  have "membership_hash_input xs = membership_hash_input ys"
    if "map (\<lambda>w. (node_id w, address w)) xs = map (\<lambda>w. (node_id w, address w)) ys"
    unfolding membership_hash_input_def f [of xs] f [of ys] using that by (simp only:)
  moreover have "map (\<lambda>w. (node_id w, address w)) xs = map (\<lambda>w. (node_id w, address w)) ys"
    if "membership_hash_input xs = membership_hash_input ys"
    using membership_fields_inject [OF assms(3)] that by (simp add: membership_hash_input_def)
  ultimately show ?thesis using block_hash_input_inject [OF assms(1,2)] by blast
qed

theorem hash_inputs_injective_witness:
  "membership_hash_input [\<lparr>node_id = ''ab'', address = ''c'', role = Worker\<rparr>] \<noteq>
   membership_hash_input [\<lparr>node_id = ''a'', address = ''bc'', role = Worker\<rparr>]"
  using hash_inputs_injective
    [of "\<lparr>blk_object = \<lparr>obj_backend = S3, obj_bucket = ''b'', object_path = ''k''\<rparr>, blk_offset = 0, blk_size = 4096, blk_version = ''v''\<rparr>"
        "\<lparr>blk_object = \<lparr>obj_backend = S3, obj_bucket = ''b'', object_path = ''k''\<rparr>, blk_offset = 0, blk_size = 4096, blk_version = ''v''\<rparr>"
        "[\<lparr>node_id = ''ab'', address = ''c'', role = Worker\<rparr>]" "[\<lparr>node_id = ''a'', address = ''bc'', role = Worker\<rparr>]"]
  by (simp add: field_lengths_ok_def)

end
