(* ===== verification/Meta_Record.thy ===== *)
theory Meta_Record
  imports Core_Key
begin

text \<open>
  The vocabulary of the metadata store (\<open>crates/talon-metadata/src\<close>): capabilities
  (\<open>capability.rs\<close>), errors (\<open>error.rs\<close>), revisions (\<open>revision.rs\<close>), records (\<open>record.rs\<close>), the
  mapping fence (\<open>fence.rs\<close>) and the worker's mapping guard
  (\<open>crates/talon-worker/src/mapping_guard.rs\<close>). Newtypes over \<open>u64\<close> are words; the smart constructors that
  validate them are functions into an error sum, and a panic is \<open>None\<close>.
\<close>

subsection \<open>Capabilities\<close>

datatype capability = Locks | HardLinks | WriteBack

definition ALL_CAPABILITIES :: "capability list" where
  "ALL_CAPABILITIES = [Locks, HardLinks, WriteBack]"

definition capability_str :: "capability \<Rightarrow> string" where
  "capability_str c = (case c of Locks \<Rightarrow> ''locks'' | HardLinks \<Rightarrow> ''hard_links'' | WriteBack \<Rightarrow> ''write_back'')"

type_synonym capability_set = u8

definition capability_bit :: "capability \<Rightarrow> u8" where
  "capability_bit c = (case c of Locks \<Rightarrow> push_bit 0 1 | HardLinks \<Rightarrow> push_bit 1 1 | WriteBack \<Rightarrow> push_bit 2 1)"

definition caps_none :: capability_set where "caps_none = 0"

definition caps_with :: "capability_set \<Rightarrow> capability \<Rightarrow> capability_set" where
  "caps_with s c = s OR capability_bit c"

definition supports :: "capability_set \<Rightarrow> capability \<Rightarrow> bool" where
  "supports s c \<longleftrightarrow> s AND capability_bit c \<noteq> 0"

definition caps_is_empty :: "capability_set \<Rightarrow> bool" where
  "caps_is_empty s \<longleftrightarrow> s = 0"

definition caps_iter :: "capability_set \<Rightarrow> capability list" where
  "caps_iter s = filter (supports s) ALL_CAPABILITIES"

definition caps_from_iter :: "capability list \<Rightarrow> capability_set" where
  "caps_from_iter cs = foldl caps_with caps_none cs"

definition caps_display :: "capability_set \<Rightarrow> string" where
  "caps_display s = (if caps_is_empty s then ''none'' else join_with (CHR '','') (map capability_str (caps_iter s)))"

subsection \<open>Errors\<close>

datatype metadata_backend = Memory | Etcd

type_synonym store_revision = string

datatype metadata_error =
    CapabilityUnsupported metadata_backend capability
  | CompareAndSwapFailed store_revision store_revision
  | RecordNotFound string
  | AlreadyExists string
  | InvalidRecord string
  | InvalidRevision "metadata_backend option" string string
  | InvalidLeaseTtl nat
  | SessionExpired string
  | Compacted store_revision store_revision
  | WatchLagged store_revision u64
  | Authentication metadata_backend
  | PermissionDenied metadata_backend
  | Timeout metadata_backend
  | Unavailable metadata_backend string

definition is_retryable :: "metadata_error \<Rightarrow> bool" where
  "is_retryable e = (case e of Compacted _ _ \<Rightarrow> True | WatchLagged _ _ \<Rightarrow> True | Timeout _ \<Rightarrow> True
     | Unavailable _ _ \<Rightarrow> True | _ \<Rightarrow> False)"

definition is_capability_gap :: "metadata_error \<Rightarrow> bool" where
  "is_capability_gap e = (case e of CapabilityUnsupported _ _ \<Rightarrow> True | _ \<Rightarrow> False)"

subsection \<open>Revisions\<close>

definition store_revision_new :: "string \<Rightarrow> metadata_error + store_revision" where
  "store_revision_new v =
     (if v = [] then Inl (InvalidRevision None v ''revision must not be empty'') else Inr v)"

type_synonym mapping_revision = u64

definition INITIAL :: mapping_revision where "INITIAL = 0"

definition revision_next :: "mapping_revision \<Rightarrow> mapping_revision option" where
  "revision_next r = checked_add r 1"

subsection \<open>Records\<close>

type_synonym namespace_key = string
type_synonym inode_number = u64
type_synonym link_count = u64

definition namespace_new :: "string \<Rightarrow> metadata_error + namespace_key" where
  "namespace_new v = (if v = [] then Inl (InvalidRecord ''namespace id must not be empty'') else Inr v)"

definition inode_new :: "u64 \<Rightarrow> metadata_error + inode_number" where
  "inode_new v = (if v = 0 then Inl (InvalidRecord ''inode number must be non-zero'') else Inr v)"

definition PROMOTED :: link_count where "PROMOTED = 2"

definition link_count_new :: "u64 \<Rightarrow> metadata_error + link_count" where
  "link_count_new v =
     (if v < 2
      then Inl (InvalidRecord (''link count '' @ decimal (unat v) @
        '' does not belong in TMS: a file with fewer than two links occupies zero records (ADR 0003 ''
        @ [CHR 0xC2, CHR 0xA7] @ ''3)''))
      else Inr v)"

definition link_increment :: "link_count \<Rightarrow> link_count option" where
  "link_increment c = checked_add c 1"

definition link_decrement :: "link_count \<Rightarrow> link_count option" where
  "link_decrement c = (if c - 1 \<ge> 2 then Some (c - 1) else None)"

record inode_record =
  ir_namespace :: namespace_key
  ir_inode :: inode_number
  ir_link_count :: link_count
  ir_corrupt :: bool

record path_index_entry =
  pi_namespace :: namespace_key
  pi_path :: string
  pi_inode :: inode_number

datatype link_transition_state = Preparing | Committed | Aborted

definition original_is_authoritative :: "link_transition_state \<Rightarrow> bool" where
  "original_is_authoritative s \<longleftrightarrow> s = Preparing \<or> s = Aborted"

record link_transition =
  lt_namespace :: namespace_key
  lt_operation_id :: string
  lt_state :: link_transition_state
  lt_source_path :: string
  lt_new_path :: string
  lt_source_version :: string
  lt_expected_mapping_revision :: mapping_revision
  lt_inode :: inode_number
  lt_operation_worker :: string
  lt_operation_worker_incarnation :: string

subsection \<open>The mapping fence\<close>

datatype fence_decision = Proceed | ClientStale | WorkerStale

definition is_proceed :: "fence_decision \<Rightarrow> bool" where
  "is_proceed d \<longleftrightarrow> d = Proceed"

definition fence_check :: "mapping_revision \<Rightarrow> mapping_revision \<Rightarrow> fence_decision" where
  "fence_check request local_rev =
     (if request = local_rev then Proceed else if request < local_rev then ClientStale else WorkerStale)"

subsection \<open>The worker's mapping guard\<close>

text \<open>An \<open>Instant\<close> is a number of nanoseconds; \<open>elapsed\<close> saturates at zero.\<close>

datatype guard_refusal = GuardClientStale | GuardWorkerStale | GuardExpired

record observed =
  ob_revision :: mapping_revision
  ob_at :: nat

record mapping_guard =
  mg_namespaces :: "string \<rightharpoonup> observed"
  mg_freshness :: nat

definition guard_new :: "nat \<Rightarrow> mapping_guard" where
  "guard_new freshness = \<lparr>mg_namespaces = Map.empty, mg_freshness = freshness\<rparr>"

definition elapsed :: "nat \<Rightarrow> observed \<Rightarrow> nat" where
  "elapsed now e = now - ob_at e"

definition observe :: "mapping_guard \<Rightarrow> nat \<Rightarrow> string \<Rightarrow> mapping_revision \<Rightarrow> mapping_guard" where
  "observe g now ns revision =
     g\<lparr>mg_namespaces := (mg_namespaces g)(ns \<mapsto>
        (case mg_namespaces g ns of
           Some e \<Rightarrow> if revision \<ge> ob_revision e then \<lparr>ob_revision = revision, ob_at = now\<rparr> else e
         | None \<Rightarrow> \<lparr>ob_revision = revision, ob_at = now\<rparr>))\<rparr>"

definition guard_current :: "mapping_guard \<Rightarrow> nat \<Rightarrow> string \<Rightarrow> mapping_revision option" where
  "guard_current g now ns =
     (case mg_namespaces g ns of
        Some e \<Rightarrow> if elapsed now e \<le> mg_freshness g then Some (ob_revision e) else None
      | None \<Rightarrow> None)"

definition held :: "mapping_guard \<Rightarrow> string \<Rightarrow> mapping_revision option" where
  "held g ns = map_option ob_revision (mg_namespaces g ns)"

definition is_current :: "mapping_guard \<Rightarrow> nat \<Rightarrow> string \<Rightarrow> bool" where
  "is_current g now ns \<longleftrightarrow> guard_current g now ns \<noteq> None"

definition guard_validate :: "mapping_guard \<Rightarrow> nat \<Rightarrow> string \<Rightarrow> mapping_revision \<Rightarrow> guard_refusal + unit" where
  "guard_validate g now ns request =
     (case mg_namespaces g ns of
        Some e \<Rightarrow>
          if elapsed now e > mg_freshness g then Inl GuardExpired
          else (case fence_check request (ob_revision e) of
                  Proceed \<Rightarrow> Inr () | ClientStale \<Rightarrow> Inl GuardClientStale | WorkerStale \<Rightarrow> Inl GuardWorkerStale)
      | None \<Rightarrow>
          (case fence_check request INITIAL of
             Proceed \<Rightarrow> Inr () | ClientStale \<Rightarrow> Inl GuardClientStale | WorkerStale \<Rightarrow> Inl GuardWorkerStale))"

subsection \<open>Lemmas\<close>

lemma supports_bit:
  "supports s c \<longleftrightarrow> bit s (case c of Locks \<Rightarrow> 0 | HardLinks \<Rightarrow> 1 | WriteBack \<Rightarrow> 2)"
  unfolding supports_def capability_bit_def bit_iff_and_push_bit_not_eq_0 by (cases c) (simp_all only: capability.case)

lemma supports_with [simp]: "supports (caps_with s c) d \<longleftrightarrow> c = d \<or> supports s d"
  by (cases c; cases d) (auto simp: supports_bit caps_with_def capability_bit_def bit_simps)

lemma caps_from_iter_bits:
  "bit (caps_from_iter cs) n \<longleftrightarrow> (\<exists>c \<in> set cs. n = (case c of Locks \<Rightarrow> 0 | HardLinks \<Rightarrow> 1 | WriteBack \<Rightarrow> 2))"
proof -
  have "bit (capability_bit c) n \<longleftrightarrow> n = (case c of Locks \<Rightarrow> 0 | HardLinks \<Rightarrow> 1 | WriteBack \<Rightarrow> 2)" for c
    unfolding capability_bit_def
    by (cases c; simp only: capability.case bit_push_bit_iff; auto simp: bit_1_iff)
  then have "bit (foldl caps_with s cs) n \<longleftrightarrow>
      bit s n \<or> (\<exists>c \<in> set cs. n = (case c of Locks \<Rightarrow> 0 | HardLinks \<Rightarrow> 1 | WriteBack \<Rightarrow> 2))" for s
    by (induction cs arbitrary: s) (auto simp: caps_with_def bit_simps)
  then show ?thesis by (simp add: caps_from_iter_def caps_none_def)
qed

lemma caps_from_iter_cong: "set xs = set ys \<Longrightarrow> caps_from_iter xs = caps_from_iter ys"
  by (rule bit_eqI) (simp add: caps_from_iter_bits)

lemma supports_none [simp]: "\<not> supports caps_none c"
  by (simp add: supports_def caps_none_def)

lemma caps_from_iter_supports: "supports (caps_from_iter cs) c \<longleftrightarrow> c \<in> set cs"
proof -
  have "supports (foldl caps_with s cs) c \<longleftrightarrow> c \<in> set cs \<or> supports s c" for s
    by (induction cs arbitrary: s) auto
  then show ?thesis by (simp add: caps_from_iter_def)
qed

lemma fence_check_Proceed [simp]: "fence_check r l = Proceed \<longleftrightarrow> r = l"
  by (simp add: fence_check_def)

lemma link_decrement_some:
  assumes "2 \<le> c"
  shows "link_decrement c = (if c = 2 then None else Some (c - 1))"
proof -
  have "unat (c - 1) = unat c - 1" using assms unat_sub_exact [of 1 c] by (simp add: word_le_nat_alt)
  moreover have "2 \<le> unat c" using assms by (simp add: word_le_nat_alt)
  moreover have "c = 2 \<longleftrightarrow> unat c = 2" by (simp add: word_unat_eq_iff)
  ultimately show ?thesis by (auto simp: link_decrement_def word_le_nat_alt)
qed

text \<open>The guard never moves backwards: whatever the order of observations, it holds the largest.\<close>

primrec observe_all :: "mapping_guard \<Rightarrow> (nat \<times> string \<times> mapping_revision) list \<Rightarrow> mapping_guard" where
  "observe_all g [] = g"
| "observe_all g (ev # evs) = (case ev of (now, ns, r) \<Rightarrow> observe_all (observe g now ns r) evs)"

definition revisions_of :: "string \<Rightarrow> (nat \<times> string \<times> mapping_revision) list \<Rightarrow> mapping_revision list" where
  "revisions_of ns evs = map (\<lambda>(_, _, r). r) (filter (\<lambda>(_, n, _). n = ns) evs)"

lemma held_observe:
  "held (observe g now ns r) n =
     (if n = ns then Some (case held g ns of None \<Rightarrow> r | Some h \<Rightarrow> max h r) else held g n)"
  by (auto simp: held_def observe_def max_def split: option.splits)

lemma observe_freshness [simp]: "mg_freshness (observe g now ns r) = mg_freshness g"
  by (simp add: observe_def)

lemma revisions_of_Cons [simp]:
  "revisions_of ns ((now, n, r) # evs) = (if n = ns then r # revisions_of ns evs else revisions_of ns evs)"
  by (simp add: revisions_of_def)

lemma Max_insert_max: "finite A \<Longrightarrow> Max (insert (max h r) A) = Max (insert h (insert r A))"
  by (cases "A = {}") (simp_all add: max.assoc)

lemma held_observe_all:
  "held (observe_all g evs) ns =
     (case held g ns of
        None \<Rightarrow> (if revisions_of ns evs = [] then None else Some (Max (set (revisions_of ns evs))))
      | Some h \<Rightarrow> Some (Max (insert h (set (revisions_of ns evs)))))"
proof (induction evs arbitrary: g)
  case Nil
  then show ?case by (simp add: revisions_of_def split: option.splits)
next
  case (Cons ev evs)
  obtain now n r where ev: "ev = (now, n, r)" by (cases ev)
  show ?case
    unfolding ev observe_all.simps prod.case Cons.IH held_observe
    by (cases "n = ns"; cases "held g ns") (simp_all add: Max_insert_max del: Max_insert)
qed

lemma guard_validate_ok:
  "guard_validate g now ns request = Inr () \<longleftrightarrow>
     (case mg_namespaces g ns of None \<Rightarrow> request = INITIAL
      | Some e \<Rightarrow> request = ob_revision e \<and> elapsed now e \<le> mg_freshness g)"
  by (auto simp: guard_validate_def fence_check_def split: option.splits)

lemma guard_validate_held:
  assumes "guard_validate g now ns request = Inr ()"
  shows "request = (case held g ns of None \<Rightarrow> INITIAL | Some h \<Rightarrow> h)"
  using assms by (auto simp: guard_validate_ok held_def split: option.splits)

lemma guard_refuses_older:
  assumes "r \<in> set (revisions_of ns evs)" "request < r"
  shows "guard_validate (observe_all (guard_new freshness) evs) now ns request \<noteq> Inr ()"
proof
  assume "guard_validate (observe_all (guard_new freshness) evs) now ns request = Inr ()"
  note h = guard_validate_held [OF this]
  have "revisions_of ns evs \<noteq> []" using assms(1) by auto
  then have "held (observe_all (guard_new freshness) evs) ns = Some (Max (set (revisions_of ns evs)))"
    unfolding held_observe_all by (simp add: held_def guard_new_def)
  with h have "request = Max (set (revisions_of ns evs))" by simp
  then show False using assms by (simp add: leD)
qed

subsection \<open>Properties\<close>

text \<open>
  C32. The bitmask of capabilities is a set: collecting capabilities supports exactly the collected
  ones, iterating lists each advertised capability once in declaration order, and the empty mask is the
  only one that advertises nothing among the masks built from capabilities.
\<close>

theorem capability_set_is_set:
  "(\<forall>c. supports (caps_from_iter cs) c = (c \<in> set cs)) \<and>
   caps_iter (caps_from_iter cs) = filter (\<lambda>c. c \<in> set cs) ALL_CAPABILITIES \<and>
   caps_from_iter (caps_iter (caps_from_iter cs)) = caps_from_iter cs \<and>
   (caps_is_empty (caps_from_iter cs) \<longleftrightarrow> cs = [])"
proof -
  have iter: "caps_iter (caps_from_iter cs) = filter (\<lambda>c. c \<in> set cs) ALL_CAPABILITIES"
    unfolding caps_iter_def by (rule filter_cong) (simp_all add: caps_from_iter_supports)
  have "c \<in> set ALL_CAPABILITIES" for c by (cases c) (simp_all add: ALL_CAPABILITIES_def)
  then have "set (caps_iter (caps_from_iter cs)) = set cs" by (auto simp: iter)
  then have "caps_from_iter (caps_iter (caps_from_iter cs)) = caps_from_iter cs" by (rule caps_from_iter_cong)
  moreover have "caps_is_empty (caps_from_iter cs) \<longleftrightarrow> cs = []"
  proof
    assume "caps_is_empty (caps_from_iter cs)"
    then have "\<not> supports (caps_from_iter cs) c" for c by (simp add: caps_is_empty_def supports_def)
    then show "cs = []" by (simp add: caps_from_iter_supports) (metis list.set_intros(1) neq_Nil_conv)
  qed (simp add: caps_is_empty_def caps_from_iter_def caps_none_def)
  ultimately show ?thesis using iter caps_from_iter_supports by blast
qed

text \<open>
  C15. The mapping guard fences monotonically: after any sequence of observations, late or reordered
  ones included, it holds the largest revision observed for the namespace, and at any time it admits a
  request only if the request carries exactly that revision (the initial one when nothing was
  observed). So a request older than some observed revision is never admitted again.
\<close>

theorem guard_admits_only_newest:
  "held (observe_all (guard_new freshness) evs) ns =
     (if revisions_of ns evs = [] then None else Some (Max (set (revisions_of ns evs)))) \<and>
   (guard_validate (observe_all (guard_new freshness) evs) now ns request = Inr () \<longrightarrow>
     request = (if revisions_of ns evs = [] then INITIAL else Max (set (revisions_of ns evs)))) \<and>
   (r \<in> set (revisions_of ns evs) \<and> request < r \<longrightarrow>
     guard_validate (observe_all (guard_new freshness) evs) now ns request \<noteq> Inr ())"
proof -
  let ?g = "observe_all (guard_new freshness) evs"
  have held: "held ?g ns = (if revisions_of ns evs = [] then None else Some (Max (set (revisions_of ns evs))))"
    unfolding held_observe_all by (simp add: held_def guard_new_def)
  have ok: "request = (if revisions_of ns evs = [] then INITIAL else Max (set (revisions_of ns evs)))"
    if "guard_validate ?g now ns request = Inr ()"
    using guard_validate_held [OF that] held by auto
  show ?thesis using held ok guard_refuses_older by blast
qed

theorem guard_admits_only_newest_witness:
  "guard_validate (observe_all (guard_new 5) [(1, ''n'', 3), (2, ''n'', 2)]) 4 ''n'' 2 = Inl GuardClientStale \<and>
   guard_validate (observe_all (guard_new 5) [(1, ''n'', 3), (2, ''n'', 2)]) 4 ''n'' 3 = Inr () \<and>
   guard_validate (observe_all (guard_new 5) [(1, ''n'', 3), (2, ''n'', 2)]) 4 ''n'' 2 \<noteq> Inr ()"
  using guard_admits_only_newest [of 5 "[(1, ''n'', 3), (2, ''n'', 2)]" "''n''" 4 2 3]
  by (auto simp: guard_validate_def observe_def guard_new_def elapsed_def fence_check_def)

end
