(* ===== verification/Meta_Store.thy ===== *)
theory Meta_Store
  imports Meta_Record
begin

text \<open>
  Atomic transactions (\<open>crates/talon-metadata/src/transaction.rs\<close>) and the in-process store
  (\<open>memory.rs\<close>). The maps of the store are partial functions; a panic (overflow of a mapping
  revision, which also poisons the mutex) is \<open>None\<close>. The locale \<open>metadata_store\<close> is the contract of the
  trait \<open>MetadataStore\<close> of \<open>lib.rs\<close> that the hard-link protocol relies on, stated over the logical view of
  the namespaces; the memory store is shown to satisfy it.
\<close>

subsection \<open>Transactions\<close>

datatype precondition =
    MappingRevisionIs namespace_key mapping_revision
  | PathIsUnmapped namespace_key string
  | PathResolvesTo namespace_key string inode_number
  | TransitionExists namespace_key string
  | TransitionAbsent namespace_key string

datatype operation =
    PutPathIndex path_index_entry
  | RemovePathIndex namespace_key string
  | PutInode inode_record
  | RemoveInode namespace_key inode_number
  | PutTransition link_transition
  | RemoveTransition namespace_key string
  | AdvanceMappingRevision namespace_key

record transaction =
  tx_preconditions :: "precondition list"
  tx_operations :: "operation list"

definition tx_new :: transaction where
  "tx_new = \<lparr>tx_preconditions = [], tx_operations = []\<rparr>"

definition tx_when :: "transaction \<Rightarrow> precondition \<Rightarrow> transaction" where
  "tx_when tx p = tx\<lparr>tx_preconditions := tx_preconditions tx @ [p]\<rparr>"

definition tx_then :: "transaction \<Rightarrow> operation \<Rightarrow> transaction" where
  "tx_then tx op = tx\<lparr>tx_operations := tx_operations tx @ [op]\<rparr>"

definition tx_is_empty :: "transaction \<Rightarrow> bool" where
  "tx_is_empty tx \<longleftrightarrow> tx_operations tx = []"

record transaction_outcome =
  to_revision :: store_revision
  to_mapping_revision :: "mapping_revision option"

subsection \<open>The memory store\<close>

record namespace_state =
  ns_mapping_revision :: mapping_revision
  ns_paths :: "string \<rightharpoonup> inode_number"
  ns_inodes :: "u64 \<rightharpoonup> inode_record"
  ns_transitions :: "string \<rightharpoonup> link_transition"

definition ns_default :: namespace_state where
  "ns_default = \<lparr>ns_mapping_revision = INITIAL, ns_paths = Map.empty, ns_inodes = Map.empty, ns_transitions = Map.empty\<rparr>"

record store_state =
  ss_namespaces :: "string \<rightharpoonup> namespace_state"
  ss_revision :: u64

record memory_store =
  ms_state :: store_state
  ms_capabilities :: capability_set

definition memory_new :: memory_store where
  "memory_new = \<lparr>ms_state = \<lparr>ss_namespaces = Map.empty, ss_revision = 0\<rparr>, ms_capabilities = caps_with caps_none HardLinks\<rparr>"

definition without_capabilities :: memory_store where
  "without_capabilities = \<lparr>ms_state = \<lparr>ss_namespaces = Map.empty, ss_revision = 0\<rparr>, ms_capabilities = caps_none\<rparr>"

definition require_capability :: "memory_store \<Rightarrow> capability \<Rightarrow> metadata_error + unit" where
  "require_capability m c =
     (if supports (ms_capabilities m) c then Inr () else Inl (CapabilityUnsupported Memory c))"

definition check_precondition :: "store_state \<Rightarrow> precondition \<Rightarrow> metadata_error + unit" where
  "check_precondition st p = (case p of
      MappingRevisionIs ns expected \<Rightarrow>
        (let actual = (case ss_namespaces st ns of None \<Rightarrow> INITIAL | Some n \<Rightarrow> ns_mapping_revision n) in
         if actual \<noteq> expected then
           (case store_revision_new (decimal (unat expected)) of Inl e \<Rightarrow> Inl e
            | Inr x \<Rightarrow> (case store_revision_new (decimal (unat actual)) of Inl e \<Rightarrow> Inl e
                | Inr y \<Rightarrow> Inl (CompareAndSwapFailed x y)))
         else Inr ())
    | PathIsUnmapped ns path \<Rightarrow>
        if (case ss_namespaces st ns of None \<Rightarrow> False | Some n \<Rightarrow> ns_paths n path \<noteq> None)
        then Inl (InvalidRecord (''path '' @ path @ '' is already mapped to an inode''))
        else Inr ()
    | PathResolvesTo ns path inode \<Rightarrow>
        if (case ss_namespaces st ns of None \<Rightarrow> None | Some n \<Rightarrow> ns_paths n path) \<noteq> Some inode
        then Inl (InvalidRecord (''path '' @ path @ '' does not resolve to inode '' @ decimal (unat inode)))
        else Inr ()
    | TransitionExists ns op_id \<Rightarrow>
        if \<not> (case ss_namespaces st ns of None \<Rightarrow> False | Some n \<Rightarrow> ns_transitions n op_id \<noteq> None)
        then Inl (RecordNotFound (''transition/'' @ op_id))
        else Inr ()
    | TransitionAbsent ns op_id \<Rightarrow>
        if (case ss_namespaces st ns of None \<Rightarrow> False | Some n \<Rightarrow> ns_transitions n op_id \<noteq> None)
        then Inl (AlreadyExists (''transition/'' @ op_id))
        else Inr ())"

primrec check_all :: "store_state \<Rightarrow> precondition list \<Rightarrow> metadata_error + unit" where
  "check_all st [] = Inr ()"
| "check_all st (p # ps) = (case check_precondition st p of Inl e \<Rightarrow> Inl e | Inr _ \<Rightarrow> check_all st ps)"

text \<open>\<open>entry(ns).or_default()\<close> followed by an update, and \<open>get_mut(ns)\<close> followed by an update.\<close>

definition entry_update :: "store_state \<Rightarrow> string \<Rightarrow> (namespace_state \<Rightarrow> namespace_state) \<Rightarrow> store_state" where
  "entry_update st ns f =
     st\<lparr>ss_namespaces := (ss_namespaces st)(ns \<mapsto> f (case ss_namespaces st ns of None \<Rightarrow> ns_default | Some n \<Rightarrow> n))\<rparr>"

definition get_mut_update :: "store_state \<Rightarrow> string \<Rightarrow> (namespace_state \<Rightarrow> namespace_state) \<Rightarrow> store_state" where
  "get_mut_update st ns f =
     (case ss_namespaces st ns of None \<Rightarrow> st | Some n \<Rightarrow> st\<lparr>ss_namespaces := (ss_namespaces st)(ns \<mapsto> f n)\<rparr>)"

definition apply_operation :: "store_state \<Rightarrow> operation \<Rightarrow> (store_state \<times> mapping_revision option) option" where
  "apply_operation st op = (case op of
      PutPathIndex e \<Rightarrow>
        Some (entry_update st (pi_namespace e) (\<lambda>n. n\<lparr>ns_paths := (ns_paths n)(pi_path e \<mapsto> pi_inode e)\<rparr>), None)
    | RemovePathIndex ns path \<Rightarrow>
        Some (get_mut_update st ns (\<lambda>n. n\<lparr>ns_paths := (ns_paths n)(path := None)\<rparr>), None)
    | PutInode r \<Rightarrow>
        Some (entry_update st (ir_namespace r) (\<lambda>n. n\<lparr>ns_inodes := (ns_inodes n)(ir_inode r \<mapsto> r)\<rparr>), None)
    | RemoveInode ns inode \<Rightarrow>
        Some (get_mut_update st ns (\<lambda>n. n\<lparr>ns_inodes := (ns_inodes n)(inode := None)\<rparr>), None)
    | PutTransition t \<Rightarrow>
        Some (entry_update st (lt_namespace t) (\<lambda>n. n\<lparr>ns_transitions := (ns_transitions n)(lt_operation_id t \<mapsto> t)\<rparr>), None)
    | RemoveTransition ns op_id \<Rightarrow>
        Some (get_mut_update st ns (\<lambda>n. n\<lparr>ns_transitions := (ns_transitions n)(op_id := None)\<rparr>), None)
    | AdvanceMappingRevision ns \<Rightarrow>
        (case revision_next (ns_mapping_revision (case ss_namespaces st ns of None \<Rightarrow> ns_default | Some n \<Rightarrow> n)) of
           None \<Rightarrow> None
         | Some r \<Rightarrow> Some (entry_update st ns (\<lambda>n. n\<lparr>ns_mapping_revision := r\<rparr>), Some r)))"

primrec apply_all ::
  "store_state \<Rightarrow> mapping_revision option \<Rightarrow> operation list \<Rightarrow> (store_state \<times> mapping_revision option) option" where
  "apply_all st acc [] = Some (st, acc)"
| "apply_all st acc (op # ops) =
     (case apply_operation st op of None \<Rightarrow> None
      | Some (st', r) \<Rightarrow> apply_all st' (case r of Some _ \<Rightarrow> r | None \<Rightarrow> acc) ops)"

definition commit_locked ::
  "memory_store \<Rightarrow> transaction \<Rightarrow> (memory_store \<times> (metadata_error + transaction_outcome)) option" where
  "commit_locked m tx =
     (case require_capability m HardLinks of Inl e \<Rightarrow> Some (m, Inl e)
      | Inr _ \<Rightarrow>
        (case check_all (ms_state m) (tx_preconditions tx) of Inl e \<Rightarrow> Some (m, Inl e)
         | Inr _ \<Rightarrow>
           (case apply_all (ms_state m) None (tx_operations tx) of None \<Rightarrow> None
            | Some (st, mapping_rev) \<Rightarrow>
                let st' = st\<lparr>ss_revision := ss_revision st + 1\<rparr>;
                    m' = m\<lparr>ms_state := st'\<rparr>
                in Some (m', case store_revision_new (decimal (unat (ss_revision st'))) of Inl e \<Rightarrow> Inl e
                     | Inr rv \<Rightarrow> Inr \<lparr>to_revision = rv, to_mapping_revision = mapping_rev\<rparr>))))"

definition state_snapshot :: "memory_store \<Rightarrow> string \<Rightarrow> namespace_state" where
  "state_snapshot m ns = (case ss_namespaces (ms_state m) ns of None \<Rightarrow> ns_default | Some n \<Rightarrow> n)"

definition load_transition :: "memory_store \<Rightarrow> string \<Rightarrow> string \<Rightarrow> metadata_error + link_transition option" where
  "load_transition m ns op_id =
     (case require_capability m HardLinks of Inl e \<Rightarrow> Inl e
      | Inr _ \<Rightarrow> Inr (case ss_namespaces (ms_state m) ns of None \<Rightarrow> None | Some n \<Rightarrow> ns_transitions n op_id))"

definition store_mapping_revision :: "memory_store \<Rightarrow> string \<Rightarrow> metadata_error + mapping_revision" where
  "store_mapping_revision m ns =
     (case require_capability m HardLinks of Inl e \<Rightarrow> Inl e
      | Inr _ \<Rightarrow> Inr (case ss_namespaces (ms_state m) ns of None \<Rightarrow> INITIAL | Some n \<Rightarrow> ns_mapping_revision n))"

definition resolve_path :: "memory_store \<Rightarrow> string \<Rightarrow> string \<Rightarrow> metadata_error + path_index_entry option" where
  "resolve_path m ns path =
     (case require_capability m HardLinks of Inl e \<Rightarrow> Inl e
      | Inr _ \<Rightarrow> Inr (map_option (\<lambda>inode. \<lparr>pi_namespace = ns, pi_path = path, pi_inode = inode\<rparr>)
          (case ss_namespaces (ms_state m) ns of None \<Rightarrow> None | Some n \<Rightarrow> ns_paths n path)))"

definition load_inode :: "memory_store \<Rightarrow> string \<Rightarrow> inode_number \<Rightarrow> metadata_error + inode_record" where
  "load_inode m ns inode =
     (case require_capability m HardLinks of Inl e \<Rightarrow> Inl e
      | Inr _ \<Rightarrow> (case (case ss_namespaces (ms_state m) ns of None \<Rightarrow> None | Some n \<Rightarrow> ns_inodes n inode) of
          None \<Rightarrow> Inl (RecordNotFound (''inode/'' @ decimal (unat inode)))
        | Some r \<Rightarrow> Inr r))"

subsection \<open>The contract of the store\<close>

text \<open>
  Transactions over the logical view, in which every namespace has a state (the default one when no
  record exists): when a precondition holds, and what an operation does. \<open>None\<close> is the overflow of a
  mapping revision.
\<close>

type_synonym view = "string \<Rightarrow> namespace_state"

definition holds :: "view \<Rightarrow> precondition \<Rightarrow> bool" where
  "holds v p = (case p of
      MappingRevisionIs ns r \<Rightarrow> ns_mapping_revision (v ns) = r
    | PathIsUnmapped ns path \<Rightarrow> ns_paths (v ns) path = None
    | PathResolvesTo ns path inode \<Rightarrow> ns_paths (v ns) path = Some inode
    | TransitionExists ns op_id \<Rightarrow> ns_transitions (v ns) op_id \<noteq> None
    | TransitionAbsent ns op_id \<Rightarrow> ns_transitions (v ns) op_id = None)"

definition op_view :: "view \<Rightarrow> operation \<Rightarrow> view option" where
  "op_view v op = (case op of
      PutPathIndex e \<Rightarrow>
        Some (v(pi_namespace e := (v (pi_namespace e))\<lparr>ns_paths := (ns_paths (v (pi_namespace e)))(pi_path e \<mapsto> pi_inode e)\<rparr>))
    | RemovePathIndex ns path \<Rightarrow> Some (v(ns := (v ns)\<lparr>ns_paths := (ns_paths (v ns))(path := None)\<rparr>))
    | PutInode r \<Rightarrow>
        Some (v(ir_namespace r := (v (ir_namespace r))\<lparr>ns_inodes := (ns_inodes (v (ir_namespace r)))(ir_inode r \<mapsto> r)\<rparr>))
    | RemoveInode ns inode \<Rightarrow> Some (v(ns := (v ns)\<lparr>ns_inodes := (ns_inodes (v ns))(inode := None)\<rparr>))
    | PutTransition t \<Rightarrow>
        Some (v(lt_namespace t :=
          (v (lt_namespace t))\<lparr>ns_transitions := (ns_transitions (v (lt_namespace t)))(lt_operation_id t \<mapsto> t)\<rparr>))
    | RemoveTransition ns op_id \<Rightarrow> Some (v(ns := (v ns)\<lparr>ns_transitions := (ns_transitions (v ns))(op_id := None)\<rparr>))
    | AdvanceMappingRevision ns \<Rightarrow>
        map_option (\<lambda>r. v(ns := (v ns)\<lparr>ns_mapping_revision := r\<rparr>)) (revision_next (ns_mapping_revision (v ns))))"

primrec ops_view :: "view \<Rightarrow> operation list \<Rightarrow> view option" where
  "ops_view v [] = Some v"
| "ops_view v (op # ops) = (case op_view v op of None \<Rightarrow> None | Some v' \<Rightarrow> ops_view v' ops)"

locale metadata_store =
  fixes serves :: "'s \<Rightarrow> bool" and view_of :: "'s \<Rightarrow> view"
    and commit :: "'s \<Rightarrow> transaction \<Rightarrow> ('s \<times> (metadata_error + transaction_outcome)) option"
  assumes refused: "\<not> serves s \<Longrightarrow> \<exists>e. commit s tx = Some (s, Inl e) \<and> is_capability_gap e"
    and failed: "commit s tx = Some (s', Inl e) \<Longrightarrow> s' = s"
    and committed: "commit s tx = Some (s', Inr out) \<Longrightarrow>
      serves s' \<and> list_all (holds (view_of s)) (tx_preconditions tx) \<and>
      ops_view (view_of s) (tx_operations tx) = Some (view_of s')"
    and live: "serves s \<Longrightarrow> list_all (holds (view_of s)) (tx_preconditions tx) \<Longrightarrow>
      ops_view (view_of s) (tx_operations tx) = Some v \<Longrightarrow> \<exists>s' out. commit s tx = Some (s', Inr out)"
    and overflow: "commit s tx = None \<Longrightarrow> ops_view (view_of s) (tx_operations tx) = None"
begin

lemma commit_iff:
  assumes "serves s" "ops_view (view_of s) (tx_operations tx) = Some v"
  shows "\<exists>s' r. commit s tx = Some (s', r) \<and>
    (if list_all (holds (view_of s)) (tx_preconditions tx) then view_of s' = v \<and> (\<exists>out. r = Inr out)
     else s' = s \<and> (\<exists>e. r = Inl e))"
proof (cases "list_all (holds (view_of s)) (tx_preconditions tx)")
  case True
  then show ?thesis using live [OF assms(1) True assms(2)] committed assms(2) by fastforce
next
  case False
  have "commit s tx \<noteq> None" using overflow assms(2) by force
  then obtain s' r where "commit s tx = Some (s', r)" by auto
  then show ?thesis using False failed committed by (cases r) fastforce+
qed

lemma committed_revision:
  assumes "commit s tx = Some (s', Inr out)" "tx_preconditions tx = MappingRevisionIs ns r # ps"
  shows "ns_mapping_revision (view_of s ns) = r"
  using committed [OF assms(1)] assms(2) by (simp add: holds_def)

end

subsection \<open>The memory store meets the contract\<close>

lemma store_revision_new_decimal [simp]: "store_revision_new (decimal n) = Inr (decimal n)"
  by (simp add: store_revision_new_def)

definition st_view :: "store_state \<Rightarrow> view" where
  "st_view st ns = (case ss_namespaces st ns of None \<Rightarrow> ns_default | Some n \<Rightarrow> n)"

lemma state_snapshot_view: "state_snapshot m = st_view (ms_state m)"
  by (simp add: fun_eq_iff state_snapshot_def st_view_def)

lemma check_precondition_holds: "(check_precondition st p = Inr ()) = holds (st_view st) p"
  by (cases p) (auto simp: check_precondition_def holds_def st_view_def ns_default_def Let_def split: option.splits)

lemma check_all_holds: "(check_all st ps = Inr ()) = list_all (holds (st_view st)) ps"
  by (induction ps) (auto simp: check_precondition_holds [symmetric] split: sum.splits)

lemma st_view_entry_update [simp]: "st_view (entry_update st ns f) = (st_view st)(ns := f (st_view st ns))"
  by (auto simp: fun_eq_iff st_view_def entry_update_def)

lemma st_view_get_mut_update:
  "f ns_default = ns_default \<Longrightarrow> st_view (get_mut_update st ns f) = (st_view st)(ns := f (st_view st ns))"
  by (auto simp: fun_eq_iff st_view_def get_mut_update_def split: option.splits)

lemma apply_operation_view:
  "map_option (st_view \<circ> fst) (apply_operation st op) = op_view (st_view st) op"
  by (cases op) (auto simp: apply_operation_def op_view_def st_view_get_mut_update ns_default_def st_view_def
      split: option.splits)

lemma apply_all_view: "map_option (st_view \<circ> fst) (apply_all st acc ops) = ops_view (st_view st) ops"
proof (induction ops arbitrary: st acc)
  case Nil
  then show ?case by simp
next
  case (Cons op ops)
  then show ?case
    using apply_operation_view [of st op, symmetric] by (cases "apply_operation st op") (auto split: prod.splits)
qed

lemma st_view_revision [simp]: "st_view (st\<lparr>ss_revision := r\<rparr>) = st_view st"
  by (simp add: fun_eq_iff st_view_def)

definition hard_links_served :: "memory_store \<Rightarrow> bool" where
  "hard_links_served m \<longleftrightarrow> supports (ms_capabilities m) HardLinks"

lemma commit_locked_cases:
  "commit_locked m tx =
     (if \<not> hard_links_served m then Some (m, Inl (CapabilityUnsupported Memory HardLinks))
      else case check_all (ms_state m) (tx_preconditions tx) of Inl e \<Rightarrow> Some (m, Inl e)
       | Inr _ \<Rightarrow> (case apply_all (ms_state m) None (tx_operations tx) of None \<Rightarrow> None
          | Some (st, mr) \<Rightarrow> Some (m\<lparr>ms_state := st\<lparr>ss_revision := ss_revision st + 1\<rparr>\<rparr>,
              Inr \<lparr>to_revision = decimal (unat (ss_revision st + 1)), to_mapping_revision = mr\<rparr>)))"
  by (auto simp: commit_locked_def require_capability_def hard_links_served_def Let_def split: sum.splits option.splits)

interpretation memory: metadata_store hard_links_served state_snapshot commit_locked
proof
  fix m m' :: memory_store and tx e out v
  show "\<not> hard_links_served m \<Longrightarrow> \<exists>e. commit_locked m tx = Some (m, Inl e) \<and> is_capability_gap e"
    by (simp add: commit_locked_cases is_capability_gap_def)
  show "commit_locked m tx = Some (m', Inl e) \<Longrightarrow> m' = m"
    by (auto simp: commit_locked_cases split: if_splits sum.splits option.splits)
  show "hard_links_served m' \<and> list_all (holds (state_snapshot m)) (tx_preconditions tx) \<and>
      ops_view (state_snapshot m) (tx_operations tx) = Some (state_snapshot m')"
    if "commit_locked m tx = Some (m', Inr out)"
    using that apply_all_view [of "ms_state m" None "tx_operations tx"]
    by (auto simp: commit_locked_cases state_snapshot_view check_all_holds [symmetric] hard_links_served_def
        split: if_splits sum.splits option.splits)
  show "\<exists>m' out. commit_locked m tx = Some (m', Inr out)"
    if "hard_links_served m" "list_all (holds (state_snapshot m)) (tx_preconditions tx)"
      "ops_view (state_snapshot m) (tx_operations tx) = Some v"
    using that apply_all_view [of "ms_state m" None "tx_operations tx"]
    by (auto simp: commit_locked_cases state_snapshot_view check_all_holds [symmetric] split: option.splits)
  show "ops_view (state_snapshot m) (tx_operations tx) = None" if "commit_locked m tx = None"
    using that apply_all_view [of "ms_state m" None "tx_operations tx"]
    by (auto simp: commit_locked_cases state_snapshot_view split: if_splits sum.splits option.splits)
qed

subsection \<open>Lemmas: frame and revisions\<close>

definition op_namespace :: "operation \<Rightarrow> namespace_key" where
  "op_namespace op = (case op of PutPathIndex e \<Rightarrow> pi_namespace e | RemovePathIndex ns _ \<Rightarrow> ns | PutInode r \<Rightarrow> ir_namespace r
     | RemoveInode ns _ \<Rightarrow> ns | PutTransition t \<Rightarrow> lt_namespace t | RemoveTransition ns _ \<Rightarrow> ns | AdvanceMappingRevision ns \<Rightarrow> ns)"

definition advances :: "namespace_key \<Rightarrow> operation list \<Rightarrow> nat" where
  "advances ns ops = count_list ops (AdvanceMappingRevision ns)"

lemma op_view_frame: "op_view v op = Some v' \<Longrightarrow> ns \<noteq> op_namespace op \<Longrightarrow> v' ns = v ns"
  by (cases op) (auto simp: op_view_def op_namespace_def)

lemma op_view_revision:
  "op_view v op = Some v' \<Longrightarrow>
    unat (ns_mapping_revision (v' ns)) = unat (ns_mapping_revision (v ns)) + (if op = AdvanceMappingRevision ns then 1 else 0)"
  by (cases op) (auto simp: op_view_def revision_next_def dest: checked_add_unat)

lemma ops_view_frame:
  "ops_view v ops = Some v' \<Longrightarrow> ns \<notin> op_namespace ` set ops \<Longrightarrow> v' ns = v ns"
  by (induction ops arbitrary: v) (auto split: option.splits dest: op_view_frame)

lemma ops_view_revision:
  "ops_view v ops = Some v' \<Longrightarrow>
    unat (ns_mapping_revision (v' ns)) = unat (ns_mapping_revision (v ns)) + advances ns ops"
  by (induction ops arbitrary: v) (auto simp: advances_def split: option.splits dest: op_view_revision [of _ _ _ ns])

subsection \<open>Properties\<close>

text \<open>
  C9. A commit is all or nothing. A store that does not serve hard links refuses it with a capability
  gap; a refused or failed commit leaves the whole store as it was; a successful one checked every
  precondition against the state before it and its result is that of all operations in order. On a
  serving store whose revisions do not overflow, it succeeds exactly when every precondition holds.
\<close>

theorem commit_is_atomic:
  "(\<not> hard_links_served m \<longrightarrow> commit_locked m tx = Some (m, Inl (CapabilityUnsupported Memory HardLinks))) \<and>
   (\<forall>m' e. commit_locked m tx = Some (m', Inl e) \<longrightarrow> m' = m) \<and>
   (\<forall>m' out. commit_locked m tx = Some (m', Inr out) \<longrightarrow>
      list_all (holds (state_snapshot m)) (tx_preconditions tx) \<and>
      ops_view (state_snapshot m) (tx_operations tx) = Some (state_snapshot m')) \<and>
   (hard_links_served m \<and> ops_view (state_snapshot m) (tx_operations tx) \<noteq> None \<longrightarrow>
      (\<exists>m' out. commit_locked m tx = Some (m', Inr out)) = list_all (holds (state_snapshot m)) (tx_preconditions tx))"
proof -
  have "\<not> hard_links_served m \<longrightarrow> commit_locked m tx = Some (m, Inl (CapabilityUnsupported Memory HardLinks))"
    by (simp add: commit_locked_cases)
  then show ?thesis using memory.failed memory.committed memory.live by blast
qed

theorem commit_is_atomic_witness:
  "commit_locked without_capabilities (tx_then tx_new (AdvanceMappingRevision ''n'')) =
     Some (without_capabilities, Inl (CapabilityUnsupported Memory HardLinks)) \<and>
   (\<exists>m' out. commit_locked memory_new (tx_then tx_new (AdvanceMappingRevision ''n'')) = Some (m', Inr out))"
proof -
  have "\<not> hard_links_served without_capabilities" "hard_links_served memory_new"
    "ops_view (state_snapshot memory_new) (tx_operations (tx_then tx_new (AdvanceMappingRevision ''n''))) \<noteq> None"
    "list_all (holds (state_snapshot memory_new)) (tx_preconditions (tx_then tx_new (AdvanceMappingRevision ''n'')))"
    by (simp_all add: hard_links_served_def without_capabilities_def memory_new_def tx_then_def tx_new_def op_view_def
        revision_next_def checked_add_def state_snapshot_def ns_default_def INITIAL_def)
  then show ?thesis
    using commit_is_atomic [of without_capabilities "tx_then tx_new (AdvanceMappingRevision ''n'')"]
      commit_is_atomic [of memory_new "tx_then tx_new (AdvanceMappingRevision ''n'')"]
    by blast
qed

text \<open>
  C26. Mapping revisions only grow: a successful commit raises the revision of every namespace by exactly
  the number of its advance operations, without wrap-around, and changes nothing in a namespace none
  of its operations names.
\<close>

theorem commit_advances_revisions:
  assumes "commit_locked m tx = Some (m', Inr out)"
  shows "unat (ns_mapping_revision (state_snapshot m' ns)) =
      unat (ns_mapping_revision (state_snapshot m ns)) + advances ns (tx_operations tx) \<and>
    (ns \<notin> op_namespace ` set (tx_operations tx) \<longrightarrow> state_snapshot m' ns = state_snapshot m ns)"
  using memory.committed [OF assms] ops_view_revision ops_view_frame by blast

theorem commit_advances_revisions_witness:
  "\<exists>m' out. commit_locked memory_new (tx_then tx_new (AdvanceMappingRevision ''n'')) = Some (m', Inr out) \<and>
    unat (ns_mapping_revision (state_snapshot m' ''n'')) = 1"
proof -
  obtain m' out where c: "commit_locked memory_new (tx_then tx_new (AdvanceMappingRevision ''n'')) = Some (m', Inr out)"
    using memory.live [of memory_new "tx_then tx_new (AdvanceMappingRevision ''n'')"]
    by (auto simp: hard_links_served_def memory_new_def tx_then_def tx_new_def op_view_def revision_next_def
        checked_add_def state_snapshot_def ns_default_def INITIAL_def)
  then show ?thesis
    using commit_advances_revisions [OF c, of "''n''"]
    by (auto simp: advances_def tx_then_def tx_new_def state_snapshot_def memory_new_def ns_default_def INITIAL_def)
qed

end
