(* ===== verification/Meta_Link.thy ===== *)
theory Meta_Link
  imports Meta_Store
begin

text \<open>
  The hard-link state machine of \<open>crates/talon-metadata/src/link.rs\<close>: the transactions that begin,
  commit and abort a promotion, add and remove links and demote, and the recovery table. The
  protocol of concurrent clients over the memory store is the step relation \<open>link_step\<close>: clients
  read revisions and records at any time and later commit transactions built from what they read;
  its invariant is that the stored link counts are exact.
\<close>

named_theorems link_tx \<open>unfolding the hard-link transactions\<close>

subsection \<open>Recovery\<close>

datatype recovery = Abort | ResumeOrDiscard | FinishCleanup

datatype inode_object = Absent | Present

definition recovery_for :: "link_transition \<Rightarrow> inode_object \<Rightarrow> recovery" where
  "recovery_for t obj = (case (lt_state t, obj) of
      (Committed, _) \<Rightarrow> FinishCleanup
    | (Aborted, _) \<Rightarrow> Abort
    | (Preparing, Absent) \<Rightarrow> Abort
    | (Preparing, Present) \<Rightarrow> ResumeOrDiscard)"

subsection \<open>Transactions\<close>

definition transition_state_debug :: "link_transition_state \<Rightarrow> string" where
  "transition_state_debug s = (case s of Preparing \<Rightarrow> ''Preparing'' | Committed \<Rightarrow> ''Committed'' | Aborted \<Rightarrow> ''Aborted'')"

definition begin_promotion :: "link_transition \<Rightarrow> metadata_error + transaction" where
  "begin_promotion t =
     (if lt_state t \<noteq> Preparing
      then Inl (InvalidRecord (''a promotion opens in Preparing, not '' @ transition_state_debug (lt_state t)))
      else Inr
        (tx_then (tx_then
          (tx_when (tx_when (tx_when (tx_when tx_new
            (MappingRevisionIs (lt_namespace t) (lt_expected_mapping_revision t)))
            (PathIsUnmapped (lt_namespace t) (lt_source_path t)))
            (PathIsUnmapped (lt_namespace t) (lt_new_path t)))
            (TransitionAbsent (lt_namespace t) (lt_operation_id t)))
          (PutTransition t))
          (AdvanceMappingRevision (lt_namespace t))))"

definition commit_promotion :: "link_transition \<Rightarrow> mapping_revision \<Rightarrow> transaction" where
  "commit_promotion t observed_revision =
     tx_then (tx_then (tx_then (tx_then (tx_then
       (tx_when (tx_when tx_new
         (TransitionExists (lt_namespace t) (lt_operation_id t)))
         (MappingRevisionIs (lt_namespace t) observed_revision))
       (PutPathIndex \<lparr>pi_namespace = lt_namespace t, pi_path = lt_source_path t, pi_inode = lt_inode t\<rparr>))
       (PutPathIndex \<lparr>pi_namespace = lt_namespace t, pi_path = lt_new_path t, pi_inode = lt_inode t\<rparr>))
       (PutInode \<lparr>ir_namespace = lt_namespace t, ir_inode = lt_inode t, ir_link_count = PROMOTED, ir_corrupt = False\<rparr>))
       (RemoveTransition (lt_namespace t) (lt_operation_id t)))
       (AdvanceMappingRevision (lt_namespace t))"

definition abort_promotion :: "link_transition \<Rightarrow> transaction" where
  "abort_promotion t =
     tx_then (tx_then
       (tx_when tx_new (TransitionExists (lt_namespace t) (lt_operation_id t)))
       (RemoveTransition (lt_namespace t) (lt_operation_id t)))
       (AdvanceMappingRevision (lt_namespace t))"

definition add_link ::
  "namespace_key \<Rightarrow> string \<Rightarrow> inode_number \<Rightarrow> link_count \<Rightarrow> mapping_revision \<Rightarrow> transaction option" where
  "add_link ns new_path inode current observed_revision =
     (case link_increment current of None \<Rightarrow> None
      | Some n \<Rightarrow> Some
        (tx_then (tx_then (tx_then
          (tx_when (tx_when tx_new
            (MappingRevisionIs ns observed_revision))
            (PathIsUnmapped ns new_path))
          (PutPathIndex \<lparr>pi_namespace = ns, pi_path = new_path, pi_inode = inode\<rparr>))
          (PutInode \<lparr>ir_namespace = ns, ir_inode = inode, ir_link_count = n, ir_corrupt = False\<rparr>))
          (AdvanceMappingRevision ns)))"

definition remove_link ::
  "namespace_key \<Rightarrow> string \<Rightarrow> inode_number \<Rightarrow> link_count \<Rightarrow> mapping_revision \<Rightarrow> metadata_error + transaction" where
  "remove_link ns path inode current observed_revision =
     (case link_decrement current of
        None \<Rightarrow> Inl (InvalidRecord (''removing this link leaves one: use commit_demotion (ADR 0003 ''
                  @ [CHR 0xC2, CHR 0xA7] @ ''5)''))
      | Some remaining \<Rightarrow> Inr
        (tx_then (tx_then (tx_then
          (tx_when (tx_when tx_new
            (MappingRevisionIs ns observed_revision))
            (PathResolvesTo ns path inode))
          (RemovePathIndex ns path))
          (PutInode \<lparr>ir_namespace = ns, ir_inode = inode, ir_link_count = remaining, ir_corrupt = False\<rparr>))
          (AdvanceMappingRevision ns)))"

definition commit_demotion ::
  "namespace_key \<Rightarrow> string \<Rightarrow> string \<Rightarrow> inode_number \<Rightarrow> mapping_revision \<Rightarrow> transaction" where
  "commit_demotion ns removed_path remaining_path inode observed_revision =
     tx_then (tx_then (tx_then (tx_then
       (tx_when (tx_when (tx_when tx_new
         (MappingRevisionIs ns observed_revision))
         (PathResolvesTo ns removed_path inode))
         (PathResolvesTo ns remaining_path inode))
       (RemovePathIndex ns removed_path))
       (RemovePathIndex ns remaining_path))
       (RemoveInode ns inode))
       (AdvanceMappingRevision ns)"

definition may_resume :: "link_transition \<Rightarrow> string \<Rightarrow> string \<Rightarrow> bool" where
  "may_resume t resumer incarnation \<longleftrightarrow>
     lt_operation_worker t \<noteq> resumer \<or> lt_operation_worker_incarnation t \<noteq> incarnation"

subsection \<open>The protocol\<close>

text \<open>
  \<open>ls_revs\<close> are the mapping revisions clients have read, \<open>ls_reads\<close> the records they read afterwards
  (with the revision read before them), \<open>ls_begun\<close> the promotions whose opening transaction
  succeeded. A promotion is committed with the revision its opening returned, as in the lifecycle of
  the crate: one more than the expected one. Every other transaction uses a revision and records read
  earlier; \<open>other\<close> is any transaction on other namespaces.
\<close>

record link_system =
  ls_store :: memory_store
  ls_revs :: "mapping_revision set"
  ls_reads :: "(mapping_revision \<times> namespace_state) set"
  ls_begun :: "link_transition set"

inductive link_step :: "namespace_key \<Rightarrow> link_system \<Rightarrow> link_system \<Rightarrow> bool" for N where
  read_revision:
    "link_step N s (s\<lparr>ls_revs := insert (ns_mapping_revision (state_snapshot (ls_store s) N)) (ls_revs s)\<rparr>)"
| read_records:
    "r \<in> ls_revs s \<Longrightarrow>
     link_step N s (s\<lparr>ls_reads := insert (r, state_snapshot (ls_store s) N) (ls_reads s)\<rparr>)"
| begin_ok:
    "\<lbrakk>lt_namespace t = N; lt_source_path t \<noteq> lt_new_path t; (lt_expected_mapping_revision t, snap) \<in> ls_reads s;
      ns_inodes snap (lt_inode t) = None; begin_promotion t = Inr tx;
      commit_locked (ls_store s) tx = Some (m, Inr out)\<rbrakk> \<Longrightarrow>
     link_step N s (s\<lparr>ls_store := m, ls_begun := insert t (ls_begun s)\<rparr>)"
| commit_promotion:
    "\<lbrakk>t \<in> ls_begun s; revision_next (lt_expected_mapping_revision t) = Some r;
      commit_locked (ls_store s) (commit_promotion t r) = Some (m, res)\<rbrakk> \<Longrightarrow> link_step N s (s\<lparr>ls_store := m\<rparr>)"
| abort_promotion:
    "\<lbrakk>t \<in> ls_begun s; commit_locked (ls_store s) (abort_promotion t) = Some (m, res)\<rbrakk> \<Longrightarrow>
     link_step N s (s\<lparr>ls_store := m\<rparr>)"
| add_link:
    "\<lbrakk>(r, snap) \<in> ls_reads s; ns_inodes snap i = Some rec; add_link N path i (ir_link_count rec) r = Some tx;
      commit_locked (ls_store s) tx = Some (m, res)\<rbrakk> \<Longrightarrow> link_step N s (s\<lparr>ls_store := m\<rparr>)"
| remove_link:
    "\<lbrakk>(r, snap) \<in> ls_reads s; ns_inodes snap i = Some rec; remove_link N path i (ir_link_count rec) r = Inr tx;
      commit_locked (ls_store s) tx = Some (m, res)\<rbrakk> \<Longrightarrow> link_step N s (s\<lparr>ls_store := m\<rparr>)"
| demotion:
    "\<lbrakk>(r, snap) \<in> ls_reads s; ns_inodes snap i = Some rec; link_decrement (ir_link_count rec) = None;
      removed \<noteq> remaining;
      commit_locked (ls_store s) (commit_demotion N removed remaining i r) = Some (m, res)\<rbrakk> \<Longrightarrow>
     link_step N s (s\<lparr>ls_store := m\<rparr>)"
| other:
    "\<lbrakk>N \<notin> op_namespace ` set (tx_operations tx); commit_locked (ls_store s) tx = Some (m, res)\<rbrakk> \<Longrightarrow>
     link_step N s (s\<lparr>ls_store := m\<rparr>)"

definition link_init :: link_system where
  "link_init = \<lparr>ls_store = memory_new, ls_revs = {}, ls_reads = {}, ls_begun = {}\<rparr>"

definition link_reachable :: "namespace_key \<Rightarrow> link_system \<Rightarrow> bool" where
  "link_reachable N s \<longleftrightarrow> (link_step N)\<^sup>*\<^sup>* link_init s"

subsection \<open>The invariant\<close>

text \<open>
  Every path of the index leads to an inode record, and every record counts exactly the paths that lead
  to it, at least two.
\<close>

definition paths_of :: "namespace_state \<Rightarrow> inode_number \<Rightarrow> string set" where
  "paths_of n i = {p. ns_paths n p = Some i}"

definition links_ok :: "namespace_state \<Rightarrow> bool" where
  "links_ok n \<longleftrightarrow> (\<forall>p i. ns_paths n p = Some i \<longrightarrow> ns_inodes n i \<noteq> None) \<and>
     (\<forall>i rec. ns_inodes n i = Some rec \<longrightarrow>
        finite (paths_of n i) \<and> card (paths_of n i) = unat (ir_link_count rec) \<and> 2 \<le> ir_link_count rec)"

definition same_links :: "namespace_state \<Rightarrow> namespace_state \<Rightarrow> bool" where
  "same_links a b \<longleftrightarrow> ns_paths a = ns_paths b \<and> ns_inodes a = ns_inodes b"

definition begun_ok :: "namespace_key \<Rightarrow> namespace_state \<Rightarrow> link_transition \<Rightarrow> bool" where
  "begun_ok N n t \<longleftrightarrow> lt_namespace t = N \<and> lt_source_path t \<noteq> lt_new_path t \<and>
     unat (lt_expected_mapping_revision t) + 1 \<le> unat (ns_mapping_revision n) \<and>
     (unat (lt_expected_mapping_revision t) + 1 = unat (ns_mapping_revision n) \<longrightarrow>
        ns_paths n (lt_source_path t) = None \<and> ns_paths n (lt_new_path t) = None \<and> ns_inodes n (lt_inode t) = None)"

definition link_inv :: "namespace_key \<Rightarrow> link_system \<Rightarrow> bool" where
  "link_inv N s \<longleftrightarrow> (let n = state_snapshot (ls_store s) N in
     links_ok n \<and> (\<forall>r \<in> ls_revs s. r \<le> ns_mapping_revision n) \<and>
     (\<forall>(r, snap) \<in> ls_reads s. r \<le> ns_mapping_revision n \<and> (r = ns_mapping_revision n \<longrightarrow> same_links snap n)) \<and>
     (\<forall>t \<in> ls_begun s. begun_ok N n t))"

lemmas [link_tx] = tx_new_def tx_when_def tx_then_def holds_def op_view_def

subsection \<open>Lemmas: every transaction keeps the link counts exact\<close>

lemma links_okI:
  assumes "\<And>p i. ns_paths n p = Some i \<Longrightarrow> ns_inodes n i \<noteq> None"
    "\<And>i rec. ns_inodes n i = Some rec \<Longrightarrow>
      finite (paths_of n i) \<and> card (paths_of n i) = unat (ir_link_count rec) \<and> 2 \<le> ir_link_count rec"
  shows "links_ok n"
  using assms by (simp add: links_ok_def)

lemma links_okD:
  assumes "links_ok n" "ns_inodes n i = Some rec"
  shows "finite (paths_of n i)" "card (paths_of n i) = unat (ir_link_count rec)" "2 \<le> ir_link_count rec"
  using assms by (auto simp: links_ok_def)

lemma links_ok_cong: "same_links a b \<Longrightarrow> links_ok a \<longleftrightarrow> links_ok b"
  by (simp add: same_links_def links_ok_def paths_of_def)

lemma no_record_no_paths: "links_ok n \<Longrightarrow> ns_inodes n i = None \<Longrightarrow> paths_of n i = {}"
  unfolding links_ok_def paths_of_def by force

lemma links_ok_promote:
  assumes "links_ok n" "ns_paths n src = None" "ns_paths n new = None" "ns_inodes n i = None" "src \<noteq> new"
    and "ns_paths n' = (ns_paths n)(src \<mapsto> i, new \<mapsto> i)" "ns_inodes n' = (ns_inodes n)(i \<mapsto> rec)" "ir_link_count rec = 2"
  shows "links_ok n'"
proof (rule links_okI)
  fix p j assume "ns_paths n' p = Some j"
  then show "ns_inodes n' j \<noteq> None" using assms by (auto simp: links_ok_def split: if_splits)
next
  fix j rec' assume j: "ns_inodes n' j = Some rec'"
  have "paths_of n' j = (if j = i then {src, new} else paths_of n j)"
    using no_record_no_paths [OF assms(1,4)] assms(2,3,6) by (auto simp: paths_of_def)
  then show "finite (paths_of n' j) \<and> card (paths_of n' j) = unat (ir_link_count rec') \<and> 2 \<le> ir_link_count rec'"
    using j assms(5,7,8) links_okD [OF assms(1), of j rec'] by (auto split: if_splits)
qed

lemma links_ok_add:
  assumes "links_ok n" "ns_inodes n i = Some rec" "ns_paths n path = None" "link_increment (ir_link_count rec) = Some c"
    and "ns_paths n' = (ns_paths n)(path \<mapsto> i)" "ns_inodes n' = (ns_inodes n)(i \<mapsto> rec')" "ir_link_count rec' = c"
  shows "links_ok n'"
proof (rule links_okI)
  fix p j assume "ns_paths n' p = Some j"
  then show "ns_inodes n' j \<noteq> None" using assms by (auto simp: links_ok_def split: if_splits)
next
  fix j r assume j: "ns_inodes n' j = Some r"
  have "paths_of n' j = (if j = i then insert path (paths_of n j) else paths_of n j)" "path \<notin> paths_of n j"
    using assms(3,5) by (auto simp: paths_of_def)
  moreover have "unat c = unat (ir_link_count rec) + 1" using assms(4) checked_add_unat by (fastforce simp: link_increment_def)
  ultimately show "finite (paths_of n' j) \<and> card (paths_of n' j) = unat (ir_link_count r) \<and> 2 \<le> ir_link_count r"
    using j assms(2,6,7) links_okD [OF assms(1), of j] by (auto simp: word_le_nat_alt split: if_splits)
qed

lemma links_ok_remove:
  assumes "links_ok n" "ns_inodes n i = Some rec" "ns_paths n path = Some i" "link_decrement (ir_link_count rec) = Some c"
    and "ns_paths n' = (ns_paths n)(path := None)" "ns_inodes n' = (ns_inodes n)(i \<mapsto> rec')" "ir_link_count rec' = c"
  shows "links_ok n'"
proof (rule links_okI)
  fix p j assume "ns_paths n' p = Some j"
  then show "ns_inodes n' j \<noteq> None" using assms by (auto simp: links_ok_def split: if_splits)
next
  fix j r assume j: "ns_inodes n' j = Some r"
  have p: "paths_of n' j = (if j = i then paths_of n j - {path} else paths_of n j)" "path \<in> paths_of n i"
    using assms(3,5) by (auto simp: paths_of_def)
  note rec = links_okD [OF assms(1,2)]
  have "c = ir_link_count rec - 1" "2 \<le> c" using assms(4) by (auto simp: link_decrement_def split: if_splits)
  moreover have "unat (ir_link_count rec - 1) = unat (ir_link_count rec) - 1"
    using rec(3) unat_sub_exact [of 1 "ir_link_count rec"] by (simp add: word_le_nat_alt)
  ultimately show "finite (paths_of n' j) \<and> card (paths_of n' j) = unat (ir_link_count r) \<and> 2 \<le> ir_link_count r"
    using j p assms(6,7) rec links_okD [OF assms(1), of j] by (auto split: if_splits)
qed

lemma links_ok_demote:
  assumes "links_ok n" "ns_inodes n i = Some rec" "link_decrement (ir_link_count rec) = None"
    "ns_paths n a = Some i" "ns_paths n b = Some i" "a \<noteq> b"
    and "ns_paths n' = (ns_paths n)(a := None, b := None)" "ns_inodes n' = (ns_inodes n)(i := None)"
  shows "links_ok n'"
proof (rule links_okI)
  note rec = links_okD [OF assms(1,2)]
  have "ir_link_count rec = 2" using link_decrement_some [OF rec(3)] assms(3) by (auto split: if_splits)
  then have "card (paths_of n i) = card {a, b}" using rec(2) assms(6) by simp
  moreover have "{a, b} \<subseteq> paths_of n i" using assms(4,5) by (simp add: paths_of_def)
  ultimately have two: "paths_of n i = {a, b}" using card_subset_eq [OF rec(1)] by metis
  show "ns_inodes n' j \<noteq> None" if "ns_paths n' p = Some j" for p j
    using that assms(1,7,8) two by (auto simp: links_ok_def paths_of_def split: if_splits)
  fix j r assume j: "ns_inodes n' j = Some r"
  have "paths_of n' j = paths_of n j" using j assms(4,5,7,8) by (auto simp: paths_of_def split: if_splits)
  then show "finite (paths_of n' j) \<and> card (paths_of n' j) = unat (ir_link_count r) \<and> 2 \<le> ir_link_count r"
    using j assms(8) links_okD [OF assms(1), of j r] by (auto split: if_splits)
qed

subsection \<open>Lemmas: the steps keep the invariant\<close>

lemma inv_unchanged:
  "link_inv N s \<Longrightarrow> state_snapshot m N = state_snapshot (ls_store s) N \<Longrightarrow> link_inv N (s\<lparr>ls_store := m\<rparr>)"
  by (simp add: link_inv_def)

lemma inv_advanced:
  assumes "link_inv N s" "links_ok (state_snapshot m N)"
    "ns_mapping_revision (state_snapshot (ls_store s) N) < ns_mapping_revision (state_snapshot m N)"
  shows "link_inv N (s\<lparr>ls_store := m\<rparr>)"
proof -
  let ?n = "state_snapshot (ls_store s) N" and ?n' = "state_snapshot m N"
  have reads: "r < ns_mapping_revision ?n'" if "(r, snap) \<in> ls_reads s" for r snap
    using that assms(1,3) unfolding link_inv_def Let_def by fastforce
  have revs: "r < ns_mapping_revision ?n'" if "r \<in> ls_revs s" for r
    using that assms(1,3) unfolding link_inv_def Let_def by fastforce
  have "begun_ok N ?n' t" if "begun_ok N ?n t" for t
    using that assms(3) by (simp add: begun_ok_def word_less_nat_alt)
  then show ?thesis using assms(1,2) unfolding link_inv_def Let_def by (auto dest: reads revs)
qed

lemma revision_next_less: "revision_next r = Some r' \<Longrightarrow> r < r' \<and> unat r' = unat r + 1"
  by (auto simp: revision_next_def word_less_nat_alt dest: checked_add_unat)

lemma read_current:
  assumes "link_inv N s" "(r, snap) \<in> ls_reads s" "ns_mapping_revision (state_snapshot (ls_store s) N) = r"
  shows "same_links snap (state_snapshot (ls_store s) N)"
  using assms by (auto simp: link_inv_def Let_def)

lemma inv_links: "link_inv N s \<Longrightarrow> links_ok (state_snapshot (ls_store s) N)"
  by (simp add: link_inv_def Let_def)

lemma fun_upd_at: "f(a := x) = g \<Longrightarrow> g a = x"
  by auto

text \<open>What a successful commit does to the namespace, for each transaction.\<close>

lemma begin_effect:
  assumes "begin_promotion t = Inr tx" "commit_locked m0 tx = Some (m, Inr out)"
  defines "n \<equiv> state_snapshot m0 (lt_namespace t)" and "n' \<equiv> state_snapshot m (lt_namespace t)"
  shows "ns_mapping_revision n = lt_expected_mapping_revision t" "ns_paths n (lt_source_path t) = None"
    "ns_paths n (lt_new_path t) = None" "same_links n' n"
    "revision_next (ns_mapping_revision n) = Some (ns_mapping_revision n')"
  using memory.committed [OF assms(2)] assms(1)
  by (auto simp: begin_promotion_def link_tx n_def n'_def same_links_def split: if_splits option.splits dest!: fun_upd_at)

lemma commit_promotion_effect:
  assumes "commit_locked m0 (commit_promotion t r) = Some (m, Inr out)"
  defines "n \<equiv> state_snapshot m0 (lt_namespace t)" and "n' \<equiv> state_snapshot m (lt_namespace t)"
  shows "ns_mapping_revision n = r" "revision_next r = Some (ns_mapping_revision n')"
    "ns_paths n' = (ns_paths n)(lt_source_path t \<mapsto> lt_inode t, lt_new_path t \<mapsto> lt_inode t)"
    "ns_inodes n' = (ns_inodes n)(lt_inode t \<mapsto>
       \<lparr>ir_namespace = lt_namespace t, ir_inode = lt_inode t, ir_link_count = PROMOTED, ir_corrupt = False\<rparr>)"
    "ns_transitions n' (lt_operation_id t) = None"
  using memory.committed [OF assms(1)] by (auto simp: commit_promotion_def link_tx n_def n'_def split: option.splits dest!: fun_upd_at)

lemma abort_promotion_effect:
  assumes "commit_locked m0 (abort_promotion t) = Some (m, Inr out)"
  defines "n \<equiv> state_snapshot m0 (lt_namespace t)" and "n' \<equiv> state_snapshot m (lt_namespace t)"
  shows "same_links n' n" "revision_next (ns_mapping_revision n) = Some (ns_mapping_revision n')"
  using memory.committed [OF assms(1)] by (auto simp: abort_promotion_def link_tx n_def n'_def same_links_def split: option.splits dest!: fun_upd_at)

lemma add_link_effect:
  assumes "add_link N path i cnt r = Some tx" "commit_locked m0 tx = Some (m, Inr out)"
  defines "n \<equiv> state_snapshot m0 N" and "n' \<equiv> state_snapshot m N"
  shows "\<exists>c. link_increment cnt = Some c \<and> ns_mapping_revision n = r \<and> ns_paths n path = None \<and>
    ns_paths n' = (ns_paths n)(path \<mapsto> i) \<and> revision_next r = Some (ns_mapping_revision n') \<and>
    ns_inodes n' = (ns_inodes n)(i \<mapsto> \<lparr>ir_namespace = N, ir_inode = i, ir_link_count = c, ir_corrupt = False\<rparr>)"
  using memory.committed [OF assms(2)] assms(1)
  by (auto simp: add_link_def link_tx n_def n'_def split: option.splits dest!: fun_upd_at)

lemma remove_link_effect:
  assumes "remove_link N path i cnt r = Inr tx" "commit_locked m0 tx = Some (m, Inr out)"
  defines "n \<equiv> state_snapshot m0 N" and "n' \<equiv> state_snapshot m N"
  shows "\<exists>c. link_decrement cnt = Some c \<and> ns_mapping_revision n = r \<and> ns_paths n path = Some i \<and>
    ns_paths n' = (ns_paths n)(path := None) \<and> revision_next r = Some (ns_mapping_revision n') \<and>
    ns_inodes n' = (ns_inodes n)(i \<mapsto> \<lparr>ir_namespace = N, ir_inode = i, ir_link_count = c, ir_corrupt = False\<rparr>)"
  using memory.committed [OF assms(2)] assms(1)
  by (auto simp: remove_link_def link_tx n_def n'_def split: option.splits dest!: fun_upd_at)

lemma demotion_effect:
  assumes "commit_locked m0 (commit_demotion N a b i r) = Some (m, Inr out)"
  defines "n \<equiv> state_snapshot m0 N" and "n' \<equiv> state_snapshot m N"
  shows "ns_mapping_revision n = r" "ns_paths n a = Some i" "ns_paths n b = Some i"
    "ns_paths n' = (ns_paths n)(a := None, b := None)" "ns_inodes n' = (ns_inodes n)(i := None)"
    "revision_next r = Some (ns_mapping_revision n')"
  using memory.committed [OF assms(1)] by (auto simp: commit_demotion_def link_tx n_def n'_def split: option.splits dest!: fun_upd_at)

lemma inv_begun: "link_inv N s \<Longrightarrow> t \<in> ls_begun s \<Longrightarrow> begun_ok N (state_snapshot (ls_store s) N) t"
  by (auto simp: link_inv_def Let_def)

lemma inv_committed:
  assumes "link_inv N s" "commit_locked (ls_store s) tx = Some (m, res)"
    and "\<And>out. commit_locked (ls_store s) tx = Some (m, Inr out) \<Longrightarrow> links_ok (state_snapshot m N) \<and>
      revision_next (ns_mapping_revision (state_snapshot (ls_store s) N)) = Some (ns_mapping_revision (state_snapshot m N))"
  shows "link_inv N (s\<lparr>ls_store := m\<rparr>)"
proof (cases res)
  case (Inl e)
  then have "m = ls_store s" using assms(2) memory.failed by blast
  then show ?thesis using assms(1) by simp
next
  case (Inr out)
  then show ?thesis
    using assms(3) [of out] assms(2) revision_next_less inv_advanced [OF assms(1)] by blast
qed

lemma inv_begin:
  assumes inv: "link_inv N s" and t: "lt_namespace t = N" "lt_source_path t \<noteq> lt_new_path t"
    and snap: "(lt_expected_mapping_revision t, snap) \<in> ls_reads s" "ns_inodes snap (lt_inode t) = None"
    and tx: "begin_promotion t = Inr tx" "commit_locked (ls_store s) tx = Some (m, Inr out)"
  shows "link_inv N (s\<lparr>ls_store := m, ls_begun := insert t (ls_begun s)\<rparr>)"
proof -
  note eff = begin_effect [OF tx, unfolded t(1)]
  have ok: "links_ok (state_snapshot m N)" using inv_links [OF inv] links_ok_cong [OF eff(4)] by simp
  have "link_inv N (s\<lparr>ls_store := m\<rparr>)" using inv_advanced [OF inv ok] revision_next_less [OF eff(5)] by blast
  moreover have "begun_ok N (state_snapshot m N) t"
    using t eff read_current [OF inv snap(1) eff(1)] snap(2) revision_next_less [OF eff(5)]
    by (auto simp: begun_ok_def same_links_def)
  ultimately show ?thesis by (simp add: link_inv_def Let_def)
qed

lemma inv_commit_promotion:
  assumes inv: "link_inv N s" and t: "t \<in> ls_begun s" "revision_next (lt_expected_mapping_revision t) = Some r"
    and c: "commit_locked (ls_store s) (commit_promotion t r) = Some (m, res)"
  shows "link_inv N (s\<lparr>ls_store := m\<rparr>)"
proof (rule inv_committed [OF inv c])
  fix out assume c': "commit_locked (ls_store s) (commit_promotion t r) = Some (m, Inr out)"
  note b = inv_begun [OF inv t(1)]
  have N: "lt_namespace t = N" using b by (simp add: begun_ok_def)
  note eff = commit_promotion_effect [OF c', unfolded N]
  have "unat (lt_expected_mapping_revision t) + 1 = unat (ns_mapping_revision (state_snapshot (ls_store s) N))"
    using eff(1) revision_next_less [OF t(2)] by simp
  then have free: "ns_paths (state_snapshot (ls_store s) N) (lt_source_path t) = None"
    "ns_paths (state_snapshot (ls_store s) N) (lt_new_path t) = None"
    "ns_inodes (state_snapshot (ls_store s) N) (lt_inode t) = None" "lt_source_path t \<noteq> lt_new_path t"
    using b by (simp_all add: begun_ok_def)
  then show "links_ok (state_snapshot m N) \<and> revision_next (ns_mapping_revision (state_snapshot (ls_store s) N)) =
      Some (ns_mapping_revision (state_snapshot m N))"
    using links_ok_promote [OF inv_links [OF inv] free eff(3,4)] eff(1,2) by (simp add: PROMOTED_def)
qed

lemma inv_abort_promotion:
  assumes inv: "link_inv N s" and t: "t \<in> ls_begun s"
    and c: "commit_locked (ls_store s) (abort_promotion t) = Some (m, res)"
  shows "link_inv N (s\<lparr>ls_store := m\<rparr>)"
proof (rule inv_committed [OF inv c])
  fix out assume c': "commit_locked (ls_store s) (abort_promotion t) = Some (m, Inr out)"
  have N: "lt_namespace t = N" using inv_begun [OF inv t] by (simp add: begun_ok_def)
  note eff = abort_promotion_effect [OF c', unfolded N]
  show "links_ok (state_snapshot m N) \<and> revision_next (ns_mapping_revision (state_snapshot (ls_store s) N)) =
      Some (ns_mapping_revision (state_snapshot m N))"
    using inv_links [OF inv] links_ok_cong [OF eff(1)] eff(2) by simp
qed

lemma inv_add_link:
  assumes inv: "link_inv N s" and snap: "(r, snap) \<in> ls_reads s" "ns_inodes snap i = Some rec"
    and c: "add_link N path i (ir_link_count rec) r = Some tx" "commit_locked (ls_store s) tx = Some (m, res)"
  shows "link_inv N (s\<lparr>ls_store := m\<rparr>)"
proof (rule inv_committed [OF inv c(2)])
  fix out assume c': "commit_locked (ls_store s) tx = Some (m, Inr out)"
  obtain k where eff: "link_increment (ir_link_count rec) = Some k" "ns_mapping_revision (state_snapshot (ls_store s) N) = r"
    "ns_paths (state_snapshot (ls_store s) N) path = None"
    "ns_paths (state_snapshot m N) = (ns_paths (state_snapshot (ls_store s) N))(path \<mapsto> i)"
    "revision_next r = Some (ns_mapping_revision (state_snapshot m N))"
    "ns_inodes (state_snapshot m N) = (ns_inodes (state_snapshot (ls_store s) N))
       (i \<mapsto> \<lparr>ir_namespace = N, ir_inode = i, ir_link_count = k, ir_corrupt = False\<rparr>)"
    using add_link_effect [OF c(1) c'] by auto
  have "ns_inodes (state_snapshot (ls_store s) N) i = Some rec"
    using read_current [OF inv snap(1) eff(2)] snap(2) by (simp add: same_links_def)
  then show "links_ok (state_snapshot m N) \<and> revision_next (ns_mapping_revision (state_snapshot (ls_store s) N)) =
      Some (ns_mapping_revision (state_snapshot m N))"
    using links_ok_add [OF inv_links [OF inv] _ eff(3,1,4,6)] eff(2,5) by simp
qed

lemma inv_remove_link:
  assumes inv: "link_inv N s" and snap: "(r, snap) \<in> ls_reads s" "ns_inodes snap i = Some rec"
    and c: "remove_link N path i (ir_link_count rec) r = Inr tx" "commit_locked (ls_store s) tx = Some (m, res)"
  shows "link_inv N (s\<lparr>ls_store := m\<rparr>)"
proof (rule inv_committed [OF inv c(2)])
  fix out assume c': "commit_locked (ls_store s) tx = Some (m, Inr out)"
  obtain k where eff: "link_decrement (ir_link_count rec) = Some k" "ns_mapping_revision (state_snapshot (ls_store s) N) = r"
    "ns_paths (state_snapshot (ls_store s) N) path = Some i"
    "ns_paths (state_snapshot m N) = (ns_paths (state_snapshot (ls_store s) N))(path := None)"
    "revision_next r = Some (ns_mapping_revision (state_snapshot m N))"
    "ns_inodes (state_snapshot m N) = (ns_inodes (state_snapshot (ls_store s) N))
       (i \<mapsto> \<lparr>ir_namespace = N, ir_inode = i, ir_link_count = k, ir_corrupt = False\<rparr>)"
    using remove_link_effect [OF c(1) c'] by auto
  have "ns_inodes (state_snapshot (ls_store s) N) i = Some rec"
    using read_current [OF inv snap(1) eff(2)] snap(2) by (simp add: same_links_def)
  then show "links_ok (state_snapshot m N) \<and> revision_next (ns_mapping_revision (state_snapshot (ls_store s) N)) =
      Some (ns_mapping_revision (state_snapshot m N))"
    using links_ok_remove [OF inv_links [OF inv] _ eff(3,1,4,6)] eff(2,5) by simp
qed

lemma inv_demotion:
  assumes inv: "link_inv N s" and snap: "(r, snap) \<in> ls_reads s" "ns_inodes snap i = Some rec"
    and d: "link_decrement (ir_link_count rec) = None" "a \<noteq> b"
    and c: "commit_locked (ls_store s) (commit_demotion N a b i r) = Some (m, res)"
  shows "link_inv N (s\<lparr>ls_store := m\<rparr>)"
proof (rule inv_committed [OF inv c])
  fix out assume c': "commit_locked (ls_store s) (commit_demotion N a b i r) = Some (m, Inr out)"
  note eff = demotion_effect [OF c']
  have "ns_inodes (state_snapshot (ls_store s) N) i = Some rec"
    using read_current [OF inv snap(1) eff(1)] snap(2) by (simp add: same_links_def)
  then show "links_ok (state_snapshot m N) \<and> revision_next (ns_mapping_revision (state_snapshot (ls_store s) N)) =
      Some (ns_mapping_revision (state_snapshot m N))"
    using links_ok_demote [OF inv_links [OF inv] _ d(1) eff(2,3) d(2) eff(4,5)] eff(1,6) by simp
qed

lemma inv_other:
  assumes "link_inv N s" "N \<notin> op_namespace ` set (tx_operations tx)" "commit_locked (ls_store s) tx = Some (m, res)"
  shows "link_inv N (s\<lparr>ls_store := m\<rparr>)"
proof (rule inv_unchanged [OF assms(1)])
  show "state_snapshot m N = state_snapshot (ls_store s) N"
  proof (cases res)
    case (Inl e)
    then show ?thesis using assms(3) memory.failed by blast
  next
    case (Inr out)
    then show ?thesis using assms(3) memory.committed ops_view_frame [OF _ assms(2)] by blast
  qed
qed

lemma link_inv_step: "link_step N s s' \<Longrightarrow> link_inv N s \<Longrightarrow> link_inv N s'"
proof (induction rule: link_step.induct)
  case (read_revision s)
  then show ?case by (simp add: link_inv_def Let_def)
next
  case (read_records r s)
  then show ?case by (simp add: link_inv_def Let_def same_links_def)
qed (blast intro: inv_begin inv_commit_promotion inv_abort_promotion inv_add_link inv_remove_link inv_demotion inv_other)+

lemma link_inv_reachable: "link_reachable N s \<Longrightarrow> link_inv N s"
  unfolding link_reachable_def
proof (induction rule: rtranclp_induct)
  case base
  show ?case
    by (simp add: link_inv_def link_init_def links_ok_def memory_new_def state_snapshot_def ns_default_def)
next
  case (step s s')
  then show ?case by (blast intro: link_inv_step)
qed

subsection \<open>A concrete run\<close>

definition demo_transition :: "string \<Rightarrow> string \<Rightarrow> string \<Rightarrow> mapping_revision \<Rightarrow> inode_number \<Rightarrow> link_transition" where
  "demo_transition op_id src new r i =
     \<lparr>lt_namespace = ''n'', lt_operation_id = op_id, lt_state = Preparing, lt_source_path = src, lt_new_path = new,
      lt_source_version = ''v'', lt_expected_mapping_revision = r, lt_inode = i, lt_operation_worker = ''w'',
      lt_operation_worker_incarnation = ''1''\<rparr>"

text \<open>Run transactions one after the other, keeping the last store whose commit succeeded.\<close>

primrec run_txs :: "memory_store \<Rightarrow> transaction list \<Rightarrow> memory_store option" where
  "run_txs m [] = Some m"
| "run_txs m (tx # txs) =
     (case commit_locked m tx of Some (m', Inr _) \<Rightarrow> run_txs m' txs | _ \<Rightarrow> None)"

definition begin_tx :: "link_transition \<Rightarrow> transaction" where
  "begin_tx t = (case begin_promotion t of Inr tx \<Rightarrow> tx | Inl _ \<Rightarrow> tx_new)"

primrec run_views :: "view \<Rightarrow> transaction list \<Rightarrow> view option" where
  "run_views v [] = Some v"
| "run_views v (tx # txs) =
     (if list_all (holds v) (tx_preconditions tx)
      then (case ops_view v (tx_operations tx) of None \<Rightarrow> None | Some v' \<Rightarrow> run_views v' txs) else None)"

lemma run_txs_views:
  "hard_links_served m \<Longrightarrow> run_views (state_snapshot m) txs = Some v \<Longrightarrow>
    \<exists>m'. run_txs m txs = Some m' \<and> state_snapshot m' = v"
proof (induction txs arbitrary: m)
  case Nil
  then show ?case by simp
next
  case (Cons tx txs)
  obtain v' where pre: "list_all (holds (state_snapshot m)) (tx_preconditions tx)"
    "ops_view (state_snapshot m) (tx_operations tx) = Some v'" "run_views v' txs = Some v"
    using Cons.prems(2) by (auto split: if_splits option.splits)
  obtain m' out where c: "commit_locked m tx = Some (m', Inr out)"
    using memory.live [OF Cons.prems(1) pre(1,2)] by blast
  then have "hard_links_served m'" "state_snapshot m' = v'" using memory.committed [OF c] pre(2) by auto
  then show ?case using Cons.IH [of m'] pre(3) c by simp
qed

lemma memory_new_served [simp]: "hard_links_served memory_new"
  by (simp add: hard_links_served_def memory_new_def)

lemma memory_new_view: "state_snapshot memory_new = (\<lambda>_. ns_default)"
  by (simp add: fun_eq_iff state_snapshot_def memory_new_def)

lemmas demo_simps = link_tx memory_new_view demo_transition_def begin_tx_def begin_promotion_def commit_promotion_def
  revision_next_def checked_add_def ns_default_def INITIAL_def PROMOTED_def

text \<open>
  The commit of a promotion trusts the revision it is given: when it is not the one its opening
  returned but one read again later, a second promotion of the same source path can commit in between
  and the first still succeeds, leaving an inode record that counts two links with one path.
\<close>

lemma promotion_with_reread_revision:
  "\<exists>m. run_txs memory_new
      [begin_tx (demo_transition ''op1'' ''a'' ''b'' 0 7), begin_tx (demo_transition ''op2'' ''a'' ''c'' 1 8),
       commit_promotion (demo_transition ''op2'' ''a'' ''c'' 1 8) 2,
       commit_promotion (demo_transition ''op1'' ''a'' ''b'' 0 7) 3] = Some m \<and>
    paths_of (state_snapshot m ''n'') 8 = {''c''} \<and>
    map_option ir_link_count (ns_inodes (state_snapshot m ''n'') 8) = Some 2"
proof -
  let ?txs = "[begin_tx (demo_transition ''op1'' ''a'' ''b'' 0 7), begin_tx (demo_transition ''op2'' ''a'' ''c'' 1 8),
       commit_promotion (demo_transition ''op2'' ''a'' ''c'' 1 8) 2,
       commit_promotion (demo_transition ''op1'' ''a'' ''b'' 0 7) 3]"
  have "\<exists>v. run_views (state_snapshot memory_new) ?txs = Some v \<and> paths_of (v ''n'') 8 = {''c''} \<and>
      map_option ir_link_count (ns_inodes (v ''n'') 8) = Some 2"
    by (auto simp: demo_simps paths_of_def)
  then show ?thesis using run_txs_views [OF memory_new_served] by metis
qed

text \<open>Adding a link rewrites the whole record and so clears a corruption mark.\<close>

lemma add_link_clears_corrupt:
  assumes "add_link N path i cnt r = Some tx" "commit_locked m0 tx = Some (m, Inr out)"
  shows "map_option ir_corrupt (ns_inodes (state_snapshot m N) i) = Some False"
  using add_link_effect [OF assms] by auto

lemma load_inode_snapshot:
  "load_inode m ns i = Inr rec \<longleftrightarrow> hard_links_served m \<and> ns_inodes (state_snapshot m ns) i = Some rec"
  by (auto simp: load_inode_def require_capability_def hard_links_served_def state_snapshot_def ns_default_def
      split: option.splits)

lemma resolve_path_snapshot:
  "resolve_path m ns p = Inr (Some e) \<longleftrightarrow> hard_links_served m \<and>
     e = \<lparr>pi_namespace = ns, pi_path = p, pi_inode = pi_inode e\<rparr> \<and> ns_paths (state_snapshot m ns) p = Some (pi_inode e)"
  by (auto simp: resolve_path_def require_capability_def hard_links_served_def state_snapshot_def ns_default_def
      split: option.splits)

lemma commit_view:
  assumes "hard_links_served m" "run_views (state_snapshot m) [tx] = Some v"
  shows "\<exists>m' out. commit_locked m tx = Some (m', Inr out) \<and> state_snapshot m' = v \<and> hard_links_served m'"
proof -
  have pre: "list_all (holds (state_snapshot m)) (tx_preconditions tx)" "ops_view (state_snapshot m) (tx_operations tx) = Some v"
    using assms(2) by (auto split: if_splits option.splits)
  then show ?thesis using memory.live [OF assms(1) pre] memory.committed by fastforce
qed

lemma demo_reachable:
  "\<exists>s. link_reachable ''n'' s \<and> hard_links_served (ls_store s) \<and>
    ns_inodes (state_snapshot (ls_store s) ''n'') 7 =
      Some \<lparr>ir_namespace = ''n'', ir_inode = 7, ir_link_count = 2, ir_corrupt = False\<rparr>"
proof -
  let ?t = "demo_transition ''op1'' ''a'' ''b'' 0 7"
  define s1 where "s1 = link_init\<lparr>ls_revs := {0}\<rparr>"
  define s2 where "s2 = s1\<lparr>ls_reads := {(0, ns_default)}\<rparr>"
  have 1: "link_step ''n'' link_init s1"
    using link_step.read_revision [of "''n''" link_init]
    by (simp add: s1_def link_init_def memory_new_view ns_default_def INITIAL_def)
  have 2: "link_step ''n'' s1 s2"
    using link_step.read_records [of 0 s1 "''n''"] by (simp add: s2_def s1_def link_init_def memory_new_view)
  have tx: "begin_promotion ?t = Inr (begin_tx ?t)"
    by (simp add: begin_tx_def begin_promotion_def demo_transition_def)
  obtain m1 out where m1: "commit_locked memory_new (begin_tx ?t) = Some (m1, Inr out)" "hard_links_served m1"
    "Some (state_snapshot m1) = run_views (\<lambda>_. ns_default) [begin_tx ?t]"
    using commit_view [OF memory_new_served, of "begin_tx ?t"] by (simp add: demo_simps) metis
  define s3 where "s3 = s2\<lparr>ls_store := m1, ls_begun := {?t}\<rparr>"
  have 3: "link_step ''n'' s2 s3"
    using link_step.begin_ok [of ?t "''n''" ns_default s2 "begin_tx ?t" m1 out] tx m1(1)
    by (simp add: s3_def s2_def s1_def link_init_def demo_transition_def ns_default_def)
  obtain m2 out2 where m2: "commit_locked m1 (commit_promotion ?t 1) = Some (m2, Inr out2)" "hard_links_served m2"
    "Some (state_snapshot m2) = run_views (state_snapshot m1) [commit_promotion ?t 1]"
    using commit_view [OF m1(2), of "commit_promotion ?t 1"] m1(3) by (simp add: demo_simps) metis
  have 4: "link_step ''n'' s3 (s3\<lparr>ls_store := m2\<rparr>)"
    using link_step.commit_promotion [of ?t s3 1 m2 "Inr out2" "''n''"] m2(1)
    by (simp add: s3_def demo_transition_def revision_next_def checked_add_def)
  have "link_reachable ''n'' (s3\<lparr>ls_store := m2\<rparr>)"
    using 1 2 3 4 unfolding link_reachable_def by (meson rtranclp.rtrancl_refl rtranclp.rtrancl_into_rtrancl)
  then show ?thesis
    using m1(3) m2(2,3) by (intro exI [of _ "s3\<lparr>ls_store := m2\<rparr>"]) (simp add: demo_simps)
qed

subsection \<open>Properties\<close>

text \<open>
  C3. Link counts are exact under concurrency. In every state that any interleaving of clients of a
  namespace can reach (reads at any time, transactions built from earlier reads, promotions
  committed with the revision their opening returned), every inode record that can be loaded counts exactly
  the paths that resolve to its inode, at least two, and every path that resolves has a record.
\<close>

theorem link_counts_exact:
  assumes "link_reachable N s"
  shows "(\<forall>i rec. load_inode (ls_store s) N i = Inr rec \<longrightarrow>
      card {p. \<exists>e. resolve_path (ls_store s) N p = Inr (Some e) \<and> pi_inode e = i} = unat (ir_link_count rec) \<and>
      2 \<le> unat (ir_link_count rec)) \<and>
    (\<forall>p e. resolve_path (ls_store s) N p = Inr (Some e) \<longrightarrow> (\<exists>rec. load_inode (ls_store s) N (pi_inode e) = Inr rec))"
proof -
  let ?n = "state_snapshot (ls_store s) N"
  have ok: "links_ok ?n" by (rule inv_links [OF link_inv_reachable [OF assms]])
  have "{p. \<exists>e. resolve_path (ls_store s) N p = Inr (Some e) \<and> pi_inode e = i} = paths_of ?n i"
    if "hard_links_served (ls_store s)" for i
    using that by (auto simp: resolve_path_snapshot paths_of_def) (metis path_index_entry.select_convs(3))
  then show ?thesis
    using ok links_okD [OF ok] by (auto simp: load_inode_snapshot resolve_path_snapshot links_ok_def word_le_nat_alt)
qed

theorem link_counts_exact_witness:
  "\<exists>s rec. link_reachable ''n'' s \<and> load_inode (ls_store s) ''n'' 7 = Inr rec \<and>
    card {p. \<exists>e. resolve_path (ls_store s) ''n'' p = Inr (Some e) \<and> pi_inode e = 7} = 2"
proof -
  obtain s where s: "link_reachable ''n'' s" "load_inode (ls_store s) ''n'' 7 =
      Inr \<lparr>ir_namespace = ''n'', ir_inode = 7, ir_link_count = 2, ir_corrupt = False\<rparr>"
    using demo_reachable by (auto simp: load_inode_snapshot)
  then show ?thesis using link_counts_exact [OF s(1)] by fastforce
qed

text \<open>
  C23. Demotion is the inverse of promotion: committing a promotion of two unmapped paths to a fresh
  inode makes both paths resolve to it with link count two, and the demotion that follows removes both
  path entries and the record, so that the path index and the inode records are those from before,
  while the mapping revision has grown by two.
\<close>

theorem demotion_inverts_promotion:
  assumes "commit_locked m0 (commit_promotion t r) = Some (m1, Inr out1)"
    and "commit_locked m1 (commit_demotion (lt_namespace t) (lt_new_path t) (lt_source_path t) (lt_inode t) r') = Some (m2, Inr out2)"
    and "ns_paths (state_snapshot m0 (lt_namespace t)) (lt_source_path t) = None"
      "ns_paths (state_snapshot m0 (lt_namespace t)) (lt_new_path t) = None"
      "ns_inodes (state_snapshot m0 (lt_namespace t)) (lt_inode t) = None"
  shows "ns_paths (state_snapshot m1 (lt_namespace t)) (lt_source_path t) = Some (lt_inode t) \<and>
    ns_paths (state_snapshot m1 (lt_namespace t)) (lt_new_path t) = Some (lt_inode t) \<and>
    map_option ir_link_count (ns_inodes (state_snapshot m1 (lt_namespace t)) (lt_inode t)) = Some 2 \<and>
    same_links (state_snapshot m2 (lt_namespace t)) (state_snapshot m0 (lt_namespace t)) \<and>
    unat (ns_mapping_revision (state_snapshot m2 (lt_namespace t))) =
      unat (ns_mapping_revision (state_snapshot m0 (lt_namespace t))) + 2"
proof -
  note p = commit_promotion_effect [OF assms(1)] and d = demotion_effect [OF assms(2)]
  have "ns_paths (state_snapshot m2 (lt_namespace t)) = ns_paths (state_snapshot m0 (lt_namespace t))"
    unfolding d(4) p(3) using assms(3,4) by (auto simp: fun_eq_iff)
  moreover have "ns_inodes (state_snapshot m2 (lt_namespace t)) = ns_inodes (state_snapshot m0 (lt_namespace t))"
    unfolding d(5) p(4) using assms(5) by (auto simp: fun_eq_iff)
  ultimately show ?thesis
    using p d revision_next_less [OF p(2)] revision_next_less [OF d(6)]
    by (auto simp: same_links_def PROMOTED_def)
qed

theorem demotion_inverts_promotion_witness:
  "\<exists>m0 m1 m2 o1 o2. commit_locked m0 (commit_promotion (demo_transition ''op1'' ''a'' ''b'' 0 7) 1) = Some (m1, Inr o1) \<and>
     commit_locked m1 (commit_demotion ''n'' ''b'' ''a'' 7 2) = Some (m2, Inr o2) \<and>
     same_links (state_snapshot m2 ''n'') (state_snapshot m0 ''n'')"
proof -
  let ?t = "demo_transition ''op1'' ''a'' ''b'' 0 7"
  obtain m0 out0 where m0: "hard_links_served m0"
    "Some (state_snapshot m0) = run_views (\<lambda>_. ns_default) [begin_tx ?t]"
    using commit_view [OF memory_new_served, of "begin_tx ?t"] by (simp add: demo_simps) metis
  obtain m1 o1 where m1: "commit_locked m0 (commit_promotion ?t 1) = Some (m1, Inr o1)" "hard_links_served m1"
    "Some (state_snapshot m1) = run_views (state_snapshot m0) [commit_promotion ?t 1]"
    using commit_view [OF m0(1), of "commit_promotion ?t 1"] m0(2) by (simp add: demo_simps) metis
  obtain m2 o2 where m2: "commit_locked m1 (commit_demotion ''n'' ''b'' ''a'' 7 2) = Some (m2, Inr o2)"
    using commit_view [OF m1(2), of "commit_demotion ''n'' ''b'' ''a'' 7 2"] m0(2) m1(3)
    by (simp add: demo_simps commit_demotion_def) metis
  have f: "lt_namespace ?t = ''n''" "lt_source_path ?t = ''a''" "lt_new_path ?t = ''b''" "lt_inode ?t = 7"
    by (simp_all add: demo_transition_def)
  have free: "ns_paths (state_snapshot m0 ''n'') ''a'' = None" "ns_paths (state_snapshot m0 ''n'') ''b'' = None"
    "ns_inodes (state_snapshot m0 ''n'') 7 = None"
    using m0(2) by (simp_all add: demo_simps)
  show ?thesis
    using demotion_inverts_promotion [of m0 ?t 1 m1 o1 2 m2 o2, unfolded f, OF m1(1) m2 free] m1(1) m2 by blast
qed

end
