(* ===== verification/Meta_Shard.thy ===== *)
theory Meta_Shard
  imports Meta_Record "HOL-Library.Product_Lexorder"
begin

text \<open>
  Write shards and their owners (\<open>crates/talon-metadata/src/shard.rs\<close>, \<open>assignment.rs\<close>) and the
  cluster's capability state (\<open>cluster.rs\<close>). The hash \<open>xxh3_64\<close> (package \<open>xxhash-rust\<close>) is the
  parameter \<open>xxh\<close>. \<open>None\<close> is a panic.
\<close>

subsection \<open>Shards\<close>

definition SHARD_SCHEME_VERSION :: u32 where "SHARD_SCHEME_VERSION = 1"
definition DEFAULT_SHARD_COUNT :: u32 where "DEFAULT_SHARD_COUNT = 4096"
definition MIN_SHARD_COUNT :: u32 where "MIN_SHARD_COUNT = 256"
definition MAX_SHARD_COUNT :: u32 where "MAX_SHARD_COUNT = 16384"

record write_identity =
  wi_namespace :: string
  wi_backend :: string
  wi_bucket :: string
  wi_object_path :: string

type_synonym write_shard = u32

record shard_config =
  sc_shard_count :: u32
  sc_salt :: u64
  sc_scheme_version :: u32

definition shard_config_new :: "u64 \<Rightarrow> shard_config" where
  "shard_config_new salt =
     \<lparr>sc_shard_count = DEFAULT_SHARD_COUNT, sc_salt = salt, sc_scheme_version = SHARD_SCHEME_VERSION\<rparr>"

definition is_power_of_two :: "u32 \<Rightarrow> bool" where
  "is_power_of_two w \<longleftrightarrow> length (filter (bit w) [0..<32]) = 1"

definition with_shard_count :: "u64 \<Rightarrow> u32 \<Rightarrow> metadata_error + shard_config" where
  "with_shard_count salt n =
     (if \<not> (MIN_SHARD_COUNT \<le> n \<and> n \<le> MAX_SHARD_COUNT)
      then Inl (InvalidRecord (''shard count '' @ decimal (unat n) @ '' is outside '' @ decimal (unat MIN_SHARD_COUNT)
             @ ''..='' @ decimal (unat MAX_SHARD_COUNT)))
      else if \<not> is_power_of_two n
      then Inl (InvalidRecord (''shard count '' @ decimal (unat n) @ '' is not a power of two''))
      else Inr \<lparr>sc_shard_count = n, sc_salt = salt, sc_scheme_version = SHARD_SCHEME_VERSION\<rparr>)"

definition length_prefixed :: "string \<Rightarrow> byte list" where
  "length_prefixed f = u64_le (of_nat (length f)) @ as_bytes f"

definition shard_encode :: "shard_config \<Rightarrow> write_identity \<Rightarrow> byte list" where
  "shard_encode cfg w =
     u32_le (sc_scheme_version cfg) @ u64_le (sc_salt cfg) @
     concat (map length_prefixed [wi_namespace w, wi_backend w, wi_bucket w, wi_object_path w])"

definition shard_for :: "(byte list \<Rightarrow> u64) \<Rightarrow> shard_config \<Rightarrow> write_identity \<Rightarrow> write_shard option" where
  "shard_for xxh cfg w =
     (if sc_shard_count cfg = 0 then None
      else Some (ucast (xxh (shard_encode cfg w) mod ucast (sc_shard_count cfg))))"

subsection \<open>Assignment\<close>

record eligible_worker =
  ew_id :: string
  ew_failure_domain :: string

type_synonym fencing_term = u64

definition term_next :: "fencing_term \<Rightarrow> fencing_term option" where
  "term_next t = checked_add t 1"

datatype shard_state = Active | Draining | Recovering | Incomplete

definition accepts_writes :: "shard_state \<Rightarrow> bool" where
  "accepts_writes s \<longleftrightarrow> s = Active"

definition shard_is_retryable :: "shard_state \<Rightarrow> bool" where
  "shard_is_retryable s \<longleftrightarrow> s = Recovering \<or> s = Draining"

record desired_assignment =
  da_shard :: write_shard
  da_primary :: string
  da_replicas :: "string list"

record write_shard_descriptor =
  wd_shard :: write_shard
  wd_term :: fencing_term
  wd_state :: shard_state
  wd_owner :: string
  wd_owner_incarnation :: string
  wd_previous_acting_set :: "string list"
  wd_acting_set :: "string list"
  wd_replication_factor :: u8
  wd_write_quorum :: u8

definition descriptor_recovery_quorum :: "write_shard_descriptor \<Rightarrow> u8" where
  "descriptor_recovery_quorum d = wd_replication_factor d - wd_write_quorum d + 1"

definition accepts_term :: "write_shard_descriptor \<Rightarrow> fencing_term \<Rightarrow> bool" where
  "accepts_term d t \<longleftrightarrow> t \<ge> wd_term d"

definition PLACEMENT_SCHEME :: u32 where "PLACEMENT_SCHEME = 1"

definition score :: "(byte list \<Rightarrow> u64) \<Rightarrow> write_shard \<Rightarrow> string \<Rightarrow> u64" where
  "score xxh shard worker_id =
     xxh (u32_le PLACEMENT_SCHEME @ u32_le shard @ u64_le (of_nat (length worker_id)) @ as_bytes worker_id)"

text \<open>The order of \<open>sort_by\<close>: larger score first, then smaller id. The sort is stable.\<close>

definition score_key :: "u64 \<times> eligible_worker \<Rightarrow> nat \<times> string" where
  "score_key sw = (2 ^ 64 - unat (fst sw), ew_id (snd sw))"

definition scored_workers :: "(byte list \<Rightarrow> u64) \<Rightarrow> write_shard \<Rightarrow> eligible_worker list \<Rightarrow> (u64 \<times> eligible_worker) list" where
  "scored_workers xxh shard workers = sort_key score_key (map (\<lambda>w. (score xxh shard (ew_id w), w)) workers)"

text \<open>The loop over the other workers, with the domains used and the replicas chosen so far.\<close>

primrec pick_replicas :: "nat \<Rightarrow> string list \<Rightarrow> string list \<Rightarrow> eligible_worker list \<Rightarrow> string list" where
  "pick_replicas rf domains replicas [] = replicas"
| "pick_replicas rf domains replicas (w # ws) =
     (if length replicas + 1 \<ge> rf then replicas
      else if ew_failure_domain w \<in> set domains then pick_replicas rf domains replicas ws
      else pick_replicas rf (domains @ [ew_failure_domain w]) (replicas @ [ew_id w]) ws)"

definition rank_shard ::
  "(byte list \<Rightarrow> u64) \<Rightarrow> write_shard \<Rightarrow> eligible_worker list \<Rightarrow> u8 \<Rightarrow> metadata_error + desired_assignment" where
  "rank_shard xxh shard workers replication_factor =
     (if workers = [] then Inl (InvalidRecord (''no eligible workers for shard '' @ decimal (unat shard)))
      else
        let scored = map snd (scored_workers xxh shard workers);
            first = hd scored;
            replicas = pick_replicas (unat replication_factor) [ew_failure_domain first] [] (tl scored)
        in if length replicas + 1 < unat replication_factor
           then Inl (InvalidRecord (''shard '' @ decimal (unat shard) @ '' needs '' @ decimal (unat replication_factor)
                  @ '' failure domains, found '' @ decimal (length replicas + 1)))
           else Inr \<lparr>da_shard = shard, da_primary = ew_id first, da_replicas = replicas\<rparr>)"

definition propose_transfer ::
  "write_shard_descriptor \<Rightarrow> desired_assignment \<Rightarrow> string \<Rightarrow> shard_state \<Rightarrow> write_shard_descriptor option" where
  "propose_transfer current desired new_owner_incarnation st =
     (case term_next (wd_term current) of None \<Rightarrow> None
      | Some t \<Rightarrow> Some
         \<lparr>wd_shard = wd_shard current, wd_term = t, wd_state = st, wd_owner = da_primary desired,
          wd_owner_incarnation = new_owner_incarnation, wd_previous_acting_set = wd_acting_set current,
          wd_acting_set = da_primary desired # da_replicas desired,
          wd_replication_factor = wd_replication_factor current, wd_write_quorum = wd_write_quorum current\<rparr>)"

subsection \<open>Cluster capabilities\<close>

type_synonym capability_revision = u64

definition capability_revision_next :: "capability_revision \<Rightarrow> capability_revision option" where
  "capability_revision_next r = checked_add r 1"

record cluster_capabilities =
  cc_advertised :: capability_set
  cc_revision :: capability_revision
  cc_store_reachable :: bool

datatype capability_state = Available | NotOffered | Unreachable

definition cluster_none :: cluster_capabilities where
  "cluster_none = \<lparr>cc_advertised = caps_none, cc_revision = 0, cc_store_reachable = True\<rparr>"

definition state_of :: "cluster_capabilities \<Rightarrow> capability \<Rightarrow> capability_state" where
  "state_of c cap =
     (if \<not> supports (cc_advertised c) cap then NotOffered
      else if cc_store_reachable c then Available else Unreachable)"

definition is_available :: "cluster_capabilities \<Rightarrow> capability \<Rightarrow> bool" where
  "is_available c cap \<longleftrightarrow> state_of c cap = Available"

subsection \<open>Lemmas: shards\<close>

lemma length_prefixed_inject:
  assumes "length a < 2 ^ 64" "length b < 2 ^ 64" "length_prefixed a @ x = length_prefixed b @ y"
  shows "a = b \<and> x = y"
proof -
  have eq: "u64_le (of_nat (length a)) = u64_le (of_nat (length b))" "as_bytes a @ x = as_bytes b @ y"
    using assms(3) by (auto simp: length_prefixed_def append_eq_append_conv)
  then have "unat (of_nat (length a) :: u64) = unat (of_nat (length b) :: u64)" by simp
  then have "length (as_bytes a) = length (as_bytes b)" using assms(1,2) by (simp add: unat_of_nat)
  with eq(2) show ?thesis by simp
qed

lemma concat_length_prefixed_inject:
  "\<lbrakk>length xs = length ys; \<forall>f \<in> set xs \<union> set ys. length f < 2 ^ 64;
    concat (map length_prefixed xs) = concat (map length_prefixed ys)\<rbrakk> \<Longrightarrow> xs = ys"
proof (induction xs ys rule: list_induct2)
  case Nil
  then show ?case by simp
next
  case (Cons x xs y ys)
  then have "x = y \<and> concat (map length_prefixed xs) = concat (map length_prefixed ys)"
    by (intro length_prefixed_inject) auto
  with Cons show ?case by auto
qed

definition identity_lengths_ok :: "write_identity \<Rightarrow> bool" where
  "identity_lengths_ok w \<longleftrightarrow> (\<forall>f \<in> {wi_namespace w, wi_backend w, wi_bucket w, wi_object_path w}. length f < 2 ^ 64)"

lemma shard_encode_inject:
  assumes "identity_lengths_ok v" "identity_lengths_ok w"
  shows "shard_encode cfg v = shard_encode cfg' w \<longleftrightarrow>
    v = w \<and> sc_salt cfg = sc_salt cfg' \<and> sc_scheme_version cfg = sc_scheme_version cfg'"
proof
  assume "shard_encode cfg v = shard_encode cfg' w"
  then have *: "sc_salt cfg = sc_salt cfg'" "sc_scheme_version cfg = sc_scheme_version cfg'"
    "concat (map length_prefixed [wi_namespace v, wi_backend v, wi_bucket v, wi_object_path v]) =
     concat (map length_prefixed [wi_namespace w, wi_backend w, wi_bucket w, wi_object_path w])"
    by (auto simp: shard_encode_def append_eq_append_conv simp del: concat.simps list.map)
  have "[wi_namespace v, wi_backend v, wi_bucket v, wi_object_path v] =
      [wi_namespace w, wi_backend w, wi_bucket w, wi_object_path w]"
    using assms by (intro concat_length_prefixed_inject [OF _ _ *(3)]) (auto simp: identity_lengths_ok_def)
  then show "v = w \<and> sc_salt cfg = sc_salt cfg' \<and> sc_scheme_version cfg = sc_scheme_version cfg'"
    using * by simp
qed (simp add: shard_encode_def)

lemma shard_for_bound:
  assumes "sc_shard_count cfg \<noteq> 0"
  shows "\<exists>s. shard_for xxh cfg w = Some s \<and> s < sc_shard_count cfg"
proof -
  let ?c = "sc_shard_count cfg" and ?d = "xxh (shard_encode cfg w)"
  have "unat (?d mod ucast ?c) = unat ?d mod unat ?c" by (simp add: unat_mod)
  moreover have "unat ?d mod unat ?c < unat ?c" using assms by (simp add: unat_gt_0)
  ultimately have "unat (ucast (?d mod ucast ?c) :: u32) < unat ?c"
    using unat_u32_less [of ?c] by (simp add: unat_ucast_64_32)
  then show ?thesis using assms by (simp add: shard_for_def word_less_nat_alt)
qed

subsection \<open>Lemmas: ranking\<close>

lemma pick_replicas_spec:
  "\<exists>sel. pick_replicas rf D R ws = R @ map ew_id sel \<and> subseq sel ws \<and> distinct (map ew_failure_domain sel) \<and>
     ew_failure_domain ` set sel \<inter> set D = {} \<and>
     length R + 1 + length sel = max (length R + 1) (min rf (length R + 1 + card (ew_failure_domain ` set ws - set D)))"
proof (induction ws arbitrary: D R)
  case Nil
  then show ?case by simp
next
  case (Cons w ws)
  let ?fd = ew_failure_domain
  consider (full) "rf \<le> length R + 1" | (used) "length R + 1 < rf" "?fd w \<in> set D" | (new) "length R + 1 < rf" "?fd w \<notin> set D"
    by linarith
  then show ?case
  proof cases
    case full
    then show ?thesis by simp
  next
    case used
    have "?fd ` set (w # ws) - set D = ?fd ` set ws - set D" using used by auto
    then show ?thesis using used Cons.IH [of D R] by auto
  next
    case new
    obtain sel where sel: "pick_replicas rf (D @ [?fd w]) (R @ [ew_id w]) ws = (R @ [ew_id w]) @ map ew_id sel" "subseq sel ws"
      "distinct (map ?fd sel)" "?fd ` set sel \<inter> set (D @ [?fd w]) = {}"
      "length R + 2 + length sel = max (length R + 2) (min rf (length R + 2 + card (?fd ` set ws - set (D @ [?fd w]))))"
      using Cons.IH [of "D @ [?fd w]" "R @ [ew_id w]"] by auto
    have "?fd ` set (w # ws) - set D = insert (?fd w) (?fd ` set ws - set (D @ [?fd w]))" using new by auto
    then have "card (?fd ` set (w # ws) - set D) = Suc (card (?fd ` set ws - set (D @ [?fd w])))" by simp
    moreover have "?fd w \<notin> ?fd ` set sel" "?fd ` set sel \<inter> set D = {}" using sel(4) by auto
    ultimately show ?thesis
      using new sel(1,2,3,5) by (intro exI [of _ "w # sel"]) (simp add: image_iff)
  qed
qed

lemma set_scored [simp]: "set (map snd (scored_workers xxh shard ws)) = set ws"
  by (simp add: scored_workers_def image_image)

lemma scored_Nil [simp]: "scored_workers xxh shard ws = [] \<longleftrightarrow> ws = []"
proof -
  have "length (scored_workers xxh shard ws) = length ws" by (simp add: scored_workers_def)
  then show ?thesis by (metis length_0_conv)
qed

lemma rank_shard_spec:
  fixes xxh :: "byte list \<Rightarrow> u64" and shard :: write_shard
  assumes "workers \<noteq> []"
  defines "ranked \<equiv> map snd (scored_workers xxh shard workers)"
  defines "domains \<equiv> card (ew_failure_domain ` set workers)"
  shows "if domains < unat rf
    then rank_shard xxh shard workers rf = Inl (InvalidRecord (''shard '' @ decimal (unat shard) @ '' needs ''
           @ decimal (unat rf) @ '' failure domains, found '' @ decimal domains))
    else \<exists>chosen. rank_shard xxh shard workers rf =
            Inr \<lparr>da_shard = shard, da_primary = ew_id (hd ranked), da_replicas = map ew_id (tl chosen)\<rparr> \<and>
          chosen \<noteq> [] \<and> hd chosen = hd ranked \<and> subseq chosen ranked \<and> distinct (map ew_failure_domain chosen) \<and>
          length chosen = max 1 (unat rf)"
proof -
  let ?fd = ew_failure_domain
  have ne: "ranked \<noteq> []" using assms(1) by (simp add: ranked_def)
  then have split: "ranked = hd ranked # tl ranked" by simp
  obtain sel where sel: "pick_replicas (unat rf) [?fd (hd ranked)] [] (tl ranked) = map ew_id sel" "subseq sel (tl ranked)"
    "distinct (map ?fd sel)" "?fd ` set sel \<inter> {?fd (hd ranked)} = {}"
    "1 + length sel = max 1 (min (unat rf) (1 + card (?fd ` set (tl ranked) - {?fd (hd ranked)})))"
    using pick_replicas_spec [of "unat rf" "[?fd (hd ranked)]" "[]" "tl ranked"] by auto
  have "?fd ` set workers = ?fd ` set (hd ranked # tl ranked)"
    using set_scored [of xxh shard workers] split by (simp add: ranked_def)
  then have "domains = 1 + card (?fd ` set (tl ranked) - {?fd (hd ranked)})"
    unfolding domains_def by (simp add: card.insert_remove)
  then have len: "1 + length sel = max 1 (min (unat rf) domains)" using sel(5) by simp
  have "subseq (hd ranked # sel) ranked" using sel(2) by (subst split) simp
  moreover have "distinct (map ?fd (hd ranked # sel))" using sel(3,4) by auto
  moreover have rank: "rank_shard xxh shard workers rf =
      (if length sel + 1 < unat rf
       then Inl (InvalidRecord (''shard '' @ decimal (unat shard) @ '' needs ''
           @ decimal (unat rf) @ '' failure domains, found '' @ decimal (length sel + 1)))
       else Inr \<lparr>da_shard = shard, da_primary = ew_id (hd ranked), da_replicas = map ew_id sel\<rparr>)"
    using assms(1) sel(1) by (simp add: rank_shard_def Let_def ranked_def [symmetric])
  moreover have pos: "0 < domains" using \<open>domains = _\<close> by simp
  ultimately show ?thesis
  proof (cases "domains < unat rf")
    case True
    then have "length sel + 1 = domains" using len pos by simp
    then show ?thesis using True rank by simp
  next
    case False
    then have "length (hd ranked # sel) = max 1 (unat rf)" using len by simp
    then show ?thesis
      using False rank \<open>subseq (hd ranked # sel) ranked\<close> \<open>distinct (map ?fd (hd ranked # sel))\<close>
      by (intro if_not_P [THEN iffD2] exI [of _ "hd ranked # sel"]) (simp_all del: distinct.simps)
  qed
qed

lemma score_key_inj: "distinct (map ew_id workers) \<Longrightarrow> inj_on score_key ((\<lambda>w. (score xxh shard (ew_id w), w)) ` set workers)"
  by (auto simp: inj_on_def score_key_def distinct_map)

lemma scored_perm:
  assumes "mset ws = mset ws'" "distinct (map ew_id ws)"
  shows "scored_workers xxh shard ws = scored_workers xxh shard ws'"
  unfolding scored_workers_def
  using assms score_key_inj [OF assms(2)] by (intro sort_key_inj_key_eq) (auto simp: mset_map)

lemma rank_shard_perm:
  assumes "mset ws = mset ws'" "distinct (map ew_id ws)"
  shows "rank_shard xxh shard ws rf = rank_shard xxh shard ws' rf"
  using scored_perm [OF assms] assms(1) by (auto simp: rank_shard_def)

text \<open>The first worker in the ranking: the one with the least key.\<close>

definition best_worker :: "(byte list \<Rightarrow> u64) \<Rightarrow> write_shard \<Rightarrow> eligible_worker list \<Rightarrow> eligible_worker" where
  "best_worker xxh shard ws = hd (map snd (scored_workers xxh shard ws))"

definition worker_key :: "(byte list \<Rightarrow> u64) \<Rightarrow> write_shard \<Rightarrow> eligible_worker \<Rightarrow> nat \<times> string" where
  "worker_key xxh shard w = score_key (score xxh shard (ew_id w), w)"

lemma sorted_hd_le: "sorted (map f xs) \<Longrightarrow> x \<in> set xs \<Longrightarrow> f (hd xs) \<le> f x"
  by (cases xs) auto

lemma best_worker_least:
  assumes "ws \<noteq> []"
  shows "best_worker xxh shard ws \<in> set ws \<and> (\<forall>v \<in> set ws. worker_key xxh shard (best_worker xxh shard ws) \<le> worker_key xxh shard v)"
proof -
  let ?xs = "scored_workers xxh shard ws"
  have ne: "?xs \<noteq> []" using assms by simp
  have form: "x = (score xxh shard (ew_id (snd x)), snd x)" if "x \<in> set ?xs" for x
    using that by (auto simp: scored_workers_def)
  have "hd ?xs \<in> set ?xs" using ne by simp
  then have b: "best_worker xxh shard ws = snd (hd ?xs)" "hd ?xs = (score xxh shard (ew_id (snd (hd ?xs))), snd (hd ?xs))"
    using form ne by (auto simp: best_worker_def hd_map)
  have le: "score_key (hd ?xs) \<le> score_key x" if "x \<in> set ?xs" for x
    using that by (intro sorted_hd_le) (simp_all add: scored_workers_def)
  have "worker_key xxh shard (best_worker xxh shard ws) = score_key (hd ?xs)"
    by (simp only: worker_key_def b(1) b(2) [symmetric])
  moreover have "\<exists>x \<in> set ?xs. score_key x = worker_key xxh shard v" if "v \<in> set ws" for v
    using that by (auto simp: scored_workers_def worker_key_def)
  ultimately have "\<forall>v \<in> set ws. worker_key xxh shard (best_worker xxh shard ws) \<le> worker_key xxh shard v"
    using le by metis
  moreover have "best_worker xxh shard ws \<in> set ws"
    using b(1) \<open>hd ?xs \<in> set ?xs\<close> by (auto simp: scored_workers_def)
  ultimately show ?thesis by blast
qed

lemma best_worker_unique:
  assumes "distinct (map ew_id ws)" "w \<in> set ws" "\<forall>v \<in> set ws. worker_key xxh shard w \<le> worker_key xxh shard v"
  shows "best_worker xxh shard ws = w"
proof -
  have "ws \<noteq> []" using assms(2) by auto
  note b = best_worker_least [OF this, of xxh shard]
  have "worker_key xxh shard (best_worker xxh shard ws) = worker_key xxh shard w" using b assms(2,3) by (auto intro: order_antisym)
  then have "ew_id (best_worker xxh shard ws) = ew_id w" by (simp add: worker_key_def score_key_def)
  then show ?thesis using b assms(1,2) by (auto simp: distinct_map inj_on_def)
qed

lemma best_worker_removal:
  assumes "distinct (map ew_id ws)" "ws \<noteq> []" "ew_id (best_worker xxh shard ws) \<noteq> x"
  shows "best_worker xxh shard (filter (\<lambda>w. ew_id w \<noteq> x) ws) = best_worker xxh shard ws"
  using best_worker_least [OF assms(2), of xxh shard] assms(1,3)
  by (intro best_worker_unique) (auto simp: distinct_map_filter)

subsection \<open>Properties\<close>

text \<open>
  C29. Routing a write is total and unambiguous: a configuration accepted for a shard count maps every
  identity to a shard below that count, whatever the hash, and the bytes hashed determine the identity
  (fields shorter than \<open>2^64\<close> bytes), the salt and the scheme version.
\<close>

theorem shard_routing:
  assumes "with_shard_count salt n = Inr cfg" "identity_lengths_ok v" "identity_lengths_ok w"
  shows "(\<exists>s. shard_for xxh cfg v = Some s \<and> s < n) \<and>
    (shard_encode cfg v = shard_encode cfg' w \<longleftrightarrow>
      v = w \<and> salt = sc_salt cfg' \<and> SHARD_SCHEME_VERSION = sc_scheme_version cfg')"
proof -
  have cfg: "cfg = \<lparr>sc_shard_count = n, sc_salt = salt, sc_scheme_version = SHARD_SCHEME_VERSION\<rparr>" "MIN_SHARD_COUNT \<le> n"
    using assms(1) by (auto simp: with_shard_count_def split: if_splits)
  then have "n \<noteq> 0" by (auto simp: MIN_SHARD_COUNT_def)
  then show ?thesis
    using shard_for_bound [of cfg xxh v] shard_encode_inject [OF assms(2,3), of cfg cfg'] cfg(1) by simp
qed

theorem shard_routing_witness:
  "\<exists>cfg s. with_shard_count 5 512 = Inr cfg \<and>
     shard_for (\<lambda>bs. of_nat (length bs)) cfg \<lparr>wi_namespace = ''n'', wi_backend = ''s3'', wi_bucket = ''b'', wi_object_path = ''k''\<rparr> = Some s \<and> s < 512"
proof -
  have c: "with_shard_count 5 512 = Inr \<lparr>sc_shard_count = 512, sc_salt = 5, sc_scheme_version = 1\<rparr>"
    by code_simp
  show ?thesis
    using shard_routing [OF c, of "\<lparr>wi_namespace = ''n'', wi_backend = ''s3'', wi_bucket = ''b'', wi_object_path = ''k''\<rparr>"
        "\<lparr>wi_namespace = ''n'', wi_backend = ''s3'', wi_bucket = ''b'', wi_object_path = ''k''\<rparr>" "\<lambda>bs. of_nat (length bs)"] c
    by (auto simp: identity_lengths_ok_def)
qed

text \<open>
  C24. Ranking a shard over a non-empty list of workers picks replicas in distinct failure domains: it fails exactly when the workers span
  fewer domains than the replication factor, reporting how many there are; otherwise it returns the
  best-scored worker as primary and replicas taken in score order, all in pairwise different failure
  domains, as many as the replication factor asks for (at least the primary).
\<close>

theorem rank_shard_separates_domains:
  assumes "workers \<noteq> []"
  shows "if card (ew_failure_domain ` set workers) < unat rf
    then rank_shard xxh shard workers rf = Inl (InvalidRecord (''shard '' @ decimal (unat shard) @ '' needs ''
           @ decimal (unat rf) @ '' failure domains, found '' @ decimal (card (ew_failure_domain ` set workers))))
    else \<exists>chosen da. rank_shard xxh shard workers rf = Inr da \<and> da_shard da = shard \<and>
          da_primary da # da_replicas da = map ew_id chosen \<and>
          subseq chosen (map snd (scored_workers xxh shard workers)) \<and> distinct (map ew_failure_domain chosen) \<and>
          length chosen = max 1 (unat rf) \<and>
          (\<forall>w \<in> set workers. score xxh shard (ew_id w) \<le> score xxh shard (da_primary da))"
proof (cases "card (ew_failure_domain ` set workers) < unat rf")
  case True
  then show ?thesis using rank_shard_spec [OF assms, of rf xxh shard] by simp
next
  case False
  let ?ranked = "map snd (scored_workers xxh shard workers)"
  obtain chosen where c: "rank_shard xxh shard workers rf =
      Inr \<lparr>da_shard = shard, da_primary = ew_id (hd ?ranked), da_replicas = map ew_id (tl chosen)\<rparr>"
    "chosen \<noteq> []" "hd chosen = hd ?ranked" "subseq chosen ?ranked" "distinct (map ew_failure_domain chosen)"
    "length chosen = max 1 (unat rf)"
    using rank_shard_spec [OF assms, of rf xxh shard] False by auto
  have "score xxh shard (ew_id w) \<le> score xxh shard (ew_id (hd ?ranked))" if "w \<in> set workers" for w
    using best_worker_least [OF assms, of xxh shard] that unat_u64_less [of "score xxh shard (ew_id w)"]
    by (fastforce simp: best_worker_def worker_key_def score_key_def less_eq_prod_def word_le_nat_alt)
  moreover have "ew_id (hd ?ranked) # map ew_id (tl chosen) = map ew_id chosen"
    using c(2,3) by (cases chosen) simp_all
  ultimately show ?thesis using False c by auto
qed

theorem rank_shard_separates_domains_witness:
  "\<exists>da. rank_shard (\<lambda>bs. of_nat (length bs)) 3 [\<lparr>ew_id = ''a'', ew_failure_domain = ''z1''\<rparr>, \<lparr>ew_id = ''bb'', ew_failure_domain = ''z2''\<rparr>] 2 = Inr da \<and>
     length (da_primary da # da_replicas da) = 2"
proof -
  let ?ws = "[\<lparr>ew_id = ''a'', ew_failure_domain = ''z1''\<rparr>, \<lparr>ew_id = ''bb'', ew_failure_domain = ''z2''\<rparr>]"
  have "\<not> card (ew_failure_domain ` set ?ws) < unat (2 :: u8)" by simp
  then show ?thesis
    using rank_shard_separates_domains [of ?ws 2 "\<lambda>bs. of_nat (length bs)" 3] by auto
qed

text \<open>
  C27. Ranking is stable for workers with distinct ids: where it succeeds, it does not depend on the order of the
  worker list, and removing a worker that is not the primary leaves the primary of the shard where it was, if
  the remaining workers can still be ranked (rendezvous hashing).
\<close>

theorem rank_shard_stable:
  assumes "distinct (map ew_id workers)" "rank_shard xxh shard workers rf = Inr da" "x \<noteq> da_primary da"
    "mset workers' = mset workers" "rank_shard xxh shard (filter (\<lambda>w. ew_id w \<noteq> x) workers) rf' = Inr da'"
  shows "rank_shard xxh shard workers' rf = Inr da \<and> da_primary da' = da_primary da"
proof -
  have prim: "da_primary d = ew_id (best_worker xxh shard ws)" "ws \<noteq> []"
    if "rank_shard xxh shard ws r = Inr d" for d ws r
    using that by (auto simp: rank_shard_def best_worker_def Let_def split: if_splits)
  have "best_worker xxh shard (filter (\<lambda>w. ew_id w \<noteq> x) workers) = best_worker xxh shard workers"
    using best_worker_removal [OF assms(1)] prim [OF assms(2)] assms(3) by metis
  then have "da_primary da' = da_primary da" using prim(1) [OF assms(2)] prim(1) [OF assms(5)] by simp
  moreover have "rank_shard xxh shard workers' rf = Inr da"
    using rank_shard_perm [OF assms(4) [symmetric] assms(1), of xxh shard rf] assms(2) by simp
  ultimately show ?thesis by blast
qed

theorem rank_shard_stable_witness:
  "rank_shard (\<lambda>bs. of_nat (length bs)) 3 [\<lparr>ew_id = ''bb'', ew_failure_domain = ''z2''\<rparr>, \<lparr>ew_id = ''a'', ew_failure_domain = ''z1''\<rparr>] 1 =
   Inr \<lparr>da_shard = 3, da_primary = ''bb'', da_replicas = []\<rparr>"
proof -
  let ?ws = "[\<lparr>ew_id = ''a'', ew_failure_domain = ''z1''\<rparr>, \<lparr>ew_id = ''bb'', ew_failure_domain = ''z2''\<rparr>]"
  have 1: "rank_shard (\<lambda>bs. of_nat (length bs)) 3 ?ws 1 = Inr \<lparr>da_shard = 3, da_primary = ''bb'', da_replicas = []\<rparr>"
    by (simp add: rank_shard_def scored_workers_def score_def score_key_def Let_def)
  have 2: "rank_shard (\<lambda>bs. of_nat (length bs)) 3 (filter (\<lambda>w. ew_id w \<noteq> ''a'') ?ws) 1 =
      Inr \<lparr>da_shard = 3, da_primary = ''bb'', da_replicas = []\<rparr>"
    by (simp add: rank_shard_def scored_workers_def score_def score_key_def Let_def)
  show ?thesis
    using rank_shard_stable [OF _ 1 _ _ 2, of "[\<lparr>ew_id = ''bb'', ew_failure_domain = ''z2''\<rparr>, \<lparr>ew_id = ''a'', ew_failure_domain = ''z1''\<rparr>]"]
    by (simp add: add_mset_commute)
qed

text \<open>
  C28. A transfer of ownership fences the old owner: unless the term would overflow, the proposed
  descriptor has the next term, so it accepts its own term and refuses every term up to the current one,
  its acting set is the desired primary followed by the replicas, and the acting set before the
  transfer is kept for recovery.
\<close>

theorem transfer_fences_old_term:
  "(propose_transfer d desired incarnation st = None \<longleftrightarrow> wd_term d = - 1) \<and>
   (\<forall>d'. propose_transfer d desired incarnation st = Some d' \<longrightarrow>
      unat (wd_term d') = unat (wd_term d) + 1 \<and> accepts_term d' (wd_term d') \<and>
      (\<forall>t. t \<le> wd_term d \<longrightarrow> \<not> accepts_term d' t) \<and>
      wd_owner d' = da_primary desired \<and> wd_acting_set d' = da_primary desired # da_replicas desired \<and>
      wd_previous_acting_set d' = wd_acting_set d)"
proof -
  have "checked_add (wd_term d) 1 = None \<longleftrightarrow> wd_term d = - 1"
  proof -
    have "unat (wd_term d) + 1 < 2 ^ 64 \<longleftrightarrow> unat (wd_term d) \<noteq> unat (- 1 :: u64)"
      using unat_u64_less [of "wd_term d"] by (auto simp: unat_max_word)
    then show ?thesis by (simp add: checked_add_def word_unat_eq_iff)
  qed
  moreover have "\<not> t' \<le> t" if "checked_add (wd_term d) 1 = Some t'" "t \<le> wd_term d" for t t'
    using checked_add_unat [OF that(1)] that(2) by (simp add: word_le_nat_alt)
  ultimately show ?thesis
    by (auto simp: propose_transfer_def term_next_def accepts_term_def checked_add_unat split: option.splits)
qed

theorem transfer_fences_old_term_witness:
  "\<exists>d'. propose_transfer \<lparr>wd_shard = 1, wd_term = 4, wd_state = Active, wd_owner = ''a'', wd_owner_incarnation = ''1'',
      wd_previous_acting_set = [], wd_acting_set = [''a''], wd_replication_factor = 1, wd_write_quorum = 1\<rparr>
      \<lparr>da_shard = 1, da_primary = ''b'', da_replicas = []\<rparr> ''2'' Active = Some d' \<and> \<not> accepts_term d' 4 \<and> wd_owner d' = ''b''"
proof -
  let ?d = "\<lparr>wd_shard = 1, wd_term = 4, wd_state = Active, wd_owner = ''a'', wd_owner_incarnation = ''1'',
      wd_previous_acting_set = [], wd_acting_set = [''a''], wd_replication_factor = 1, wd_write_quorum = 1\<rparr>"
    and ?a = "\<lparr>da_shard = 1, da_primary = ''b'', da_replicas = []\<rparr>"
  note t = transfer_fences_old_term [of ?d ?a "''2''" Active]
  have "propose_transfer ?d ?a ''2'' Active \<noteq> None"
    by (simp add: propose_transfer_def term_next_def checked_add_def)
  then obtain d' where "propose_transfer ?d ?a ''2'' Active = Some d'" by blast
  then show ?thesis using t by auto
qed

end
