(* ===== verification/Meta_Recovery.thy ===== *)
theory Meta_Recovery
  imports Meta_Shard
begin

text \<open>
  Recovery of a write shard from the manifests of its replicas and the handoff of ownership
  (\<open>crates/talon-metadata/src/recovery.rs\<close>), the decisions of the inode scrubber (\<open>scrub.rs\<close>) and
  the flush policy with its backoff (\<open>flush.rs\<close>). A \<open>Duration\<close> is a number of nanoseconds.
\<close>

subsection \<open>Mutations and manifests\<close>

datatype mutation_id = MutationId (mut_term: fencing_term) (mut_sequence: u64)

instantiation mutation_id :: linorder
begin

definition less_eq_mutation_id :: "mutation_id \<Rightarrow> mutation_id \<Rightarrow> bool" where
  "less_eq_mutation_id a b \<longleftrightarrow> mut_term a < mut_term b \<or> mut_term a = mut_term b \<and> mut_sequence a \<le> mut_sequence b"

definition less_mutation_id :: "mutation_id \<Rightarrow> mutation_id \<Rightarrow> bool" where
  "less_mutation_id a b \<longleftrightarrow> mut_term a < mut_term b \<or> mut_term a = mut_term b \<and> mut_sequence a < mut_sequence b"

instance
  by intro_classes (auto simp: less_eq_mutation_id_def less_mutation_id_def mutation_id.expand)

end

datatype mutation_state = Prepared | MutCommitted | Flushed

definition survives_recovery :: "mutation_state \<Rightarrow> bool" where
  "survives_recovery s \<longleftrightarrow> s = MutCommitted \<or> s = Flushed"

record manifest_entry =
  me_object :: string
  me_mutation :: mutation_id
  me_state :: mutation_state
  me_payload_verified :: bool

record manifest_response =
  mr_replica :: string
  mr_entries :: "manifest_entry list"

datatype recovery_failure =
    QuorumNotMet nat nat
  | PayloadUnavailable string
  | DeadlineExceeded string

datatype recovery_outcome = Recovered "manifest_entry list" | RecoveryIncomplete recovery_failure

definition resulting_state :: "recovery_outcome \<Rightarrow> shard_state" where
  "resulting_state r = (case r of Recovered _ \<Rightarrow> Active | RecoveryIncomplete _ \<Rightarrow> Incomplete)"

definition recovery_quorum :: "u8 \<Rightarrow> u8 \<Rightarrow> u8" where
  "recovery_quorum replication_factor write_quorum = replication_factor - write_quorum + 1"

subsection \<open>Recovery\<close>

definition supersedes :: "manifest_entry \<Rightarrow> manifest_entry \<Rightarrow> bool" where
  "supersedes e current \<longleftrightarrow> me_mutation e > me_mutation current \<or>
     me_mutation e = me_mutation current \<and> me_payload_verified e \<and> \<not> me_payload_verified current"

text \<open>The body of the inner loop: replace the first winner for the same object, or append.\<close>

primrec merge_entry :: "manifest_entry \<Rightarrow> manifest_entry list \<Rightarrow> manifest_entry list" where
  "merge_entry e [] = [e]"
| "merge_entry e (w # ws) =
     (if me_object w = me_object e then (if supersedes e w then e else w) # ws else w # merge_entry e ws)"

definition consider_entry :: "manifest_entry list \<Rightarrow> manifest_entry \<Rightarrow> manifest_entry list" where
  "consider_entry winners e = (if survives_recovery (me_state e) then merge_entry e winners else winners)"

definition collect_winners :: "manifest_response list \<Rightarrow> manifest_entry list" where
  "collect_winners responses = foldl (\<lambda>ws r. foldl consider_entry ws (mr_entries r)) [] responses"

definition recover :: "manifest_response list \<Rightarrow> u8 \<Rightarrow> u8 \<Rightarrow> recovery_outcome" where
  "recover responses replication_factor write_quorum =
     (let required = unat (recovery_quorum replication_factor write_quorum) in
      if length responses < required then RecoveryIncomplete (QuorumNotMet (length responses) required)
      else
        let winners = collect_winners responses in
        case find (\<lambda>e. \<not> me_payload_verified e) winners of
          Some missing \<Rightarrow> RecoveryIncomplete (PayloadUnavailable (me_object missing))
        | None \<Rightarrow> Recovered (sort_key me_object winners))"

definition secs :: "nat \<Rightarrow> nat" where "secs n = n * 10 ^ 9"
definition millis :: "nat \<Rightarrow> nat" where "millis n = n * 10 ^ 6"

definition UNHEALTHY_AFTER :: nat where "UNHEALTHY_AFTER = secs 15"
definition MANIFEST_COLLECTION :: nat where "MANIFEST_COLLECTION = secs 10"
definition REPAIR_PROGRESS :: nat where "REPAIR_PROGRESS = secs 30"
definition RECOVERY_TOTAL :: nat where "RECOVERY_TOTAL = secs 120"
definition CLIENT_RETRY :: nat where "CLIENT_RETRY = secs 30"

definition deadline_exceeded :: "nat \<Rightarrow> nat \<Rightarrow> bool \<Rightarrow> string option" where
  "deadline_exceeded since_recovering since_progress manifests_collected =
     (if since_recovering > RECOVERY_TOTAL then Some ''recovery_total''
      else if \<not> manifests_collected \<and> since_recovering > MANIFEST_COLLECTION then Some ''manifest_collection''
      else if since_progress > REPAIR_PROGRESS then Some ''repair_progress''
      else None)"

definition may_start_recovery :: "bool \<Rightarrow> bool" where
  "may_start_recovery has_fresh_membership_snapshot = has_fresh_membership_snapshot"

datatype handoff_step = MarkDraining | TransferDirtySet | QuiesceAndCopyTail | CommitOwnership | Activate

definition HANDOFF_ORDER :: "handoff_step list" where
  "HANDOFF_ORDER = [MarkDraining, TransferDirtySet, QuiesceAndCopyTail, CommitOwnership, Activate]"

definition old_owner_still_serves :: "handoff_step \<Rightarrow> bool" where
  "old_owner_still_serves s \<longleftrightarrow> s = MarkDraining \<or> s = TransferDirtySet"

subsection \<open>The scrubber\<close>

record observation =
  so_inode :: inode_number
  so_object_present :: bool
  so_recorded_link_count :: "link_count option"
  so_path_references :: u64
  so_live_transition :: bool
  so_previously_unreferenced :: bool
  so_grace_elapsed :: bool

datatype repair =
    RepairNone
  | DeferToTransition
  | Quarantine inode_number
  | DeleteQuarantined inode_number
  | RepairLinkCount inode_number link_count
  | MarkCorrupt inode_number u64
  | RequiresOperator inode_number string

definition is_destructive :: "repair \<Rightarrow> bool" where
  "is_destructive r = (case r of DeleteQuarantined _ \<Rightarrow> True | _ \<Rightarrow> False)"

definition decide :: "observation \<Rightarrow> repair" where
  "decide ob =
     (if so_live_transition ob then DeferToTransition
      else if \<not> so_object_present ob then
        (if so_path_references ob > 0 then MarkCorrupt (so_inode ob) (so_path_references ob) else RepairNone)
      else if so_path_references ob = 0 then
        (if so_previously_unreferenced ob \<and> so_grace_elapsed ob then DeleteQuarantined (so_inode ob)
         else Quarantine (so_inode ob))
      else (case so_recorded_link_count ob of
          None \<Rightarrow> RequiresOperator (so_inode ob) ''paths reference an inode with no TMS record''
        | Some recorded \<Rightarrow>
            if recorded = so_path_references ob then RepairNone
            else (case link_count_new (so_path_references ob) of
                Inr recomputed \<Rightarrow> RepairLinkCount (so_inode ob) recomputed
              | Inl _ \<Rightarrow> RequiresOperator (so_inode ob) ''inode has fewer than two links and needs demotion, not repair'')))"

subsection \<open>The flush policy\<close>

datatype conflict_policy = Manual | TalonWins | ExportThenManual

definition policy_str :: "conflict_policy \<Rightarrow> string" where
  "policy_str p = (case p of Manual \<Rightarrow> ''manual'' | TalonWins \<Rightarrow> ''talon_wins'' | ExportThenManual \<Rightarrow> ''export_then_manual'')"

definition preserves_read_your_writes :: "conflict_policy \<Rightarrow> bool" where
  "preserves_read_your_writes p = (case p of Manual \<Rightarrow> True | TalonWins \<Rightarrow> True | ExportThenManual \<Rightarrow> True)"

datatype conflict_action = Park | RetryAgainst string | ExportThenPark

definition on_conflict :: "conflict_policy \<Rightarrow> string \<Rightarrow> bool \<Rightarrow> conflict_action" where
  "on_conflict p observed_version already_retried = (case p of
      Manual \<Rightarrow> Park
    | ExportThenManual \<Rightarrow> ExportThenPark
    | TalonWins \<Rightarrow> if already_retried then Park else RetryAgainst observed_version)"

definition MAX_FLUSH_ATTEMPTS :: u32 where "MAX_FLUSH_ATTEMPTS = 5"
definition INITIAL_BACKOFF :: nat where "INITIAL_BACKOFF = millis 200"
definition MAX_BACKOFF :: nat where "MAX_BACKOFF = secs 30"

text \<open>\<open>u64::checked_shl\<close> and \<open>Duration::checked_mul\<close>.\<close>

definition checked_shl :: "u64 \<Rightarrow> u32 \<Rightarrow> u64 option" where
  "checked_shl x n = (if unat n < 64 then Some (push_bit (unat n) x) else None)"

definition duration_checked_mul :: "nat \<Rightarrow> u32 \<Rightarrow> nat option" where
  "duration_checked_mul d k = (if d * unat k div 10 ^ 9 < 2 ^ 64 then Some (d * unat k) else None)"

definition backoff_for :: "u32 \<Rightarrow> nat" where
  "backoff_for attempt =
     (if attempt \<le> 1 then INITIAL_BACKOFF
      else
        let factor = (case checked_shl 1 (attempt - 1) of Some f \<Rightarrow> f | None \<Rightarrow> - 1) in
        min (case duration_checked_mul INITIAL_BACKOFF (ucast (min factor (ucast (- 1 :: u32)))) of
               Some d \<Rightarrow> d | None \<Rightarrow> MAX_BACKOFF) MAX_BACKOFF)"

definition budget_exhausted :: "u32 \<Rightarrow> bool" where
  "budget_exhausted attempts \<longleftrightarrow> attempts \<ge> MAX_FLUSH_ATTEMPTS"

datatype resolution = Retry | Export | AbandonAcceptOrigin string bool

definition destroys_acknowledged_data :: "resolution \<Rightarrow> bool" where
  "destroys_acknowledged_data r = (case r of AbandonAcceptOrigin _ _ \<Rightarrow> True | _ \<Rightarrow> False)"

definition is_permitted :: "resolution \<Rightarrow> bool" where
  "is_permitted r = (case r of Retry \<Rightarrow> True | Export \<Rightarrow> True | AbandonAcceptOrigin _ confirm \<Rightarrow> confirm)"

record audit_record =
  ar_namespace :: string
  ar_object :: string
  ar_mutation_id :: string
  ar_origin_version :: string
  ar_policy :: conflict_policy
  ar_actor :: string
  ar_result :: string

subsection \<open>Lemmas: winners\<close>

definition covers :: "manifest_entry \<Rightarrow> manifest_entry \<Rightarrow> bool" where
  "covers w e \<longleftrightarrow> me_object w = me_object e \<and>
     (me_mutation e < me_mutation w \<or> me_mutation e = me_mutation w \<and> (me_payload_verified e \<longrightarrow> me_payload_verified w))"

lemma covers_refl [simp]: "covers e e"
  by (simp add: covers_def)

lemma covers_trans: "covers a b \<Longrightarrow> covers b c \<Longrightarrow> covers a c"
  by (auto simp: covers_def)

lemma supersedes_covers: "me_object w = me_object e \<Longrightarrow> if supersedes e w then covers e w else covers w e"
  by (auto simp: supersedes_def covers_def)

lemma merge_entry_objects:
  "map me_object (merge_entry e ws) =
     (if me_object e \<in> me_object ` set ws then map me_object ws else map me_object ws @ [me_object e])"
  by (induction ws) auto

lemma merge_entry_set: "set (merge_entry e ws) \<subseteq> insert e (set ws)"
  by (induction ws) auto

lemma merge_entry_covers:
  "(\<exists>w \<in> set (merge_entry e ws). covers w e) \<and> (\<forall>v \<in> set ws. \<exists>w \<in> set (merge_entry e ws). covers w v)"
proof (induction ws)
  case Nil
  then show ?case by simp
next
  case (Cons w ws)
  show ?case
  proof (cases "me_object w = me_object e")
    case True
    then have "set (merge_entry e (w # ws)) = insert (if supersedes e w then e else w) (set ws)" by simp
    then show ?thesis using supersedes_covers [OF True] covers_refl by (cases "supersedes e w") fastforce+
  next
    case False
    then show ?thesis using Cons.IH covers_refl by fastforce
  qed
qed

definition winners_ok :: "manifest_entry list \<Rightarrow> manifest_entry set \<Rightarrow> bool" where
  "winners_ok ws es \<longleftrightarrow> distinct (map me_object ws) \<and> set ws \<subseteq> {e \<in> es. survives_recovery (me_state e)} \<and>
     (\<forall>e \<in> es. survives_recovery (me_state e) \<longrightarrow> (\<exists>w \<in> set ws. covers w e))"

lemma consider_entry_ok:
  assumes "winners_ok ws es"
  shows "winners_ok (consider_entry ws e) (insert e es)"
proof (cases "survives_recovery (me_state e)")
  case False
  then show ?thesis using assms by (auto simp: winners_ok_def consider_entry_def)
next
  case True
  have "distinct (map me_object (merge_entry e ws))"
    using assms by (auto simp: winners_ok_def merge_entry_objects)
  moreover have "\<exists>w \<in> set (merge_entry e ws). covers w v"
    if v: "v \<in> insert e es" "survives_recovery (me_state v)" for v
  proof (cases "v = e")
    case True
    then show ?thesis using merge_entry_covers by blast
  next
    case False
    then have "v \<in> es" using v(1) by simp
    then obtain w where "w \<in> set ws" "covers w v" using assms v(2) unfolding winners_ok_def by blast
    then show ?thesis using merge_entry_covers [of e ws] covers_trans by blast
  qed
  ultimately show ?thesis
    using True assms merge_entry_set [of e ws] by (auto simp: winners_ok_def consider_entry_def)
qed

lemma foldl_consider_ok: "winners_ok ws es \<Longrightarrow> winners_ok (foldl consider_entry ws xs) (es \<union> set xs)"
proof (induction xs arbitrary: ws es)
  case Nil
  then show ?case by simp
next
  case (Cons x xs)
  then show ?case using Cons.IH [OF consider_entry_ok [OF Cons.prems, of x]] by simp
qed

lemma collect_winners_ok: "winners_ok (collect_winners rs) (\<Union>r \<in> set rs. set (mr_entries r))"
proof -
  have "winners_ok (foldl (\<lambda>ws r. foldl consider_entry ws (mr_entries r)) ws rs) (es \<union> (\<Union>r \<in> set rs. set (mr_entries r)))"
    if "winners_ok ws es" for ws es
    using that
  proof (induction rs arbitrary: ws es)
    case Nil
    then show ?case by simp
  next
    case (Cons r rs)
    then show ?case using Cons.IH [OF foldl_consider_ok [OF Cons.prems, of "mr_entries r"]] by (simp add: Un_assoc)
  qed
  from this [of "[]" "{}"] show ?thesis by (simp add: collect_winners_def winners_ok_def)
qed

lemma recover_Recovered:
  assumes "recover responses rf wq = Recovered sel"
  shows "winners_ok sel (\<Union>r \<in> set responses. set (mr_entries r))" "sorted (map me_object sel)"
    "\<forall>e \<in> set sel. me_payload_verified e" "unat (recovery_quorum rf wq) \<le> length responses"
proof -
  let ?w = "collect_winners responses"
  have sel: "sel = sort_key me_object ?w" "\<forall>e \<in> set ?w. me_payload_verified e" "unat (recovery_quorum rf wq) \<le> length responses"
    using assms by (auto simp: recover_def Let_def find_None_iff split: if_splits option.splits)
  have "distinct (map me_object sel) = distinct (map me_object ?w)"
    unfolding sel(1) by (metis mset_sort mset_eq_imp_distinct_iff mset_map)
  then show "winners_ok sel (\<Union>r \<in> set responses. set (mr_entries r))"
    using collect_winners_ok [of responses] by (simp add: winners_ok_def sel(1))
  show "sorted (map me_object sel)" by (simp add: sel(1))
  show "\<forall>e \<in> set sel. me_payload_verified e" using sel(2) by (simp add: sel(1))
  show "unat (recovery_quorum rf wq) \<le> length responses" by (rule sel(3))
qed

lemma unat_recovery_quorum:
  assumes "0 < wq" "wq \<le> rf"
  shows "unat (recovery_quorum rf wq) = unat rf - unat wq + 1"
proof -
  have "unat (rf - wq) = unat rf - unat wq" using assms(2) by (rule unat_sub_exact)
  moreover have "unat rf - unat wq + 1 < 2 ^ 8"
    using assms unat_u8_less [of rf] by (simp add: word_less_nat_alt)
  ultimately show ?thesis by (simp add: recovery_quorum_def unat_add_exact)
qed

text \<open>Two quorums of \<open>W\<close> and \<open>R - W + 1\<close> out of \<open>R\<close> replicas share a replica.\<close>

lemma quorums_intersect:
  assumes "finite A" "X \<subseteq> A" "Y \<subseteq> A" "card A < card X + card Y"
  shows "X \<inter> Y \<noteq> {}"
proof
  assume "X \<inter> Y = {}"
  then have "card X + card Y = card (X \<union> Y)"
    using assms by (metis card_Un_disjoint finite_subset)
  also have "\<dots> \<le> card A" using assms by (intro card_mono) auto
  finally show False using assms(4) by simp
qed

text \<open>
  The quorum counts responses, not replicas: two responses of one replica that missed a mutation
  satisfy a quorum of two, and recovery succeeds without the mutation.
\<close>

lemma duplicate_responses_reach_quorum:
  "recover [\<lparr>mr_replica = ''a'', mr_entries = []\<rparr>, \<lparr>mr_replica = ''a'', mr_entries = []\<rparr>] 3 2 = Recovered []"
  by (simp add: recover_def recovery_quorum_def collect_winners_def Let_def)

lemma INITIAL_MAX: "INITIAL_BACKOFF = 200000000" "MAX_BACKOFF = 30000000000"
  by (simp_all add: INITIAL_BACKOFF_def MAX_BACKOFF_def millis_def secs_def)

lemma unat_power2_u64: "k < 64 \<Longrightarrow> unat (2 ^ k :: u64) = 2 ^ k"
proof -
  assume "k < 64"
  then have "(2 :: nat) ^ k < 2 ^ 64" by (intro power_strict_increasing) auto
  moreover have "(2 ^ k :: u64) = of_nat (2 ^ k)" by simp
  ultimately show ?thesis by (simp only: unat_of_nat) simp
qed

lemma backoff_factor:
  fixes f :: u64
  assumes "unat f = (if k < 64 then 2 ^ k else 18446744073709551615)"
  shows "unat (ucast (min f (ucast (- 1 :: u32))) :: u32) = min (2 ^ k) 4294967295"
proof -
  let ?g = "ucast (min f (ucast (- 1 :: u32))) :: u32"
  have g: "unat ?g = min (unat f) 4294967295"
    by (simp add: unat_ucast_64_32 unat_min unat_max_word)
  show ?thesis
  proof (cases "k < 32")
    case True
    then have "(2 :: nat) ^ k \<le> 2 ^ 31" by (intro power_increasing) auto
    then show ?thesis using True assms g by simp
  next
    case False
    then have "(2 :: nat) ^ 32 \<le> 2 ^ k" by (intro power_increasing) auto
    then have "4294967295 \<le> unat f" "min (2 ^ k) 4294967295 = (4294967295 :: nat)" using assms by auto
    then show ?thesis using g by simp
  qed
qed

lemma min_saturated: "min (200000000 * min p 4294967295) 30000000000 = min 30000000000 (200000000 * p)" for p :: nat
proof (cases "p \<le> 4294967295")
  case True
  then show ?thesis by (simp only: min.absorb1 min.commute)
next
  case False
  then have "min 30000000000 (200000000 * p) = 30000000000" "min p 4294967295 = 4294967295" by linarith+
  then show ?thesis by simp
qed

lemma backoff_for_eq: "backoff_for attempt = min MAX_BACKOFF (INITIAL_BACKOFF * 2 ^ (unat attempt - 1))"
proof (cases "attempt \<le> 1")
  case True
  then have "unat attempt - 1 = 0" by (simp add: word_le_nat_alt)
  then show ?thesis using True by (simp add: backoff_for_def INITIAL_MAX)
next
  case False
  let ?k = "unat attempt - 1"
  let ?f = "(case checked_shl 1 (attempt - 1) of Some f \<Rightarrow> f | None \<Rightarrow> - 1) :: u64"
  let ?g = "ucast (min ?f (ucast (- 1 :: u32))) :: u32"
  have k: "unat (attempt - 1) = ?k"
    using False unat_sub_exact [of 1 attempt] by (simp add: word_le_nat_alt)
  have "unat ?f = (if ?k < 64 then 2 ^ ?k else 18446744073709551615)"
    by (simp add: checked_shl_def k unat_max_word push_bit_eq_mult unat_power2_u64)
  then have g: "unat ?g = min (2 ^ ?k) 4294967295" by (rule backoff_factor)
  have "200000000 * unat ?g div 10 ^ 9 < 2 ^ 64" using unat_u32_less [of ?g] by simp
  then have "duration_checked_mul INITIAL_BACKOFF ?g = Some (200000000 * unat ?g)"
    by (simp only: duration_checked_mul_def INITIAL_MAX) simp
  then have "backoff_for attempt = min (200000000 * unat ?g) 30000000000"
    using False unfolding backoff_for_def Let_def by (simp only: option.case if_False INITIAL_MAX)
  then show ?thesis
    unfolding g INITIAL_MAX min_saturated .
qed

subsection \<open>Properties\<close>

text \<open>
  C4. Recovery never forgets an acknowledged mutation. Let a shard have \<open>R\<close> replicas and a write quorum \<open>W\<close>
  with \<open>0 < W \<le> R\<close>, and let a mutation have reached the manifests of at least \<open>W\<close> replicas as committed or
  flushed. Whenever recovery from the manifests of distinct replicas succeeds, the entry it
  selects for the object has that mutation or a later one, with a verified payload; otherwise the
  shard is left incomplete.
\<close>

theorem recovery_keeps_acknowledged:
  fixes manifest :: "string \<Rightarrow> manifest_entry list"
  assumes "distinct replicas" "length replicas = unat R" "0 < W" "W \<le> R"
    "unat W \<le> card {r \<in> set replicas. \<exists>e \<in> set (manifest r). me_object e = ob \<and> me_mutation e = m \<and> survives_recovery (me_state e)}"
    "distinct rs" "set rs \<subseteq> set replicas"
  defines "outcome \<equiv> recover (map (\<lambda>r. \<lparr>mr_replica = r, mr_entries = manifest r\<rparr>) rs) R W"
  shows "(\<exists>sel w. outcome = Recovered sel \<and> w \<in> set sel \<and> me_object w = ob \<and> m \<le> me_mutation w \<and> me_payload_verified w) \<or>
    resulting_state outcome = Incomplete"
proof (cases outcome)
  case (RecoveryIncomplete f)
  then show ?thesis by (simp add: resulting_state_def)
next
  case (Recovered sel)
  let ?acked = "{r \<in> set replicas. \<exists>e \<in> set (manifest r). me_object e = ob \<and> me_mutation e = m \<and> survives_recovery (me_state e)}"
  note r = recover_Recovered [OF Recovered [unfolded outcome_def]]
  have "card (set replicas) = unat R" "card (set rs) = length rs" using assms(1,2,6) by (simp_all add: distinct_card)
  moreover have "unat R - unat W + 1 \<le> length rs" using r(4) unat_recovery_quorum [OF assms(3,4)] by simp
  moreover have "unat W \<le> unat R" using assms(4) by (simp add: word_le_nat_alt)
  ultimately have "card (set replicas) < card ?acked + card (set rs)" using assms(5) by linarith
  then have "?acked \<inter> set rs \<noteq> {}" using assms(7) by (intro quorums_intersect [of "set replicas"]) auto
  then obtain x e where e: "x \<in> set rs" "e \<in> set (manifest x)" "me_object e = ob" "me_mutation e = m" "survives_recovery (me_state e)"
    by blast
  then obtain w where "w \<in> set sel" "covers w e" using r(1) unfolding winners_ok_def by fastforce
  then show ?thesis using Recovered r(3) e(3,4) by (auto simp: covers_def)
qed

theorem recovery_keeps_acknowledged_witness:
  "\<exists>sel w. recover (map (\<lambda>r. \<lparr>mr_replica = r, mr_entries =
        (if r = ''c'' then [] else [\<lparr>me_object = ''o'', me_mutation = MutationId 1 4, me_state = MutCommitted, me_payload_verified = True\<rparr>])\<rparr>)
        [''b'', ''c'']) 3 2 = Recovered sel \<and> w \<in> set sel \<and> me_object w = ''o'' \<and> MutationId 1 4 \<le> me_mutation w"
proof -
  let ?man = "\<lambda>r. if r = ''c'' then [] else [\<lparr>me_object = ''o'', me_mutation = MutationId 1 4, me_state = MutCommitted, me_payload_verified = True\<rparr>]"
  let ?out = "recover (map (\<lambda>r. \<lparr>mr_replica = r, mr_entries = ?man r\<rparr>) [''b'', ''c'']) 3 2"
  have "{r \<in> set [''a'', ''b'', ''c'']. \<exists>e \<in> set (?man r). me_object e = ''o'' \<and> me_mutation e = MutationId 1 4 \<and> survives_recovery (me_state e)} =
      {''a'', ''b''}" by (auto simp: survives_recovery_def)
  then have "(\<exists>sel w. ?out = Recovered sel \<and> w \<in> set sel \<and> me_object w = ''o'' \<and> MutationId 1 4 \<le> me_mutation w \<and> me_payload_verified w) \<or>
      resulting_state ?out = Incomplete"
    using recovery_keeps_acknowledged [of "[''a'', ''b'', ''c'']" 3 2 ?man "''o''" "MutationId 1 4" "[''b'', ''c'']"] by simp
  moreover have "resulting_state ?out = Active"
    by (simp add: recover_def recovery_quorum_def collect_winners_def consider_entry_def survives_recovery_def resulting_state_def Let_def)
  ultimately show ?thesis by force
qed

text \<open>
  C25. What recovery selects: one entry per object, sorted by object, each taken from a response,
  committed or flushed and with a verified payload; and for every surviving entry of any
  response, the selected entry of its object has the same or a later mutation. It succeeds only with
  a quorum of responses.
\<close>

theorem recovery_selects_latest:
  assumes "recover responses R W = Recovered sel"
  shows "sorted (map me_object sel) \<and> distinct (map me_object sel) \<and>
    (\<forall>w \<in> set sel. me_payload_verified w \<and> survives_recovery (me_state w) \<and> (\<exists>r \<in> set responses. w \<in> set (mr_entries r))) \<and>
    (\<forall>r \<in> set responses. \<forall>e \<in> set (mr_entries r). survives_recovery (me_state e) \<longrightarrow>
       (\<exists>w \<in> set sel. me_object w = me_object e \<and> me_mutation e \<le> me_mutation w)) \<and>
    unat (recovery_quorum R W) \<le> length responses"
proof -
  note r = recover_Recovered [OF assms]
  have "\<exists>w \<in> set sel. me_object w = me_object e \<and> me_mutation e \<le> me_mutation w"
    if e: "x \<in> set responses" "e \<in> set (mr_entries x)" "survives_recovery (me_state e)" for x e
  proof -
    obtain w where "w \<in> set sel" "covers w e" using r(1) e unfolding winners_ok_def by blast
    then show ?thesis by (auto simp: covers_def)
  qed
  then show ?thesis using r unfolding winners_ok_def by blast
qed

theorem recovery_selects_latest_witness:
  "\<exists>sel. recover [\<lparr>mr_replica = ''a'', mr_entries = [\<lparr>me_object = ''o'', me_mutation = MutationId 1 4, me_state = Flushed, me_payload_verified = True\<rparr>]\<rparr>] 1 1 =
     Recovered sel \<and> distinct (map me_object sel)"
proof -
  have "recover [\<lparr>mr_replica = ''a'', mr_entries = [\<lparr>me_object = ''o'', me_mutation = MutationId 1 4, me_state = Flushed, me_payload_verified = True\<rparr>]\<rparr>] 1 1 =
      Recovered [\<lparr>me_object = ''o'', me_mutation = MutationId 1 4, me_state = Flushed, me_payload_verified = True\<rparr>]"
    by (simp add: recover_def recovery_quorum_def collect_winners_def consider_entry_def survives_recovery_def Let_def)
  from recovery_selects_latest [OF this] this show ?thesis by blast
qed

text \<open>
  C30. The scrubber deletes an inode object only when it has no path reference, is not in a live
  transition, was already unreferenced in an earlier scrub and its grace period has elapsed; a dangling
  reference is marked corrupt and never deleted; and a link count is only repaired to the
  recomputed number of references, at least two.
\<close>

theorem scrub_is_conservative:
  "(is_destructive (decide ob) \<longleftrightarrow> \<not> so_live_transition ob \<and> so_object_present ob \<and> so_path_references ob = 0 \<and>
      so_previously_unreferenced ob \<and> so_grace_elapsed ob) \<and>
   (\<not> so_live_transition ob \<and> \<not> so_object_present ob \<and> 0 < so_path_references ob \<longrightarrow>
      decide ob = MarkCorrupt (so_inode ob) (so_path_references ob)) \<and>
   (\<forall>i n. decide ob = RepairLinkCount i n \<longrightarrow> i = so_inode ob \<and> n = so_path_references ob \<and> 2 \<le> n \<and>
      so_recorded_link_count ob \<noteq> Some n)"
  by (auto simp: decide_def is_destructive_def link_count_new_def word_gt_0 not_less split: option.splits if_splits sum.splits)

theorem scrub_is_conservative_witness:
  "decide \<lparr>so_inode = 9, so_object_present = False, so_recorded_link_count = Some 2, so_path_references = 2,
     so_live_transition = False, so_previously_unreferenced = True, so_grace_elapsed = True\<rparr> = MarkCorrupt 9 2"
  using scrub_is_conservative [of "\<lparr>so_inode = 9, so_object_present = False, so_recorded_link_count = Some 2, so_path_references = 2,
     so_live_transition = False, so_previously_unreferenced = True, so_grace_elapsed = True\<rparr>"] by simp

text \<open>
  C31. The flush backoff is the capped exponential it stands for: for every attempt number the
  saturating shift and multiplication give the smaller of 30 seconds and 200 milliseconds doubled once per attempt after the first.
\<close>

theorem backoff_is_capped_exponential:
  "backoff_for attempt = min (secs 30) (millis 200 * 2 ^ (unat attempt - 1))"
  using backoff_for_eq [of attempt] by (simp only: INITIAL_BACKOFF_def MAX_BACKOFF_def)

end
