(* ===== verification/Journal_Frame.thy ===== *)
theory Journal_Frame
  imports Prelude
begin

text \<open>
  Frames of the metadata journal (\<open>crates/talon-journal/src/frame.rs\<close>). The hash \<open>xxh3_64\<close> (package
  \<open>xxhash-rust\<close>) is the parameter \<open>xxh\<close>; its streaming interface, which \<open>encode\<close> uses, gives the hash of the
  concatenated input. The in-place shift of the header in \<open>decode\<close> only serves to hash the
  header without its checksum together with the body, and is written as that concatenation. The
  decoder of a record body is the parameter \<open>dec\<close>.
\<close>

subsection \<open>Definitions\<close>

datatype io_error = InvalidData string | IoNotFound | IoOther string

definition JOURNAL_MAGIC :: "byte list" where "JOURNAL_MAGIC = as_bytes ''TLNJRN01''"
definition JOURNAL_HEADER :: nat where "JOURNAL_HEADER = 32"
definition MAX_RECORD :: nat where "MAX_RECORD = 16 * 2 ^ 20"

definition frame_head :: "u64 \<Rightarrow> byte list \<Rightarrow> byte list" where
  "frame_head lsn body =
     JOURNAL_MAGIC @ u32_le (of_nat (length body)) @ u32_le (NOT (of_nat (length body))) @ u64_le lsn"

definition frame_encode :: "(byte list \<Rightarrow> u64) \<Rightarrow> u64 \<Rightarrow> byte list \<Rightarrow> io_error + byte list" where
  "frame_encode xxh lsn body =
     (if length body > MAX_RECORD then Inl (InvalidData ''journal frame too large'')
      else Inr (frame_head lsn body @ u64_le (xxh (frame_head lsn body @ body)) @ body))"

function frame_decode ::
  "(byte list \<Rightarrow> u64) \<Rightarrow> (byte list \<Rightarrow> io_error + 'a) \<Rightarrow> byte list \<Rightarrow> io_error + (u64 \<times> 'a) list" where
  "frame_decode xxh dec bytes =
     (if bytes = [] then Inr []
      else if length bytes < JOURNAL_HEADER then Inl (InvalidData ''truncated journal header'')
      else
        let header = take JOURNAL_HEADER bytes in
        if take 8 header \<noteq> JOURNAL_MAGIC then Inl (InvalidData ''unsupported journal format'')
        else
          let n = u32_of_le (take 4 (drop 8 header)) in
          if NOT n \<noteq> u32_of_le (take 4 (drop 12 header)) \<or> unat n > MAX_RECORD
          then Inl (InvalidData ''journal frame length'')
          else
            let lsn = u64_of_le (take 8 (drop 16 header));
                expected = u64_of_le (take 8 (drop 24 header));
                frame_end = JOURNAL_HEADER + unat n
            in
            if frame_end > length bytes then Inl (InvalidData ''truncated journal body'')
            else
              let body = take (unat n) (drop JOURNAL_HEADER bytes) in
              if xxh (take 24 header @ body) \<noteq> expected then Inl (InvalidData ''journal frame checksum'')
              else
                (case dec body of Inl e \<Rightarrow> Inl e
                 | Inr v \<Rightarrow>
                   (case frame_decode xxh dec (drop frame_end bytes) of
                      Inl e \<Rightarrow> Inl e
                    | Inr records \<Rightarrow> Inr ((lsn, v) # records))))"
  by auto
termination
  by (relation "measure (\<lambda>(xxh, dec, bytes). length bytes)") (auto simp: JOURNAL_HEADER_def)

declare frame_decode.simps [simp del]

subsection \<open>Lemmas\<close>

definition frame_bytes :: "(byte list \<Rightarrow> u64) \<Rightarrow> u64 \<times> byte list \<Rightarrow> byte list" where
  "frame_bytes xxh r = frame_head (fst r) (snd r) @ u64_le (xxh (frame_head (fst r) (snd r) @ snd r)) @ snd r"

lemma frame_encode_bytes:
  "frame_encode xxh lsn body = (if length body \<le> MAX_RECORD then Inr (frame_bytes xxh (lsn, body)) else Inl (InvalidData ''journal frame too large''))"
  by (simp add: frame_encode_def frame_bytes_def)

lemma JOURNAL_MAGIC_length [simp]: "length JOURNAL_MAGIC = 8"
  by (simp add: JOURNAL_MAGIC_def)

lemma frame_head_length [simp]: "length (frame_head lsn body) = 24"
  by (simp add: frame_head_def)

lemma frame_bytes_length [simp]: "length (frame_bytes xxh r) = 32 + length (snd r)"
  by (simp add: frame_bytes_def)

text \<open>The fields of a header, by position.\<close>

lemma header_fields:
  assumes "length m = 8" "length a = 4" "length b = 4" "length c = 8" "length d = 8" "header = m @ a @ b @ c @ d"
  shows "take 8 header = m" "take 4 (drop 8 header) = a" "take 4 (drop 12 header) = b"
    "take 8 (drop 16 header) = c" "take 8 (drop 24 header) = d" "take 24 header = m @ a @ b @ c"
  using assms by simp_all

lemma header_split:
  assumes "length header = 32"
  shows "header = take 8 header @ take 4 (drop 8 header) @ take 4 (drop 12 header) @ take 8 (drop 16 header) @ take 8 (drop 24 header)"
proof -
  have "take 8 (drop 24 header) = drop 24 header" using assms by simp
  moreover have "take 8 (drop 16 header) @ drop 24 header = drop 16 header"
    using append_take_drop_id [of 8 "drop 16 header"] by simp
  moreover have "take 4 (drop 12 header) @ drop 16 header = drop 12 header"
    using append_take_drop_id [of 4 "drop 12 header"] by simp
  moreover have "take 4 (drop 8 header) @ drop 12 header = drop 8 header"
    using append_take_drop_id [of 4 "drop 8 header"] by simp
  ultimately show ?thesis by (simp only: append_take_drop_id)
qed

lemma u32_le_of_le: "length bs = 4 \<Longrightarrow> u32_le (u32_of_le bs) = bs"
  using of_le_bound [of bs] le_bytes_of_le [of bs 4] by (simp add: u32_le_def u32_of_le_def unat_of_nat)

lemma u64_le_of_le: "length bs = 8 \<Longrightarrow> u64_le (u64_of_le bs) = bs"
  using of_le_bound [of bs] le_bytes_of_le [of bs 8] by (simp add: u64_le_def u64_of_le_def unat_of_nat)

lemma MAX_RECORD_less: "n \<le> MAX_RECORD \<Longrightarrow> unat (of_nat n :: u32) = n"
  by (simp add: MAX_RECORD_def unat_of_nat)

text \<open>One frame in front: decoding takes exactly that frame off.\<close>

lemma frame_decode_Cons:
  assumes "length body \<le> MAX_RECORD"
  shows "frame_decode xxh dec (frame_bytes xxh (lsn, body) @ rest) =
    (case dec body of Inl e \<Rightarrow> Inl e
     | Inr v \<Rightarrow> (case frame_decode xxh dec rest of Inl e \<Rightarrow> Inl e | Inr records \<Rightarrow> Inr ((lsn, v) # records)))"
proof -
  let ?n = "of_nat (length body) :: u32"
  let ?check = "u64_le (xxh (frame_head lsn body @ body))"
  let ?header = "frame_head lsn body @ ?check"
  define B where "B = frame_bytes xxh (lsn, body) @ rest"
  define H where "H = frame_head lsn body @ ?check"
  have B: "B = H @ body @ rest" "length H = 32" by (simp_all add: B_def H_def frame_bytes_def)
  then have parts: "B \<noteq> []" "\<not> length B < 32" "\<not> length B < 32 + length body" "take 32 B = H"
    "take (length body) (drop 32 B) = body" "drop (32 + length body) B = rest"
    by auto
  note f = header_fields [of JOURNAL_MAGIC "u32_le ?n" "u32_le (NOT ?n)" "u64_le lsn" ?check H]
  have f: "take 8 H = JOURNAL_MAGIC" "take 4 (drop 8 H) = u32_le ?n" "take 4 (drop 12 H) = u32_le (NOT ?n)"
    "take 8 (drop 16 H) = u64_le lsn" "take 8 (drop 24 H) = ?check" "take 24 H = frame_head lsn body"
    by (intro f | simp add: H_def frame_head_def)+
  have n: "unat ?n = length body" by (rule MAX_RECORD_less [OF assms])
  show ?thesis
    unfolding B_def [symmetric] frame_decode.simps [of xxh dec B] JOURNAL_HEADER_def Let_def parts(4) f
      u32_of_le_le u64_of_le_le n parts(5,6)
    using assms parts(1-3) by (simp add: not_less)
qed

lemma frame_decode_Nil [simp]: "frame_decode xxh dec [] = Inr []"
  by (simp add: frame_decode.simps)

lemma frame_decode_concat:
  assumes "list_all (\<lambda>r. length (snd r) \<le> MAX_RECORD \<and> dec (snd r) = Inr (f (snd r))) rs"
  shows "frame_decode xxh dec (concat (map (frame_bytes xxh) rs)) = Inr (map (\<lambda>r. (fst r, f (snd r))) rs)"
  using assms
proof (induction rs)
  case Nil
  then show ?case by simp
next
  case (Cons r rs)
  obtain lsn body where r: "r = (lsn, body)" by (cases r)
  then show ?case using Cons frame_decode_Cons [of body xxh dec lsn] by simp
qed

text \<open>The other direction: what is accepted is a sequence of whole frames.\<close>

lemma frame_decode_step:
  assumes "frame_decode xxh dec bytes = Inr recs" "bytes \<noteq> []"
  shows "\<exists>lsn body v rest recs'. bytes = frame_bytes xxh (lsn, body) @ rest \<and> length body \<le> MAX_RECORD \<and>
    dec body = Inr v \<and> frame_decode xxh dec rest = Inr recs' \<and> recs = (lsn, v) # recs'"
proof -
  let ?H = "take 32 bytes"
  let ?n = "u32_of_le (take 4 (drop 8 ?H))" and ?lsn = "u64_of_le (take 8 (drop 16 ?H))"
  let ?body = "take (unat ?n) (drop 32 bytes)" and ?rest = "drop (32 + unat ?n) bytes"
  have c: "32 \<le> length bytes" "take 8 ?H = JOURNAL_MAGIC" "NOT ?n = u32_of_le (take 4 (drop 12 ?H))" "unat ?n \<le> MAX_RECORD"
    "32 + unat ?n \<le> length bytes" "xxh (take 24 ?H @ ?body) = u64_of_le (take 8 (drop 24 ?H))"
    and d: "\<exists>v recs'. dec ?body = Inr v \<and> frame_decode xxh dec ?rest = Inr recs' \<and> recs = (?lsn, v) # recs'"
    using assms unfolding frame_decode.simps [of xxh dec bytes] JOURNAL_HEADER_def Let_def
    by (auto simp: not_less split: if_splits sum.splits)
  have len: "length ?H = 32" "length ?body = unat ?n" using c(1,5) by simp_all
  have n: "of_nat (length ?body) = ?n" using len(2) by simp
  have f: "u32_le ?n = take 4 (drop 8 ?H)" "u32_le (NOT ?n) = take 4 (drop 12 ?H)" "u64_le ?lsn = take 8 (drop 16 ?H)"
    using c(3) len(1) by (simp_all add: u32_le_of_le u64_le_of_le)
  have head: "frame_head ?lsn ?body = take 8 ?H @ take 4 (drop 8 ?H) @ take 4 (drop 12 ?H) @ take 8 (drop 16 ?H)"
    unfolding frame_head_def n f c(2) [symmetric] ..
  have H: "frame_head ?lsn ?body @ take 8 (drop 24 ?H) = ?H"
    unfolding head append_assoc by (rule header_split [OF len(1), symmetric])
  have t24: "take 24 ?H = frame_head ?lsn ?body"
    using arg_cong [OF H, of "take 24"] frame_head_length [of ?lsn ?body] by (simp only: take_append take_all_iff) simp
  have check: "u64_le (xxh (frame_head ?lsn ?body @ ?body)) = take 8 (drop 24 ?H)"
    unfolding t24 [symmetric] c(6) using len(1) by (intro u64_le_of_le) simp
  have "frame_bytes xxh (?lsn, ?body) = ?H @ ?body"
    unfolding frame_bytes_def fst_conv snd_conv check append_assoc [symmetric] H ..
  moreover have "bytes = (?H @ ?body) @ ?rest"
    unfolding append_assoc drop_drop [symmetric, of "unat ?n" 32, unfolded add.commute [of "unat ?n" 32]]
    by (simp only: append_take_drop_id)
  ultimately have "bytes = frame_bytes xxh (?lsn, ?body) @ ?rest" by (simp only:)
  then show ?thesis using c(4) len(2) d by (metis (no_types, lifting))
qed

lemma frame_decode_sound:
  "frame_decode xxh dec bytes = Inr recs \<Longrightarrow>
    \<exists>rs. bytes = concat (map (frame_bytes xxh) rs) \<and> list_all (\<lambda>r. length (snd r) \<le> MAX_RECORD) rs \<and>
      list_all2 (\<lambda>r v. fst r = fst v \<and> dec (snd r) = Inr (snd v)) rs recs"
proof (induction "length bytes" arbitrary: bytes recs rule: less_induct)
  case less
  show ?case
  proof (cases "bytes = []")
    case True
    then show ?thesis using less.prems by simp
  next
    case False
    from frame_decode_step [OF less.prems this] obtain lsn body v rest recs' where
      s: "bytes = frame_bytes xxh (lsn, body) @ rest" "length body \<le> MAX_RECORD" "dec body = Inr v"
        "frame_decode xxh dec rest = Inr recs'" "recs = (lsn, v) # recs'" by blast
    then obtain rs where "rest = concat (map (frame_bytes xxh) rs)" "list_all (\<lambda>r. length (snd r) \<le> MAX_RECORD) rs"
      "list_all2 (\<lambda>r v. fst r = fst v \<and> dec (snd r) = Inr (snd v)) rs recs'"
      using less.hyps [of rest recs'] by auto
    then show ?thesis using s by (intro exI [of _ "(lsn, body) # rs"]) simp
  qed
qed

end
