(* ===== verification/Journal_Current.thy ===== *)
theory Journal_Current
  imports Journal_Frame
begin

text \<open>
  The \<open>CURRENT\<close> file of a journal stream, which names the recovery set: the snapshot, the log generations and
  the files that may be deleted (\<open>Current\<close> in \<open>crates/talon-journal/src/disk.rs\<close>).
\<close>

subsection \<open>Definitions\<close>

definition CURRENT_MAGIC :: "byte list" where "CURRENT_MAGIC = as_bytes ''TLNJCU01''"
definition MAX_GENERATIONS :: nat where "MAX_GENERATIONS = 64"

record current =
  cu_snapshot :: u64
  cu_lsn :: u64
  cu_bytes :: u64
  cu_records :: u64
  cu_logs :: "u64 list"
  cu_garbage :: "(bool \<times> u64) list"
  cu_pending :: u64

definition garbage_bytes :: "bool \<times> u64 \<Rightarrow> byte list" where
  "garbage_bytes g = u64_le (if fst g then 1 else 0) @ u64_le (snd g)"

definition current_body :: "current \<Rightarrow> byte list" where
  "current_body c = CURRENT_MAGIC @
     concat (map u64_le [cu_snapshot c, cu_lsn c, cu_bytes c, cu_records c, cu_pending c,
       of_nat (length (cu_logs c)), of_nat (length (cu_garbage c))]) @
     concat (map u64_le (cu_logs c)) @ concat (map garbage_bytes (cu_garbage c))"

definition current_encode :: "(byte list \<Rightarrow> u64) \<Rightarrow> current \<Rightarrow> io_error + byte list" where
  "current_encode xxh c =
     (if length (cu_logs c) > MAX_GENERATIONS \<or> length (cu_garbage c) > MAX_GENERATIONS * 2
      then Inl (InvalidData ''too many journal generations'')
      else Inr (current_body c @ u64_le (xxh (current_body c))))"

text \<open>The local reader \<open>n\<close>, and its two uses in a loop.\<close>

definition take_u64 :: "byte list \<Rightarrow> io_error + (u64 \<times> byte list)" where
  "take_u64 b = (if length b < 8 then Inl (InvalidData ''truncated CURRENT'') else Inr (u64_of_le (take 8 b), drop 8 b))"

primrec take_logs :: "nat \<Rightarrow> byte list \<Rightarrow> io_error + (u64 list \<times> byte list)" where
  "take_logs 0 b = Inr ([], b)"
| "take_logs (Suc k) b =
     (case take_u64 b of Inl e \<Rightarrow> Inl e
      | Inr (v, b1) \<Rightarrow> (case take_logs k b1 of Inl e \<Rightarrow> Inl e | Inr (vs, b2) \<Rightarrow> Inr (v # vs, b2)))"

primrec take_garbage :: "nat \<Rightarrow> byte list \<Rightarrow> io_error + ((bool \<times> u64) list \<times> byte list)" where
  "take_garbage 0 b = Inr ([], b)"
| "take_garbage (Suc k) b =
     (case take_u64 b of Inl e \<Rightarrow> Inl e
      | Inr (kind, b1) \<Rightarrow>
        if kind > 1 then Inl (InvalidData ''CURRENT file kind'')
        else
          (case take_u64 b1 of Inl e \<Rightarrow> Inl e
           | Inr (g, b2) \<Rightarrow> (case take_garbage k b2 of Inl e \<Rightarrow> Inl e | Inr (gs, b3) \<Rightarrow> Inr ((kind = 1, g) # gs, b3))))"

text \<open>The final test: the recovery set is well formed. Generation numbers wrap in a release build.\<close>

fun consecutive :: "u64 list \<Rightarrow> bool" where
  "consecutive (a # b # r) \<longleftrightarrow> b = a + 1 \<and> consecutive (b # r)"
| "consecutive _ \<longleftrightarrow> True"

definition current_valid :: "current \<Rightarrow> bool" where
  "current_valid c \<longleftrightarrow> cu_logs c \<noteq> [] \<and> length (cu_logs c) \<le> MAX_GENERATIONS \<and> length (cu_garbage c) \<le> 2 * MAX_GENERATIONS \<and>
     cu_snapshot c \<noteq> 0 \<and> hd (cu_logs c) = cu_snapshot c \<and> consecutive (cu_logs c) \<and>
     (cu_pending c = 0 \<or> cu_pending c = last (cu_logs c)) \<and>
     \<not> list_ex (\<lambda>(s, g). (s \<and> g = cu_snapshot c) \<or> (\<not> s \<and> g \<in> set (cu_logs c))) (cu_garbage c)"

definition current_decode :: "(byte list \<Rightarrow> u64) \<Rightarrow> byte list \<Rightarrow> io_error + current" where
  "current_decode xxh b =
     (if length b < 72 \<or> \<not> prefix CURRENT_MAGIC b \<or>
         xxh (take (length b - 8) b) \<noteq> u64_of_le (drop (length b - 8) b)
      then Inl (InvalidData ''journal CURRENT version/checksum'')
      else
        (case take_logs 7 (drop 8 (take (length b - 8) b)) of
           Inl e \<Rightarrow> Inl e
         | Inr (ns, input) \<Rightarrow>
             let logs = ns ! 5; garbage = ns ! 6 in
             if logs = 0 \<or> unat logs > MAX_GENERATIONS \<or> unat garbage > 2 * MAX_GENERATIONS
             then Inl (InvalidData ''CURRENT generation count'')
             else
               (case take_logs (unat logs) input of
                  Inl e \<Rightarrow> Inl e
                | Inr (ls, input1) \<Rightarrow>
                    (case take_garbage (unat garbage) input1 of
                       Inl e \<Rightarrow> Inl e
                     | Inr (gs, input2) \<Rightarrow>
                         let c = \<lparr>cu_snapshot = ns ! 0, cu_lsn = ns ! 1, cu_bytes = ns ! 2, cu_records = ns ! 3,
                                  cu_logs = ls, cu_garbage = gs, cu_pending = ns ! 4\<rparr>
                         in if input2 \<noteq> [] \<or> \<not> current_valid c
                            then Inl (InvalidData ''CURRENT recovery set'') else Inr c))))"

subsection \<open>Lemmas\<close>

lemma take_u64_le [simp]: "take_u64 (u64_le v @ b) = Inr (v, b)"
  by (simp add: take_u64_def)

lemma take_u64_Inr: "take_u64 b = Inr (v, b1) \<longleftrightarrow> b = u64_le v @ b1"
  using append_take_drop_id [of 8 b] u64_le_of_le [of "take 8 b"]
  by (auto simp: take_u64_def split: if_splits)

lemma take_logs_append [simp]: "take_logs (length vs) (concat (map u64_le vs) @ b) = Inr (vs, b)"
  by (induction vs) simp_all

lemma take_logs_Inr: "take_logs k b = Inr (vs, b1) \<longleftrightarrow> length vs = k \<and> b = concat (map u64_le vs) @ b1"
proof (induction k arbitrary: b vs b1)
  case 0
  then show ?case by auto
next
  case (Suc k)
  show ?case
  proof
    assume "take_logs (Suc k) b = Inr (vs, b1)"
    then obtain v b' vs' where "take_u64 b = Inr (v, b')" "take_logs k b' = Inr (vs', b1)" "vs = v # vs'"
      by (auto split: sum.splits prod.splits)
    then show "length vs = Suc k \<and> b = concat (map u64_le vs) @ b1" by (simp add: take_u64_Inr Suc.IH)
  next
    assume "length vs = Suc k \<and> b = concat (map u64_le vs) @ b1"
    then show "take_logs (Suc k) b = Inr (vs, b1)" using take_logs_append [of vs b1] by auto
  qed
qed

lemma garbage_bytes_pair: "garbage_bytes (True, g) = u64_le 1 @ u64_le g" "garbage_bytes (False, g) = u64_le 0 @ u64_le g"
  by (simp_all add: garbage_bytes_def)

lemma take_garbage_append [simp]: "take_garbage (length gs) (concat (map garbage_bytes gs) @ b) = Inr (gs, b)"
  by (induction gs) (auto simp: garbage_bytes_def)

lemma take_garbage_Inr: "take_garbage k b = Inr (gs, b1) \<longleftrightarrow> length gs = k \<and> b = concat (map garbage_bytes gs) @ b1"
proof (induction k arbitrary: b gs b1)
  case 0
  then show ?case by auto
next
  case (Suc k)
  show ?case
  proof
    assume "take_garbage (Suc k) b = Inr (gs, b1)"
    then obtain kind b' g b'' gs' where *: "take_u64 b = Inr (kind, b')" "\<not> kind > 1" "take_u64 b' = Inr (g, b'')"
      "take_garbage k b'' = Inr (gs', b1)" "gs = (kind = 1, g) # gs'"
      by (auto split: sum.splits prod.splits if_splits)
    have "kind = 0 \<or> kind = 1" using *(2) by (auto simp: word_less_nat_alt word_unat_eq_iff)
    then show "length gs = Suc k \<and> b = concat (map garbage_bytes gs) @ b1"
      using * by (auto simp: take_u64_Inr Suc.IH garbage_bytes_pair)
  next
    assume "length gs = Suc k \<and> b = concat (map garbage_bytes gs) @ b1"
    then show "take_garbage (Suc k) b = Inr (gs, b1)" using take_garbage_append [of gs b1] by auto
  qed
qed

lemma CURRENT_MAGIC_length [simp]: "length CURRENT_MAGIC = 8"
  by (simp add: CURRENT_MAGIC_def)

lemma length_concat_u64 [simp]: "length (concat (map u64_le vs)) = 8 * length vs"
  by (induction vs) simp_all

definition current_file :: "(byte list \<Rightarrow> u64) \<Rightarrow> current \<Rightarrow> byte list" where
  "current_file xxh c = current_body c @ u64_le (xxh (current_body c))"

lemma current_encode_file:
  "current_valid c \<Longrightarrow> current_encode xxh c = Inr (current_file xxh c)"
  by (simp add: current_encode_def current_file_def current_valid_def)

lemma unat_small: "n \<le> 2 * MAX_GENERATIONS \<Longrightarrow> unat (of_nat n :: u64) = n"
  by (simp add: MAX_GENERATIONS_def unat_of_nat)

definition current_fields :: "current \<Rightarrow> u64 list" where
  "current_fields c = [cu_snapshot c, cu_lsn c, cu_bytes c, cu_records c, cu_pending c,
       of_nat (length (cu_logs c)), of_nat (length (cu_garbage c))]"

lemma current_body_fields:
  "current_body c = CURRENT_MAGIC @ concat (map u64_le (current_fields c)) @ concat (map u64_le (cu_logs c)) @
     concat (map garbage_bytes (cu_garbage c))"
  by (simp add: current_body_def current_fields_def)

lemma length_current_fields [simp]: "length (current_fields c) = 7"
  by (simp add: current_fields_def)

lemma current_decode_file:
  assumes "current_valid c"
  shows "current_decode xxh (current_file xxh c) = Inr c"
proof -
  let ?b = "current_file xxh c"
  have len: "length ?b - 8 = length (current_body c)" "\<not> length ?b < 72"
    by (simp_all add: current_file_def current_body_fields)
  have parts: "take (length ?b - 8) ?b = current_body c" "drop (length ?b - 8) ?b = u64_le (xxh (current_body c))"
    unfolding len(1) by (simp_all add: current_file_def)
  have pre: "prefix CURRENT_MAGIC ?b" by (simp add: current_file_def current_body_fields)
  have l7: "take_logs 7 (drop 8 (current_body c)) =
      Inr (current_fields c, concat (map u64_le (cu_logs c)) @ concat (map garbage_bytes (cu_garbage c)))"
    by (simp add: take_logs_Inr current_body_fields)
  have n: "unat (of_nat (length (cu_logs c)) :: u64) = length (cu_logs c)"
    "unat (of_nat (length (cu_garbage c)) :: u64) = length (cu_garbage c)" "(of_nat (length (cu_logs c)) :: u64) \<noteq> 0"
    using assms unat_small [of "length (cu_logs c)"] unat_small [of "length (cu_garbage c)"]
    by (auto simp: current_valid_def unat_eq_0 [symmetric])
  have g: "take_garbage (length (cu_garbage c)) (concat (map garbage_bytes (cu_garbage c))) = Inr (cu_garbage c, [])"
    by (simp add: take_garbage_Inr)
  show ?thesis
    unfolding current_decode_def parts l7 sum.case prod.case Let_def
    using assms len(2) pre n g by (simp add: current_fields_def current_valid_def)
qed

lemma current_decode_Inr:
  assumes "current_decode xxh b = Inr c"
  shows "current_valid c \<and> b = current_file xxh c"
proof -
  let ?body = "take (length b - 8) b"
  have c1: "72 \<le> length b" "prefix CURRENT_MAGIC b" "xxh ?body = u64_of_le (drop (length b - 8) b)"
    using assms by (auto simp: current_decode_def split: if_splits)
  obtain ns input where l7: "take_logs 7 (drop 8 ?body) = Inr (ns, input)"
    using assms by (auto simp: current_decode_def split: if_splits sum.splits)
  obtain ls input1 where l: "take_logs (unat (ns ! 5)) input = Inr (ls, input1)"
    using assms l7 by (auto simp: current_decode_def Let_def split: if_splits sum.splits)
  obtain gs where g: "take_garbage (unat (ns ! 6)) input1 = Inr (gs, [])"
    and c: "c = \<lparr>cu_snapshot = ns ! 0, cu_lsn = ns ! 1, cu_bytes = ns ! 2, cu_records = ns ! 3,
       cu_logs = ls, cu_garbage = gs, cu_pending = ns ! 4\<rparr>" and v: "current_valid c"
    using assms l7 l by (auto simp: current_decode_def Let_def split: if_splits sum.splits)
  have ns: "length ns = 7" and d: "drop 8 ?body = concat (map u64_le ns) @ concat (map u64_le ls) @ concat (map garbage_bytes gs)"
    and lens: "length ls = unat (ns ! 5)" "length gs = unat (ns ! 6)"
    using l7 l g by (auto simp: take_logs_Inr take_garbage_Inr)
  have "ns = current_fields c"
    using ns lens by (auto simp: c current_fields_def list_eq_iff_nth_eq less_Suc_eq numeral_eq_Suc)
  moreover have "take 8 ?body = CURRENT_MAGIC"
    using c1 by (auto simp: prefix_def min_def)
  ultimately have body: "current_body c = ?body"
    unfolding current_body_fields using d append_take_drop_id [of 8 ?body] by (simp add: c)
  have "u64_le (xxh ?body) = drop (length b - 8) b"
    unfolding c1(3) using c1(1) by (intro u64_le_of_le) simp
  then have "b = current_file xxh c"
    unfolding current_file_def body by (simp only: append_take_drop_id)
  with v show ?thesis by blast
qed

subsection \<open>Properties\<close>

text \<open>
  C37. The \<open>CURRENT\<close> file has one reading and one writing: decoding accepts exactly the encodings of
  well-formed recovery sets (consecutive log generations that start at the snapshot, a pending
  snapshot only for the last log, no live file among the garbage, bounded numbers of files) and gives back the recovery set that was encoded.
\<close>

theorem current_file_roundtrip:
  "current_decode xxh b = Inr c \<longleftrightarrow> current_valid c \<and> current_encode xxh c = Inr b"
proof
  assume "current_decode xxh b = Inr c"
  then have v: "current_valid c" "b = current_file xxh c" using current_decode_Inr by blast+
  show "current_valid c \<and> current_encode xxh c = Inr b"
    unfolding v(2) using v(1) current_encode_file [OF v(1)] by (rule conjI)
next
  assume a: "current_valid c \<and> current_encode xxh c = Inr b"
  then have "Inr b = (Inr (current_file xxh c) :: io_error + byte list)" using current_encode_file [of c xxh] by metis
  then have "b = current_file xxh c" by (rule sum.inject(2) [THEN iffD1])
  then show "current_decode xxh b = Inr c" using current_decode_file [of c xxh] a by metis
qed

end
