(* ===== verification/Journal_Replay.thy ===== *)
theory Journal_Replay
  imports Journal_Current
begin

text \<open>
  Reading a journal file back (\<open>crates/talon-journal/src/replay.rs\<close>): whole frames are collected into batches
  of bounded size, decoded and visited in order; a torn frame at the end of the last log is cut off. A file is its
  content; the reader's cursor is explicit. \<open>read\<close> has two paths: on one thread it decodes and visits one batch
  after the other (\<open>read_loop\<close>), on more threads it keeps a window of batches that are being decoded and visits
  the oldest one when the window is full (\<open>read_window\<close>). The decoder threads are pure functions of their batch,
  so a pending batch is the result of its decoder; the channels and the spawning of threads are not modelled.
\<close>

subsection \<open>Batches of frames\<close>

definition BATCH_BYTES :: nat where "BATCH_BYTES = 512 * 1024"
definition BATCH_RECORDS :: nat where "BATCH_RECORDS = 1024"

record frames =
  fr_file :: "byte list"
  fr_cursor :: nat
  fr_length :: nat
  fr_position :: nat
  fr_header :: "byte list option"
  fr_tail_ok :: bool
  fr_finished :: bool

definition frames_open :: "byte list \<Rightarrow> bool \<Rightarrow> frames" where
  "frames_open content tail_ok =
     \<lparr>fr_file = content, fr_cursor = 0, fr_length = length content, fr_position = 0, fr_header = None,
      fr_tail_ok = tail_ok, fr_finished = False\<rparr>"

definition read_exact :: "frames \<Rightarrow> nat \<Rightarrow> io_error + (byte list \<times> frames)" where
  "read_exact fr k =
     (if fr_cursor fr + k \<le> length (fr_file fr)
      then Inr (take k (drop (fr_cursor fr) (fr_file fr)), fr\<lparr>fr_cursor := fr_cursor fr + k\<rparr>)
      else Inl (IoOther ''failed to fill whole buffer''))"

definition next_header :: "frames \<Rightarrow> io_error + (byte list \<times> frames)" where
  "next_header fr =
     (case fr_header fr of Some h \<Rightarrow> Inr (h, fr\<lparr>fr_header := None\<rparr>) | None \<Rightarrow> read_exact fr JOURNAL_HEADER)"

lemma read_exact_frames:
  "read_exact fr k = Inr (b, fr') \<Longrightarrow> fr_position fr' = fr_position fr \<and> fr_length fr' = fr_length fr"
  by (auto simp: read_exact_def split: if_splits)

lemma next_header_frames:
  "next_header fr = Inr (b, fr') \<Longrightarrow> fr_position fr' = fr_position fr \<and> fr_length fr' = fr_length fr"
  by (auto simp: next_header_def dest: read_exact_frames split: option.splits)

text \<open>The checks of a header, with the length of the body that follows it.\<close>

definition header_size :: "byte list \<Rightarrow> io_error + nat" where
  "header_size header =
     (if take 8 header \<noteq> JOURNAL_MAGIC then Inl (InvalidData ''unsupported/corrupt journal format'')
      else
        let sz = u32_of_le (take 4 (drop 8 header)) in
        if NOT sz \<noteq> u32_of_le (take 4 (drop 12 header)) then Inl (InvalidData ''journal frame length checksum mismatch'')
        else if unat sz > MAX_RECORD then Inl (InvalidData ''invalid journal frame length'')
        else Inr (unat sz))"

text \<open>The \<open>while\<close> loop of \<open>next\<close>, with the bytes and the number of records of the batch so far.\<close>

function frames_fill :: "frames \<Rightarrow> byte list \<Rightarrow> nat \<Rightarrow> io_error + (frames \<times> byte list)" where
  "frames_fill fr bytes records =
     (if fr_finished fr \<or> \<not> fr_position fr < fr_length fr \<or> \<not> records < BATCH_RECORDS then Inr (fr, bytes)
      else if fr_length fr - fr_position fr < JOURNAL_HEADER then
        (if \<not> fr_tail_ok fr then Inl (InvalidData ''truncated journal header'')
         else Inr (fr\<lparr>fr_finished := True\<rparr>, bytes))
      else
        (case next_header fr of Inl e \<Rightarrow> Inl e
         | Inr (header, fr1) \<Rightarrow>
           (case header_size header of Inl e \<Rightarrow> Inl e
            | Inr n \<Rightarrow>
               if fr_length fr1 - fr_position fr1 - JOURNAL_HEADER < n then
                 (if \<not> fr_tail_ok fr1 then Inl (InvalidData ''truncated journal body'')
                  else Inr (fr1\<lparr>fr_finished := True\<rparr>, bytes))
               else if bytes \<noteq> [] \<and> length bytes + JOURNAL_HEADER + n > BATCH_BYTES
               then Inr (fr1\<lparr>fr_header := Some header\<rparr>, bytes)
               else
                 (case read_exact fr1 n of Inl e \<Rightarrow> Inl e
                  | Inr (body, fr2) \<Rightarrow>
                      frames_fill (fr2\<lparr>fr_position := fr_position fr2 + (JOURNAL_HEADER + n)\<rparr>) (bytes @ header @ body)
                        (records + 1)))))"
  by pat_completeness auto
termination
proof (relation "measure (\<lambda>(fr, bytes, records). fr_length fr - fr_position fr)", goal_cases)
  case (2 fr bytes records a header fr1 n b body fr2)
  then have "fr_position fr2 = fr_position fr" "fr_length fr2 = fr_length fr" "fr_position fr < fr_length fr"
    using read_exact_frames [of fr1 n body fr2] next_header_frames [of fr header fr1] by simp_all
  then show ?case by (simp add: JOURNAL_HEADER_def)
qed simp

declare frames_fill.simps [simp del]

definition frames_next :: "frames \<Rightarrow> io_error + (frames \<times> (byte list \<times> nat) option)" where
  "frames_next fr =
     (case frames_fill fr [] 0 of Inl e \<Rightarrow> Inl e
      | Inr (fr', bytes) \<Rightarrow> Inr (fr', if bytes \<noteq> [] then Some (bytes, fr_position fr') else None))"

lemma frames_fill_cases:
  assumes "frames_fill fr bytes records = Inr (fr', bytes')"
  obtains (stop) "fr_position fr' = fr_position fr" "fr_length fr' = fr_length fr" "bytes' = bytes"
  | (step) header fr1 n body fr2 where "fr_position fr < fr_length fr" "next_header fr = Inr (header, fr1)"
      "read_exact fr1 n = Inr (body, fr2)"
      "frames_fill (fr2\<lparr>fr_position := fr_position fr2 + (JOURNAL_HEADER + n)\<rparr>) (bytes @ header @ body) (records + 1) =
        Inr (fr', bytes')"
  using assms unfolding frames_fill.simps [of fr bytes records]
  by (auto simp: split: if_splits sum.splits dest!: next_header_frames)

lemma frames_fill_position:
  "frames_fill fr bytes records = Inr (fr', bytes') \<Longrightarrow>
    fr_length fr' = fr_length fr \<and> fr_position fr \<le> fr_position fr' \<and>
    (bytes' \<noteq> bytes \<longrightarrow> fr_position fr < fr_position fr' \<and> fr_position fr < fr_length fr)"
proof (induction "fr_length fr - fr_position fr" arbitrary: fr bytes records rule: less_induct)
  case less
  from less.prems show ?case
  proof (cases rule: frames_fill_cases)
    case (step header fr1 n body fr2)
    then have "fr_position fr2 = fr_position fr" "fr_length fr2 = fr_length fr"
      using read_exact_frames [of fr1 n body fr2] next_header_frames [of fr header fr1] by simp_all
    moreover from this have "fr_length fr' = fr_length fr \<and> fr_position fr + (32 + n) \<le> fr_position fr'"
      using less.hyps [OF _ step(4)] step(1) by (simp add: JOURNAL_HEADER_def)
    ultimately show ?thesis using step(1) by simp
  qed simp
qed

primrec visit_all :: "('s \<Rightarrow> u64 \<Rightarrow> 'a \<Rightarrow> io_error + 's) \<Rightarrow> (u64 \<times> 'a) list \<Rightarrow> 's \<Rightarrow> io_error + 's" where
  "visit_all visit [] s = Inr s"
| "visit_all visit (r # rs) s = (case visit s (fst r) (snd r) of Inl e \<Rightarrow> Inl e | Inr s' \<Rightarrow> visit_all visit rs s')"

function read_loop ::
  "(byte list \<Rightarrow> u64) \<Rightarrow> (byte list \<Rightarrow> io_error + 'a) \<Rightarrow> ('s \<Rightarrow> u64 \<Rightarrow> 'a \<Rightarrow> io_error + 's) \<Rightarrow> frames \<Rightarrow> 's
    \<Rightarrow> io_error + ('s \<times> nat)" where
  "read_loop xxh dec visit fr s =
     (case frames_next fr of Inl e \<Rightarrow> Inl e
      | Inr (fr', batch) \<Rightarrow>
        (case batch of None \<Rightarrow> Inr (s, fr_position fr')
         | Some b \<Rightarrow>
           (case frame_decode xxh dec (fst b) of Inl e \<Rightarrow> Inl e
            | Inr recs \<Rightarrow>
              (case visit_all visit recs s of Inl e \<Rightarrow> Inl e | Inr s' \<Rightarrow> read_loop xxh dec visit fr' s'))))"
  by pat_completeness auto
termination
  by (relation "measure (\<lambda>(xxh, dec, visit, fr, s). fr_length fr - fr_position fr)")
    (auto simp: frames_next_def split: sum.splits if_splits dest!: frames_fill_position)

declare read_loop.simps [simp del]

definition read_file ::
  "(byte list \<Rightarrow> u64) \<Rightarrow> (byte list \<Rightarrow> io_error + 'a) \<Rightarrow> ('s \<Rightarrow> u64 \<Rightarrow> 'a \<Rightarrow> io_error + 's) \<Rightarrow> byte list \<Rightarrow> bool \<Rightarrow> 's
    \<Rightarrow> io_error + ('s \<times> nat)" where
  "read_file xxh dec visit content tail_ok s = read_loop xxh dec visit (frames_open content tail_ok) s"

subsection \<open>The window of batches\<close>

definition WINDOW_BYTES :: nat where "WINDOW_BYTES = 64 * 1024 * 1024"

text \<open>
  One iteration reads a batch while the window has room, and otherwise visits the oldest pending batch; a window
  that has neither spins forever (\<open>None\<close>).
\<close>

function read_window ::
  "(byte list \<Rightarrow> u64) \<Rightarrow> (byte list \<Rightarrow> io_error + 'a) \<Rightarrow> ('s \<Rightarrow> u64 \<Rightarrow> 'a \<Rightarrow> io_error + 's) \<Rightarrow> nat \<Rightarrow> frames
    \<Rightarrow> (nat \<times> nat \<times> (io_error + (u64 \<times> 'a) list)) list \<Rightarrow> nat \<Rightarrow> bool \<Rightarrow> nat \<Rightarrow> 's \<Rightarrow> (io_error + ('s \<times> nat)) option" where
  "read_window xxh dec visit threads fr pending queued eof offset s =
     (if \<not> eof \<and> length pending < threads * 2 \<and> queued \<le> WINDOW_BYTES - MAX_RECORD - JOURNAL_HEADER then
        (case frames_next fr of Inl e \<Rightarrow> Some (Inl e)
         | Inr (fr', batch) \<Rightarrow>
           (case batch of None \<Rightarrow> read_window xxh dec visit threads fr' pending queued True offset s
            | Some b \<Rightarrow>
                read_window xxh dec visit threads fr'
                  (pending @ [(length (fst b), snd b, frame_decode xxh dec (fst b))]) (queued + length (fst b)) eof offset s))
      else
        (case pending of
           [] \<Rightarrow> if eof then Some (Inr (s, offset)) else None
         | p # pending' \<Rightarrow>
           (case snd (snd p) of Inl e \<Rightarrow> Some (Inl e)
            | Inr recs \<Rightarrow>
              (case visit_all visit recs s of Inl e \<Rightarrow> Some (Inl e)
               | Inr s' \<Rightarrow> read_window xxh dec visit threads fr pending' (queued - fst p) eof (fst (snd p)) s'))))"
  by pat_completeness auto
termination
proof (relation "measure (\<lambda>(xxh, dec, visit, threads, fr, pending, queued, eof, offset, s).
    2 * (fr_length fr - fr_position fr) + length pending + (if eof then 0 else 1))", goal_cases)
  case (2 xxh dec visit threads fr pending queued eof offset s a fr' batch)
  then have "fr_length fr' = fr_length fr \<and> fr_position fr \<le> fr_position fr'"
    by (auto simp: frames_next_def split: sum.splits if_splits dest!: frames_fill_position)
  then have "fr_length fr' - fr_position fr' \<le> fr_length fr - fr_position fr" by linarith
  then show ?case using 2 by simp
next
  case (3 xxh dec visit threads fr pending queued eof offset s a fr' batch b)
  then have "fr_length fr' = fr_length fr \<and> fr_position fr < fr_position fr' \<and> fr_position fr < fr_length fr"
    by (auto simp: frames_next_def split: sum.splits if_splits dest!: frames_fill_position)
  then have "fr_length fr' - fr_position fr' < fr_length fr - fr_position fr" by linarith
  then show ?case using 3 by simp
qed simp_all

declare read_window.simps [simp del]

definition journal_read ::
  "(byte list \<Rightarrow> u64) \<Rightarrow> (byte list \<Rightarrow> io_error + 'a) \<Rightarrow> ('s \<Rightarrow> u64 \<Rightarrow> 'a \<Rightarrow> io_error + 's) \<Rightarrow> nat \<Rightarrow> byte list \<Rightarrow> bool \<Rightarrow> 's
    \<Rightarrow> (io_error + ('s \<times> nat)) option" where
  "journal_read xxh dec visit threads content tail_ok s =
     (let fr = frames_open content tail_ok;
          threads = min (max threads 1) (max ((fr_length fr + BATCH_BYTES - 1) div BATCH_BYTES) 1)
      in
      if threads = 1 then Some (read_loop xxh dec visit fr s)
      else read_window xxh dec visit (threads - 1) fr [] 0 False 0 s)"

subsection \<open>Lemmas\<close>

lemma visit_all_append:
  "visit_all visit (xs @ ys) s = (case visit_all visit xs s of Inl e \<Rightarrow> Inl e | Inr s' \<Rightarrow> visit_all visit ys s')"
  by (induction xs arbitrary: s) (auto split: sum.splits)

text \<open>The reader stands at offset \<open>p\<close> of the file, with the header at \<open>p\<close> possibly read ahead.\<close>

definition frames_at :: "byte list \<Rightarrow> bool \<Rightarrow> nat \<Rightarrow> frames \<Rightarrow> bool" where
  "frames_at F tail_ok p fr \<longleftrightarrow>
     fr_file fr = F \<and> fr_length fr = length F \<and> fr_position fr = p \<and> p \<le> length F \<and> fr_tail_ok fr = tail_ok \<and>
     (fr_finished fr \<longrightarrow> tail_ok) \<and>
     (case fr_header fr of None \<Rightarrow> fr_finished fr \<or> fr_cursor fr = p
      | Some h \<Rightarrow> fr_cursor fr = p + 32 \<and> h = take 32 (drop p F))"

definition torn_tail :: "(byte list \<Rightarrow> u64) \<Rightarrow> byte list \<Rightarrow> bool" where
  "torn_tail xxh tail \<longleftrightarrow>
     (\<exists>r k. length (snd r) \<le> MAX_RECORD \<and> k < length (frame_bytes xxh r) \<and> tail = take k (frame_bytes xxh r))"

lemma frames_open_at: "frames_at F tail_ok 0 (frames_open F tail_ok)"
  by (simp add: frames_at_def frames_open_def)

lemma next_header_at:
  assumes "frames_at F tail_ok p fr" "p + 32 \<le> length F" "\<not> fr_finished fr"
  shows "next_header fr = Inr (take 32 (drop p F), fr\<lparr>fr_cursor := p + 32, fr_header := None\<rparr>)"
  using assms by (cases fr) (auto simp: frames_at_def next_header_def read_exact_def JOURNAL_HEADER_def split: option.splits)

lemma header_size_frame:
  assumes "length body \<le> MAX_RECORD" "32 \<le> k"
  shows "header_size (take 32 (take k (frame_bytes xxh (lsn, body) @ rest))) = Inr (length body)"
proof -
  let ?n = "of_nat (length body) :: u32"
  let ?H = "frame_head lsn body @ u64_le (xxh (frame_head lsn body @ body))"
  have t: "take 32 (take k (frame_bytes xxh (lsn, body) @ rest)) = ?H"
    using assms(2) by (simp add: frame_bytes_def min_def)
  note f = header_fields [of JOURNAL_MAGIC "u32_le ?n" "u32_le (NOT ?n)" "u64_le lsn" "u64_le (xxh (frame_head lsn body @ body))" ?H]
  have f: "take 8 ?H = JOURNAL_MAGIC" "take 4 (drop 8 ?H) = u32_le ?n" "take 4 (drop 12 ?H) = u32_le (NOT ?n)"
    by (intro f | simp add: frame_head_def)+
  show ?thesis unfolding t header_size_def f u32_of_le_le Let_def using assms(1) MAX_RECORD_less [OF assms(1)] by simp
qed

text \<open>At a torn tail the batch ends.\<close>

lemma frames_fill_tail:
  assumes "frames_at F tail_ok p fr" "drop p F = tail" "torn_tail xxh tail" "tail_ok \<or> tail = []"
  shows "\<exists>fr'. frames_fill fr bytes records = Inr (fr', bytes) \<and> frames_at F tail_ok p fr'"
proof (cases "fr_finished fr \<or> \<not> p < length F \<or> \<not> records < BATCH_RECORDS")
  case True
  then show ?thesis using assms(1) by (intro exI [of _ fr]) (auto simp: frames_fill.simps [of fr] frames_at_def)
next
  case False
  then have t: tail_ok "fr_tail_ok fr" "fr_length fr = length F" "fr_position fr = p" using assms by (auto simp: frames_at_def)
  show ?thesis
  proof (cases "length F - p < 32")
    case True
    then show ?thesis using assms(1) False t
      by (intro exI [of _ "fr\<lparr>fr_finished := True\<rparr>"])
        (auto simp: frames_fill.simps [of fr] frames_at_def JOURNAL_HEADER_def split: option.splits)
  next
    case long: False
    obtain lsn body k where r: "length body \<le> MAX_RECORD" "k < 32 + length body" "tail = take k (frame_bytes xxh (lsn, body))"
      using assms(3) by (auto simp: torn_tail_def)
    have k: "k = length F - p" using r(2,3) assms(2) by (metis frame_bytes_length length_drop length_take min.absorb4 snd_conv)
    have "header_size (take 32 (drop p F)) = Inr (length body)"
      using header_size_frame [OF r(1), of k xxh lsn "[]"] r(3) k long assms(2) by simp
    then show ?thesis
      using assms(1) False t long k r(2) next_header_at [OF assms(1)]
      by (intro exI [of _ "fr\<lparr>fr_cursor := p + 32, fr_header := None, fr_finished := True\<rparr>"])
        (auto simp: frames_fill.simps [of fr] frames_at_def JOURNAL_HEADER_def)
  qed
qed

text \<open>A whole frame at the position is appended to the batch, unless the batch is full.\<close>

lemma frames_fill_frame:
  assumes "frames_at F tail_ok p fr" "\<not> fr_finished fr" "records < BATCH_RECORDS"
    "drop p F = frame_bytes xxh (lsn, body) @ rest" "length body \<le> MAX_RECORD"
  shows "frames_fill fr bytes records =
    (if bytes \<noteq> [] \<and> length bytes + 32 + length body > BATCH_BYTES
     then Inr (fr\<lparr>fr_cursor := p + 32, fr_header := Some (take 32 (drop p F))\<rparr>, bytes)
     else frames_fill (fr\<lparr>fr_cursor := p + (32 + length body), fr_header := None, fr_position := p + (32 + length body)\<rparr>)
            (bytes @ frame_bytes xxh (lsn, body)) (records + 1))"
proof -
  have len: "length F - p = 32 + length body + length rest" using arg_cong [OF assms(4), of length] by simp
  then have lt: "p < length F" by simp
  have at: "fr_length fr = length F" "fr_position fr = p" "fr_file fr = F" using assms(1) by (simp_all add: frames_at_def)
  have h: "next_header fr = Inr (take 32 (drop p F), fr\<lparr>fr_cursor := p + 32, fr_header := None\<rparr>)"
    using assms(1,2) len by (intro next_header_at) auto
  have sz: "header_size (take 32 (drop p F)) = Inr (length body)"
    using header_size_frame [OF assms(5), of "length F" xxh lsn rest] len by (simp add: assms(4))
  have "take (32 + length body) (drop p F) = frame_bytes xxh (lsn, body)" by (simp add: assms(4))
  then have b: "take 32 (drop p F) @ take (length body) (drop (p + 32) F) = frame_bytes xxh (lsn, body)"
    using take_add [of 32 "length body" "drop p F"] by (simp add: add.commute)
  have r: "read_exact (fr\<lparr>fr_cursor := p + 32, fr_header := None\<rparr>) (length body) =
    Inr (take (length body) (drop (p + 32) F), fr\<lparr>fr_cursor := p + (32 + length body), fr_header := None\<rparr>)"
    using len at by (cases fr) (simp add: read_exact_def)
  show ?thesis
    unfolding frames_fill.simps [of fr bytes records] h sum.case prod.case sz r b
    using assms(2,3) len lt at by (cases fr) (simp add: JOURNAL_HEADER_def)
qed

lemma frames_fill_spec:
  assumes "frames_at F tail_ok p fr" "drop p F = concat (map (frame_bytes xxh) rs) @ tail"
    "list_all (\<lambda>r. length (snd r) \<le> MAX_RECORD) rs" "torn_tail xxh tail" "tail_ok \<or> tail = []"
    "rs \<noteq> [] \<Longrightarrow> \<not> fr_finished fr"
  shows "\<exists>k fr'. k \<le> length rs \<and>
    frames_fill fr bytes records = Inr (fr', bytes @ concat (map (frame_bytes xxh) (take k rs))) \<and>
    frames_at F tail_ok (p + length (concat (map (frame_bytes xxh) (take k rs)))) fr' \<and>
    (k < length rs \<longrightarrow> \<not> fr_finished fr') \<and> (bytes = [] \<and> records = 0 \<and> rs \<noteq> [] \<longrightarrow> 0 < k)"
  using assms
proof (induction rs arbitrary: p fr bytes records)
  case Nil
  then show ?case using frames_fill_tail [of F tail_ok p fr tail xxh bytes records] by auto
next
  case (Cons r rs)
  obtain lsn body where r: "r = (lsn, body)" by (cases r)
  let ?tl = "concat (map (frame_bytes xxh) rs) @ tail"
  have d: "drop p F = frame_bytes xxh (lsn, body) @ ?tl" "length body \<le> MAX_RECORD" "\<not> fr_finished fr"
    using Cons.prems r by simp_all
  show ?case
  proof (cases "records < BATCH_RECORDS")
    case False
    then show ?thesis using Cons.prems(1) d(3)
      by (intro exI [of _ 0] exI [of _ fr]) (simp add: frames_fill.simps [of fr] BATCH_RECORDS_def)
  next
    case more: True
    note step = frames_fill_frame [OF Cons.prems(1) d(3) more d(1,2), of bytes]
    show ?thesis
    proof (cases "bytes \<noteq> [] \<and> length bytes + 32 + length body > BATCH_BYTES")
      case True
      then show ?thesis unfolding step using Cons.prems(1) d(3)
        by (intro exI [of _ 0] exI [of _ "fr\<lparr>fr_cursor := p + 32, fr_header := Some (take 32 (drop p F))\<rparr>"])
          (simp add: frames_at_def)
    next
      case False
      let ?q = "p + (32 + length body)"
      let ?fr = "fr\<lparr>fr_cursor := ?q, fr_header := None, fr_position := ?q\<rparr>"
      have dq: "drop ?q F = ?tl"
        using arg_cong [OF d(1), of "drop (32 + length body)"] by (simp add: add.commute add.left_commute)
      have "?q \<le> length F" using arg_cong [OF d(1), of length] by simp
      then have "frames_at F tail_ok ?q ?fr" using Cons.prems(1) by (simp add: frames_at_def)
      from Cons.IH [OF this dq _ Cons.prems(4,5), of "bytes @ frame_bytes xxh r" "records + 1"] Cons.prems(3) d(3)
      obtain k fr' where k: "k \<le> length rs"
        "frames_fill ?fr (bytes @ frame_bytes xxh r) (records + 1) = Inr (fr', (bytes @ frame_bytes xxh r) @ concat (map (frame_bytes xxh) (take k rs)))"
        "frames_at F tail_ok (?q + length (concat (map (frame_bytes xxh) (take k rs)))) fr'" "k < length rs \<longrightarrow> \<not> fr_finished fr'"
        by auto
      then show ?thesis unfolding step using False r by (intro exI [of _ "Suc k"] exI [of _ fr']) (auto simp: add.assoc)
    qed
  qed
qed

lemma read_loop_spec:
  assumes "frames_at F tail_ok p fr" "drop p F = concat (map (frame_bytes xxh) rs) @ tail"
    "list_all (\<lambda>r. length (snd r) \<le> MAX_RECORD \<and> dec (snd r) = Inr (f (snd r))) rs" "torn_tail xxh tail" "tail_ok \<or> tail = []"
    "rs \<noteq> [] \<Longrightarrow> \<not> fr_finished fr"
  shows "read_loop xxh dec visit fr s =
    (case visit_all visit (map (\<lambda>r. (fst r, f (snd r))) rs) s of Inl e \<Rightarrow> Inl e
     | Inr s' \<Rightarrow> Inr (s', p + length (concat (map (frame_bytes xxh) rs))))"
  using assms
proof (induction "length rs" arbitrary: rs p fr s rule: less_induct)
  case less
  let ?g = "\<lambda>rs. concat (map (frame_bytes xxh) rs)" and ?v = "map (\<lambda>r. (fst r, f (snd r)))"
  have "list_all (\<lambda>r. length (snd r) \<le> MAX_RECORD) rs" using less.prems(3) by (auto simp: list_all_iff)
  from frames_fill_spec [OF less.prems(1,2) this less.prems(4-6), of "[]" 0]
  obtain k fr' where k: "k \<le> length rs" "frames_fill fr [] 0 = Inr (fr', ?g (take k rs))"
    "frames_at F tail_ok (p + length (?g (take k rs))) fr'" "k < length rs \<Longrightarrow> \<not> fr_finished fr'" "rs \<noteq> [] \<Longrightarrow> 0 < k"
    by auto
  show ?case
  proof (cases "rs = []")
    case True
    then show ?thesis using k by (simp add: read_loop.simps [of _ _ _ fr] frames_next_def frames_at_def)
  next
    case False
    then have pos: "0 < k" using k(5) by simp
    then have ne: "?g (take k rs) \<noteq> []" using False by (cases rs; cases k) (auto simp: frame_bytes_def frame_head_def JOURNAL_MAGIC_def as_bytes_def)
    have dec: "frame_decode xxh dec (?g (take k rs)) = Inr (?v (take k rs))"
      using less.prems(3) by (intro frame_decode_concat) (auto simp: list_all_iff dest: in_set_takeD)
    have gs: "?g rs = ?g (take k rs) @ ?g (drop k rs)" by (metis append_take_drop_id concat_append map_append)
    have "drop (p + length (?g (take k rs))) F = ?g (drop k rs) @ tail"
      using arg_cong [OF less.prems(2), of "drop (length (?g (take k rs)))"] gs by (simp add: add.commute)
    from less.hyps [OF _ k(3) this _ less.prems(4,5)] pos k(1,4) False less.prems(3)
    have IH: "read_loop xxh dec visit fr' s' =
      (case visit_all visit (?v (drop k rs)) s' of Inl e \<Rightarrow> Inl e | Inr s' \<Rightarrow> Inr (s', p + length (?g (take k rs)) + length (?g (drop k rs))))" for s'
      by (auto simp: list_all_iff dest: in_set_dropD)
    have v: "visit_all visit (?v rs) s = (case visit_all visit (?v (take k rs)) s of Inl e \<Rightarrow> Inl e | Inr s' \<Rightarrow> visit_all visit (?v (drop k rs)) s')"
      using visit_all_append [of visit "?v (take k rs)" "?v (drop k rs)" s] by (simp flip: map_append)
    show ?thesis
      unfolding read_loop.simps [of _ _ _ fr] frames_next_def k(2) v sum.case prod.case if_P [OF ne] option.case fst_conv dec gs length_append add.assoc [symmetric]
      by (cases "visit_all visit (?v (take k rs)) s") (simp_all add: IH)
  qed
qed

text \<open>The other direction: every batch is a piece of the file.\<close>

lemma frames_fill_at_cases:
  assumes at: "frames_at F tail_ok p fr" and fill: "frames_fill fr bytes records = Inr (fr', bytes')"
  obtains (stop) "bytes' = bytes" "frames_at F tail_ok p fr'" "bytes = [] \<and> records = 0 \<longrightarrow> p = length F \<or> tail_ok"
  | (step) n fr2 where "frames_at F tail_ok (p + (32 + n)) fr2"
      "frames_fill fr2 (bytes @ take (32 + n) (drop p F)) (records + 1) = Inr (fr', bytes')"
proof -
  have t: "fr_tail_ok fr = tail_ok" "fr_length fr = length F" "fr_position fr = p" "fr_file fr = F" "p \<le> length F"
    using at by (auto simp: frames_at_def)
  note unf = frames_fill.simps [of fr bytes records] t JOURNAL_HEADER_def
  consider (ended) "fr_finished fr \<or> \<not> p < length F \<or> \<not> records < BATCH_RECORDS"
    | (short) "\<not> fr_finished fr" "p < length F" "records < BATCH_RECORDS" "length F - p < 32"
    | (long) "\<not> fr_finished fr" "p < length F" "records < BATCH_RECORDS" "32 \<le> length F - p"
    by linarith
  then show thesis
  proof cases
    case ended
    have "fr' = fr" "bytes' = bytes" using ended fill unfolding unf by simp_all
    then show thesis using at t(5) ended by (intro stop) (auto simp: BATCH_RECORDS_def frames_at_def)
  next
    case short
    have tail_ok "fr' = fr\<lparr>fr_finished := True\<rparr>" "bytes' = bytes"
      using short fill unfolding unf by (auto split: if_splits)
    then show thesis using at by (intro stop) (auto simp: frames_at_def split: option.splits)
  next
    case long
    let ?H = "take 32 (drop p F)" and ?fr1 = "fr\<lparr>fr_cursor := p + 32, fr_header := None\<rparr>"
    have h: "next_header fr = Inr (?H, ?fr1)" using next_header_at [OF at] long by simp
    obtain n where n: "header_size ?H = Inr n"
      using fill long unfolding unf h by (cases "header_size ?H") auto
    consider (torn) "length F - p - 32 < n" | (full) "\<not> length F - p - 32 < n" "bytes \<noteq> [] \<and> length bytes + 32 + n > BATCH_BYTES"
      | (more) "\<not> length F - p - 32 < n" "\<not> (bytes \<noteq> [] \<and> length bytes + 32 + n > BATCH_BYTES)"
      by blast
    then show thesis
    proof cases
      case torn
      have tail_ok "fr' = ?fr1\<lparr>fr_finished := True\<rparr>" "bytes' = bytes"
        using torn long fill unfolding unf h by (auto simp: t n split: if_splits)
      then show thesis using at by (intro stop) (auto simp: frames_at_def)
    next
      case full
      have "fr' = ?fr1\<lparr>fr_header := Some ?H\<rparr>" "bytes' = bytes"
        using full long fill unfolding unf h by (auto simp: t n)
      then show thesis using at full by (intro stop) (auto simp: frames_at_def)
    next
      case more
      have r: "read_exact ?fr1 n = Inr (take n (drop (p + 32) F), ?fr1\<lparr>fr_cursor := p + 32 + n\<rparr>)"
        using more(1) long t(4) by (simp add: read_exact_def)
      have b: "take (32 + n) (drop p F) = ?H @ take n (drop (p + 32) F)"
        using take_add [of 32 n "drop p F"] by (simp add: add.commute)
      let ?fr2 = "?fr1\<lparr>fr_cursor := p + 32 + n, fr_position := p + (32 + n)\<rparr>"
      have "frames_at F tail_ok (p + (32 + n)) ?fr2" using at more(1) long by (simp add: frames_at_def)
      moreover have "frames_fill ?fr2 (bytes @ take (32 + n) (drop p F)) (records + 1) = Inr (fr', bytes')"
        using more long fill unfolding unf h b by (auto simp: t n r add.assoc)
      ultimately show thesis by (rule step)
    qed
  qed
qed

lemma take_drop_split:
  assumes "p + m \<le> q"
  shows "take (q - p) (drop p F) = take m (drop p F) @ take (q - (p + m)) (drop (p + m) F)"
proof -
  obtain k where "q = p + m + k" using assms le_iff_add by blast
  then show ?thesis using take_add [of m k "drop p F"] by (simp add: add.commute add.left_commute)
qed

lemma frames_fill_sound:
  "frames_at F tail_ok p fr \<Longrightarrow> frames_fill fr bytes records = Inr (fr', bytes') \<Longrightarrow>
    \<exists>q. frames_at F tail_ok q fr' \<and> p \<le> q \<and> bytes' = bytes @ take (q - p) (drop p F) \<and>
      (bytes = [] \<and> records = 0 \<and> q = p \<longrightarrow> p = length F \<or> tail_ok)"
proof (induction "length F - p" arbitrary: p fr bytes records rule: less_induct)
  case less
  from less.prems show ?case
  proof (cases rule: frames_fill_at_cases)
    case stop
    then show ?thesis by (intro exI [of _ p]) simp
  next
    case (step n fr2)
    have len: "p + (32 + n) \<le> length F" using step(1) by (simp add: frames_at_def)
    then have "length F - (p + (32 + n)) < length F - p" by linarith
    from less.hyps [OF this step] obtain q where q: "frames_at F tail_ok q fr'" "p + (32 + n) \<le> q"
      "bytes' = (bytes @ take (32 + n) (drop p F)) @ take (q - (p + (32 + n))) (drop (p + (32 + n)) F)" by auto
    then have "take (q - p) (drop p F) = take (32 + n) (drop p F) @ take (q - (p + (32 + n))) (drop (p + (32 + n)) F)"
      by (intro take_drop_split) simp
    then show ?thesis using q by (intro exI [of _ q]) simp
  qed
qed

lemma read_loop_sound:
  "frames_at F tail_ok p fr \<Longrightarrow> read_loop xxh dec visit fr s = Inr (s', off) \<Longrightarrow>
    p \<le> off \<and> off \<le> length F \<and> (off < length F \<longrightarrow> tail_ok) \<and>
    (\<exists>rs recs. take (off - p) (drop p F) = concat (map (frame_bytes xxh) rs) \<and>
      list_all (\<lambda>r. length (snd r) \<le> MAX_RECORD) rs \<and>
      list_all2 (\<lambda>r v. fst r = fst v \<and> dec (snd r) = Inr (snd v)) rs recs \<and> visit_all visit recs s = Inr s')"
proof (induction "length F - p" arbitrary: p fr s rule: less_induct)
  case less
  obtain fr' bytes' where fill: "frames_fill fr [] 0 = Inr (fr', bytes')"
    using less.prems(2) unfolding read_loop.simps [of _ _ _ fr] frames_next_def by (auto split: sum.splits)
  from frames_fill_sound [OF less.prems(1) fill] obtain q where
    q: "frames_at F tail_ok q fr'" "p \<le> q" "bytes' = take (q - p) (drop p F)" "q = p \<longrightarrow> p = length F \<or> tail_ok" by auto
  have len: "q \<le> length F" "fr_position fr' = q" using q(1) by (simp_all add: frames_at_def)
  show ?case
  proof (cases "bytes' = []")
    case True
    then have "q = p" using q(2,3) len by auto
    moreover have "s' = s" "off = q" using less.prems(2) True len(2) unfolding read_loop.simps [of _ _ _ fr] frames_next_def fill by auto
    ultimately show ?thesis using q(4) len
      by (intro conjI exI [of _ "[]"]) auto
  next
    case False
    then have lt: "p < q" using q(2,3) by (cases "p = q") auto
    obtain recs s1 where d: "frame_decode xxh dec bytes' = Inr recs" "visit_all visit recs s = Inr s1"
      "read_loop xxh dec visit fr' s1 = Inr (s', off)"
      using less.prems(2) False unfolding read_loop.simps [of _ _ _ fr] frames_next_def fill by (auto split: sum.splits)
    have "length F - q < length F - p" using lt len by linarith
    from less.hyps [OF this q(1) d(3)] obtain rs2 recs2 where 2: "q \<le> off" "off \<le> length F" "off < length F \<longrightarrow> tail_ok"
      "take (off - q) (drop q F) = concat (map (frame_bytes xxh) rs2)" "list_all (\<lambda>r. length (snd r) \<le> MAX_RECORD) rs2"
      "list_all2 (\<lambda>r v. fst r = fst v \<and> dec (snd r) = Inr (snd v)) rs2 recs2" "visit_all visit recs2 s1 = Inr s'"
      by auto
    from frame_decode_sound [OF d(1)] obtain rs where 1: "bytes' = concat (map (frame_bytes xxh) rs)"
      "list_all (\<lambda>r. length (snd r) \<le> MAX_RECORD) rs" "list_all2 (\<lambda>r v. fst r = fst v \<and> dec (snd r) = Inr (snd v)) rs recs" by blast
    have "take (off - p) (drop p F) = take (q - p) (drop p F) @ take (off - q) (drop q F)"
      using take_drop_split [of p "q - p" off F] lt 2(1) by simp
    then have "take (off - p) (drop p F) = concat (map (frame_bytes xxh) (rs @ rs2))" using 1(1) 2(4) q(3) by simp
    then show ?thesis using 1 2 lt d(2)
      by (intro conjI exI [of _ "rs @ rs2"] exI [of _ "recs @ recs2"]) (auto simp: visit_all_append list_all2_appendI)
  qed
qed

subsection \<open>The window visits the same records\<close>

primrec drain :: "('s \<Rightarrow> u64 \<Rightarrow> 'a \<Rightarrow> io_error + 's) \<Rightarrow> (nat \<times> nat \<times> (io_error + (u64 \<times> 'a) list)) list \<Rightarrow> 's \<Rightarrow> io_error + 's" where
  "drain visit [] s = Inr s"
| "drain visit (p # ps) s =
     (case snd (snd p) of Inl e \<Rightarrow> Inl e
      | Inr recs \<Rightarrow> (case visit_all visit recs s of Inl e \<Rightarrow> Inl e | Inr s' \<Rightarrow> drain visit ps s'))"

lemma drain_append:
  "drain visit (ps @ qs) s = (case drain visit ps s of Inl e \<Rightarrow> Inl e | Inr s' \<Rightarrow> drain visit qs s')"
  by (induction ps arbitrary: s) (auto split: sum.splits)

text \<open>What is left to do: the pending batches and then the rest of the file.\<close>

definition window_rest where
  "window_rest xxh dec visit fr pending eof s =
     (case drain visit pending s of Inl e \<Rightarrow> Inl e
      | Inr s' \<Rightarrow> if eof then Inr (s', fr_position fr) else read_loop xxh dec visit fr s')"

definition window_end :: "(nat \<times> nat \<times> 'r) list \<Rightarrow> nat \<Rightarrow> nat" where
  "window_end pending offset = (if pending = [] then offset else fst (snd (last pending)))"

lemma frames_next_at:
  assumes "frames_at F tail_ok p fr" "frames_next fr = Inr (fr', batch)"
  shows "frames_at F tail_ok (fr_position fr') fr' \<and>
    (case batch of None \<Rightarrow> fr_position fr' = fr_position fr | Some b \<Rightarrow> snd b = fr_position fr')"
proof -
  obtain bytes' where fill: "frames_fill fr [] 0 = Inr (fr', bytes')"
    and b: "batch = (if bytes' \<noteq> [] then Some (bytes', fr_position fr') else None)"
    using assms(2) by (auto simp: frames_next_def split: sum.splits)
  from frames_fill_sound [OF assms(1) fill] obtain q where "frames_at F tail_ok q fr'" "p \<le> q" "bytes' = take (q - p) (drop p F)"
    by auto
  moreover from this have "fr_position fr' = q" "q \<le> length F" by (simp_all add: frames_at_def)
  moreover have "fr_position fr = p" using assms(1) by (simp add: frames_at_def)
  ultimately show ?thesis using b by (auto split: if_splits)
qed

lemma read_window_spec:
  assumes "frames_at F tail_ok (fr_position fr) fr" "0 < threads" "queued = sum_list (map fst pending)"
    "window_end pending offset = fr_position fr"
  shows "\<exists>r. read_window xxh dec visit threads fr pending queued eof offset s = Some r \<and>
    (\<forall>x. r = Inr x \<longleftrightarrow> window_rest xxh dec visit fr pending eof s = Inr x)"
  using assms
proof (induction xxh dec visit threads fr pending queued eof offset s rule: read_window.induct)
  case (1 xxh dec visit threads fr pending queued eof offset s)
  note IHnone = "1.IH"(1) and IHsome = "1.IH"(2) and IHpop = "1.IH"(3)
  show ?case
  proof (cases "\<not> eof \<and> length pending < threads * 2 \<and> queued \<le> WINDOW_BYTES - MAX_RECORD - JOURNAL_HEADER")
    case room: True
    note rw = read_window.simps [of xxh dec visit threads fr pending queued eof offset s, unfolded if_P [OF room]]
    show ?thesis
    proof (cases "frames_next fr")
      case (Inl e)
      then have "read_loop xxh dec visit fr s' = Inl e" for s' by (simp add: read_loop.simps [of _ _ _ fr])
      then show ?thesis unfolding rw using room Inl
        by (auto simp: window_rest_def split: sum.splits)
    next
      case (Inr y)
      obtain fr' batch where y: "frames_next fr = Inr (fr', batch)" using Inr by (cases y) simp
      note at = frames_next_at [OF "1.prems"(1) y]
      show ?thesis
      proof (cases batch)
        case None
        have "window_rest xxh dec visit fr pending eof s = window_rest xxh dec visit fr' pending True s"
          using room y None by (auto simp: window_rest_def read_loop.simps [of _ _ _ fr] split: sum.splits)
        then show ?thesis unfolding rw using IHnone [OF room y refl None] at None "1.prems" room y
          by simp
      next
        case (Some b)
        have "window_rest xxh dec visit fr pending eof s =
            window_rest xxh dec visit fr' (pending @ [(length (fst b), snd b, frame_decode xxh dec (fst b))]) eof s"
          using room y Some
          by (auto simp: window_rest_def drain_append read_loop.simps [of _ _ _ fr] split: sum.splits)
        then show ?thesis unfolding rw using IHsome [OF room y refl Some] at Some "1.prems" room y
          by (simp add: window_end_def)
      qed
    qed
  next
    case full: False
    note rw = read_window.simps [of xxh dec visit threads fr pending queued eof offset s, unfolded if_not_P [OF full]]
    show ?thesis
    proof (cases pending)
      case Nil
      then show ?thesis unfolding rw using full "1.prems"
        by (auto simp: window_rest_def window_end_def)
    next
      case (Cons p pending')
      show ?thesis
      proof (cases "snd (snd p)")
        case (Inl e)
        then show ?thesis unfolding rw using full Cons
          by (simp add: window_rest_def)
      next
        case recs: (Inr recs)
        show ?thesis
        proof (cases "visit_all visit recs s")
          case (Inl e)
          then show ?thesis unfolding rw using full Cons recs
            by (simp add: window_rest_def)
        next
          case (Inr s')
          have "window_rest xxh dec visit fr pending eof s = window_rest xxh dec visit fr pending' eof s'"
            using Cons recs Inr by (simp add: window_rest_def)
          moreover have "window_end pending' (fst (snd p)) = fr_position fr"
            using "1.prems"(4) Cons by (simp add: window_end_def split: if_splits)
          ultimately show ?thesis unfolding rw using IHpop [OF full Cons recs Inr] "1.prems"(1-3) full Cons recs Inr
            by simp
        qed
      qed
    qed
  qed
qed

lemma journal_read_agrees:
  "\<exists>r. journal_read xxh dec visit threads content tail_ok s = Some r \<and>
    (\<forall>x. r = Inr x \<longleftrightarrow> read_file xxh dec visit content tail_ok s = Inr x)"
proof -
  let ?fr = "frames_open content tail_ok"
  define t where "t = min (max threads 1) (max ((fr_length ?fr + BATCH_BYTES - 1) div BATCH_BYTES) 1)"
  have j: "journal_read xxh dec visit threads content tail_ok s =
    (if t = 1 then Some (read_loop xxh dec visit ?fr s) else read_window xxh dec visit (t - 1) ?fr [] 0 False 0 s)"
    by (simp add: journal_read_def t_def Let_def)
  have "0 < t" by (simp add: t_def less_max_iff_disj)
  show ?thesis
  proof (cases "t = 1")
    case True
    then show ?thesis by (simp add: j read_file_def)
  next
    case False
    then show ?thesis
      using read_window_spec [of content tail_ok ?fr "t - 1" 0 "[]" 0 xxh dec visit False s] \<open>0 < t\<close> frames_open_at [of content tail_ok]
      by (simp add: j read_file_def window_rest_def window_end_def frames_open_def)
  qed
qed

lemma journal_read_Inr:
  "journal_read xxh dec visit threads content tail_ok s = Some (Inr x) \<longleftrightarrow> read_file xxh dec visit content tail_ok s = Inr x"
  using journal_read_agrees [of xxh dec visit threads content tail_ok s] by (metis option.inject)

lemma read_file_complete:
  assumes "list_all (\<lambda>r. length (snd r) \<le> MAX_RECORD \<and> dec (snd r) = Inr (f (snd r))) rs" "torn_tail xxh tail" "tail_ok \<or> tail = []"
  shows "read_file xxh dec visit (concat (map (frame_bytes xxh) rs) @ tail) tail_ok s =
    (case visit_all visit (map (\<lambda>r. (fst r, f (snd r))) rs) s of Inl e \<Rightarrow> Inl e
     | Inr s' \<Rightarrow> Inr (s', length (concat (map (frame_bytes xxh) rs))))"
  using read_loop_spec [OF frames_open_at _ assms, of "concat (map (frame_bytes xxh) rs) @ tail" visit s]
  unfolding read_file_def add_0 by (simp add: frames_open_def)

lemma read_file_sound:
  assumes "read_file xxh dec visit content tail_ok s = Inr (s', off)"
  obtains rs recs tail where "content = concat (map (frame_bytes xxh) rs) @ tail" "off = length (concat (map (frame_bytes xxh) rs))"
    "\<not> tail_ok \<Longrightarrow> tail = []" "list_all (\<lambda>r. length (snd r) \<le> MAX_RECORD) rs"
    "list_all2 (\<lambda>r v. fst r = fst v \<and> dec (snd r) = Inr (snd v)) rs recs" "visit_all visit recs s = Inr s'"
proof -
  from read_loop_sound [OF frames_open_at assms [unfolded read_file_def]] obtain rs recs where
    r: "off \<le> length content" "off < length content \<longrightarrow> tail_ok" "take off content = concat (map (frame_bytes xxh) rs)"
    "list_all (\<lambda>r. length (snd r) \<le> MAX_RECORD) rs" "list_all2 (\<lambda>r v. fst r = fst v \<and> dec (snd r) = Inr (snd v)) rs recs"
    "visit_all visit recs s = Inr s'" by auto
  show thesis
  proof (rule that [of rs "drop off content" recs])
    show "content = concat (map (frame_bytes xxh) rs) @ drop off content" using r(3) by (metis append_take_drop_id)
    show "off = length (concat (map (frame_bytes xxh) rs))" using r(1) arg_cong [OF r(3), of length] by simp
    show "drop off content = []" if "\<not> tail_ok" using that r(1,2) by simp
  qed (use r in auto)
qed

subsection \<open>Properties\<close>

text \<open>
  C34. Replay loses nothing and invents nothing after a crash: of a file of whole frames followed by a torn frame
  (any strict prefix of a frame), reading visits exactly the records of the whole frames, in order, on any number
  of decoder threads, and reports their end as the offset to truncate to. Where a torn tail is not allowed the file
  must end with its last frame.
\<close>

theorem replay_visits_whole_frames:
  assumes "list_all (\<lambda>r. length (snd r) \<le> MAX_RECORD \<and> dec (snd r) = Inr (f (snd r))) rs" "torn_tail xxh tail" "tail_ok \<or> tail = []"
    and "visit_all visit (map (\<lambda>r. (fst r, f (snd r))) rs) s = Inr s'"
  shows "journal_read xxh dec visit threads (concat (map (frame_bytes xxh) rs) @ tail) tail_ok s =
    Some (Inr (s', length (concat (map (frame_bytes xxh) rs))))"
  unfolding journal_read_Inr read_file_complete [OF assms(1-3)] by (simp add: assms(4))

theorem replay_visits_whole_frames_witness:
  "journal_read (\<lambda>_. 7) Inr (\<lambda>s lsn v. Inr (s @ [(lsn, v)])) 4
     (concat (map (frame_bytes (\<lambda>_. 7)) [(1, [5]), (2, [])]) @ take 11 (frame_bytes (\<lambda>_. 7) (3, [9, 9]))) True [] =
   Some (Inr ([(1, [5]), (2, [])], 65))"
proof -
  have "torn_tail (\<lambda>_. 7) (take 11 (frame_bytes (\<lambda>_. 7) (3, [9, 9])))"
    unfolding torn_tail_def by (intro exI [of _ "(3, [9, 9])"] exI [of _ 11]) (simp add: MAX_RECORD_def)
  then have "journal_read (\<lambda>_. 7) Inr (\<lambda>s lsn v. Inr (s @ [(lsn, v)])) 4
     (concat (map (frame_bytes (\<lambda>_. 7)) [(1, [5]), (2, [])]) @ take 11 (frame_bytes (\<lambda>_. 7) (3, [9, 9]))) True [] =
     Some (Inr ([(1, [5]), (2, [])], length (concat (map (frame_bytes (\<lambda>_. 7)) [(1, [5]), (2, [])]))))"
    by (intro replay_visits_whole_frames [where f = id]) (simp_all add: MAX_RECORD_def)
  then show ?thesis by simp
qed

text \<open>
  C35. Replay never accepts a corrupt prefix: if reading a file succeeds then the file is a sequence of frames that
  encode, with correct checksums and lengths, exactly the visited records, followed by a tail from the returned
  offset on that is empty unless a torn tail is allowed.
\<close>

theorem replay_is_sound:
  assumes "journal_read xxh dec visit threads content tail_ok s = Some (Inr (s', off))"
  shows "\<exists>rs recs tail. content = concat (map (frame_bytes xxh) rs) @ tail \<and> off = length (concat (map (frame_bytes xxh) rs)) \<and>
    (tail_ok \<or> tail = []) \<and> list_all (\<lambda>r. length (snd r) \<le> MAX_RECORD) rs \<and>
    list_all2 (\<lambda>r v. fst r = fst v \<and> dec (snd r) = Inr (snd v)) rs recs \<and> visit_all visit recs s = Inr s'"
  using assms unfolding journal_read_Inr by (elim read_file_sound) blast

theorem replay_is_sound_witness:
  "\<exists>rs recs tail. frame_bytes (\<lambda>_. 7) (1, [5]) = concat (map (frame_bytes (\<lambda>_. 7)) rs) @ tail \<and>
     (33::nat) = length (concat (map (frame_bytes (\<lambda>_. 7)) rs)) \<and>
    (False \<or> tail = []) \<and> list_all (\<lambda>r. length (snd r) \<le> MAX_RECORD) rs \<and>
    list_all2 (\<lambda>r v. fst r = fst v \<and> Inr (snd r) = (Inr (snd v) :: io_error + byte list)) rs recs \<and>
    visit_all (\<lambda>s lsn v. Inr (s @ [(lsn, v)])) recs [] = Inr [(1, [5])]"
proof (rule replay_is_sound)
  have "torn_tail (\<lambda>_. 7) []"
    unfolding torn_tail_def by (intro exI [of _ "(3, [])"] exI [of _ 0]) (simp add: MAX_RECORD_def)
  then show "journal_read (\<lambda>_. 7) Inr (\<lambda>s lsn v. Inr (s @ [(lsn, v)])) 1 (frame_bytes (\<lambda>_. 7) (1, [5])) False [] =
    Some (Inr ([(1, [5])], 33))"
    unfolding journal_read_Inr
    using read_file_complete [of Inr id "[(1, [5])]" "\<lambda>_. 7" "[]" False "\<lambda>s lsn v. Inr (s @ [(lsn, v)])" "[]"]
    by (simp add: MAX_RECORD_def)
qed

text \<open>
  C36. Parallel replay is replay: for every file, number of threads and visitor the windowed reader returns (the
  window is never both full and empty), and it succeeds with the same state and offset exactly when reading batch by
  batch does.
\<close>

theorem parallel_replay_agrees:
  "\<exists>r. journal_read xxh dec visit threads content tail_ok s = Some r \<and>
    (\<forall>x. r = Inr x \<longleftrightarrow> read_loop xxh dec visit (frames_open content tail_ok) s = Inr x)"
  using journal_read_agrees [of xxh dec visit threads content tail_ok s] unfolding read_file_def .

end
