(* ===== verification/Journal_Fs.thy ===== *)
theory Journal_Fs
  imports Journal_Replay
begin

text \<open>
  The directory of a journal stream and what a crash leaves of it. The journal code
  (\<open>crates/talon-journal/src/disk.rs\<close>) reaches the file system only through the operations of the data type
  \<open>fs_op\<close>. Their effect on the live files is that of the system calls. What survives a crash is as weak as the code
  relies on: a file may come back with the content of its last \<open>sync_all\<close> or with any later intermediate content,
  where a write may be cut anywhere, and a name may be bound to the file of the last synchronisation of the directory
  or to any file it was bound to since.

  Two things are idealised. What survives of unsynchronised writes is a prefix of them in order, without holes or
  reordered pages. And a restart (\<open>fs_of_image\<close>) counts all that survived as durable: after a machine crash it is what the
  disk holds, but after a stop of the process alone some of it may be in the page cache only, and a later machine crash may
  still lose it. That second case is outside the model.
\<close>

subsection \<open>Files and operations\<close>

text \<open>The names \<open>path\<close> produces are distinct for distinct generations, since the format pads a decimal number.\<close>

datatype fname = SnapshotFile u64 | JournalFile u64 | CurrentFile | CurrentTmp | JournalTmp | SnapshotTmp

definition stream_path :: "bool \<Rightarrow> u64 \<Rightarrow> fname" where
  "stream_path snapshot generation = (if snapshot then SnapshotFile generation else JournalFile generation)"

record fobj =
  fo_content :: "byte list"
  fo_images :: "byte list set"

record fs =
  fs_live :: "fname \<Rightarrow> fobj option"
  fs_old :: "fname \<Rightarrow> fobj option set"

datatype fs_op =
    Create fname
  | WriteAt fname nat "byte list"
  | SetLen fname nat
  | SyncFile fname
  | Rename fname fname
  | Remove fname
  | SyncDir

definition write_at :: "byte list \<Rightarrow> nat \<Rightarrow> byte list \<Rightarrow> byte list" where
  "write_at content off bytes =
     take off content @ replicate (off - length content) 0 @ bytes @ drop (off + length bytes) content"

definition synced :: "byte list \<Rightarrow> fobj" where
  "synced b = \<lparr>fo_content = b, fo_images = {b}\<rparr>"

definition fo_write :: "nat \<Rightarrow> byte list \<Rightarrow> fobj \<Rightarrow> fobj" where
  "fo_write off bytes f =
     \<lparr>fo_content = write_at (fo_content f) off bytes,
      fo_images = fo_images f \<union> (\<lambda>k. write_at (fo_content f) off (take k bytes)) ` {0..length bytes}\<rparr>"

definition fo_set_len :: "nat \<Rightarrow> fobj \<Rightarrow> fobj" where
  "fo_set_len k f =
     (let c = take k (fo_content f) @ replicate (k - length (fo_content f)) 0
      in \<lparr>fo_content = c, fo_images = insert c (fo_images f)\<rparr>)"

definition rebind :: "fs \<Rightarrow> fname \<Rightarrow> fobj option \<Rightarrow> fs" where
  "rebind s n b = s\<lparr>fs_live := (fs_live s)(n := b), fs_old := (fs_old s)(n := insert (fs_live s n) (fs_old s n))\<rparr>"

definition update_file :: "fs \<Rightarrow> fname \<Rightarrow> (fobj \<Rightarrow> fobj) \<Rightarrow> fs" where
  "update_file s n g = s\<lparr>fs_live := (fs_live s)(n := map_option g (fs_live s n))\<rparr>"

fun fs_step :: "fs \<Rightarrow> fs_op \<Rightarrow> fs" where
  "fs_step s (Create n) = (if fs_live s n = None then rebind s n (Some (synced [])) else update_file s n (fo_set_len 0))"
| "fs_step s (WriteAt n off bytes) = update_file s n (fo_write off bytes)"
| "fs_step s (SetLen n k) = update_file s n (fo_set_len k)"
| "fs_step s (SyncFile n) = update_file s n (\<lambda>f. synced (fo_content f))"
| "fs_step s (Rename n m) = rebind (rebind s m (fs_live s n)) n None"
| "fs_step s (Remove n) = rebind s n None"
| "fs_step s SyncDir = s\<lparr>fs_old := (\<lambda>_. {})\<rparr>"

definition exec :: "fs_op list \<Rightarrow> fs \<Rightarrow> fs" where
  "exec ops s = foldl fs_step s ops"

subsection \<open>Crashes\<close>

type_synonym image = "fname \<Rightarrow> byte list option"

definition live_image :: "fs \<Rightarrow> image" where
  "live_image s n = map_option fo_content (fs_live s n)"

definition bindings :: "fs \<Rightarrow> fname \<Rightarrow> fobj option set" where
  "bindings s n = insert (fs_live s n) (fs_old s n)"

definition crash_image :: "fs \<Rightarrow> image \<Rightarrow> bool" where
  "crash_image s img \<longleftrightarrow>
     (\<forall>n. (img n = None \<and> None \<in> bindings s n) \<or> (\<exists>f b. img n = Some b \<and> Some f \<in> bindings s n \<and> b \<in> fo_images f))"

definition fs_of_image :: "image \<Rightarrow> fs" where
  "fs_of_image img = \<lparr>fs_live = (\<lambda>n. map_option synced (img n)), fs_old = (\<lambda>_. {})\<rparr>"

subsection \<open>Lemmas\<close>

lemma exec_simps [simp]:
  "exec [] s = s" "exec (op # ops) s = exec ops (fs_step s op)" "exec (ops @ ops') s = exec ops' (exec ops s)"
  by (simp_all add: exec_def)

lemma fo_sel [simp]:
  "fo_content (synced b) = b" "fo_images (synced b) = {b}"
  by (simp_all add: synced_def)

lemma write_at_end [simp]: "write_at c (length c) b = c @ b"
  by (simp add: write_at_def)

lemma rebind_sel [simp]:
  "fs_live (rebind s n b) = (fs_live s)(n := b)"
  "fs_old (rebind s n b) = (fs_old s)(n := insert (fs_live s n) (fs_old s n))"
  by (simp_all add: rebind_def)

lemma update_file_sel [simp]:
  "fs_live (update_file s n g) = (fs_live s)(n := map_option g (fs_live s n))" "fs_old (update_file s n g) = fs_old s"
  by (simp_all add: update_file_def)

text \<open>The names an operation can bind or change. Operations on disjoint names commute.\<close>

primrec op_names :: "fs_op \<Rightarrow> fname set" where
  "op_names (Create n) = {n}"
| "op_names (WriteAt n off bytes) = {n}"
| "op_names (SetLen n k) = {n}"
| "op_names (SyncFile n) = {n}"
| "op_names (Rename n m) = {n, m}"
| "op_names (Remove n) = {n}"
| "op_names SyncDir = {}"

definition ops_names :: "fs_op list \<Rightarrow> fname set" where
  "ops_names ops = (\<Union>op \<in> set ops. op_names op)"

lemma ops_names_simps [simp]:
  "ops_names [] = {}" "ops_names (op # ops) = op_names op \<union> ops_names ops" "ops_names (ops @ ops') = ops_names ops \<union> ops_names ops'"
  by (auto simp: ops_names_def)

lemma fs_step_update_commute:
  assumes "n \<notin> op_names op"
  shows "fs_step (update_file s n g) op = update_file (fs_step s op) n g"
  using assms by (cases op) (auto intro!: fs.equality simp: fun_upd_twist)

lemma exec_update_commute:
  "n \<notin> ops_names ops \<Longrightarrow> exec ops (update_file s n g) = update_file (exec ops s) n g"
  by (induction ops arbitrary: s) (simp_all add: fs_step_update_commute)

lemma fs_step_frame:
  assumes "n \<notin> op_names op"
  shows "fs_live (fs_step s op) n = fs_live s n" "fs_old (fs_step s op) n \<subseteq> fs_old s n"
  using assms by (cases op; auto)+

lemma exec_frame:
  assumes "n \<notin> ops_names ops"
  shows "fs_live (exec ops s) n = fs_live s n \<and> fs_old (exec ops s) n \<subseteq> fs_old s n"
  using assms
proof (induction ops arbitrary: s)
  case (Cons op ops)
  then show ?case using fs_step_frame [of n op s] by fastforce
qed simp

text \<open>The content of the live files is one of the images of a crash.\<close>

definition wf_fs :: "fs \<Rightarrow> bool" where
  "wf_fs s \<longleftrightarrow> (\<forall>n f. fs_live s n = Some f \<longrightarrow> fo_content f \<in> fo_images f)"

lemma fo_write_wf: "fo_content (fo_write off bytes f) \<in> fo_images (fo_write off bytes f)"
  by (auto simp: fo_write_def image_iff intro!: disjI2 bexI [of _ "length bytes"])

lemma wf_fs_step: "wf_fs s \<Longrightarrow> wf_fs (fs_step s op)"
  using fo_write_wf by (cases op) (auto simp: wf_fs_def fo_set_len_def Let_def)

lemma wf_fs_exec: "wf_fs s \<Longrightarrow> wf_fs (exec ops s)"
  by (induction ops arbitrary: s) (simp_all add: wf_fs_step)

lemma live_is_crash_image: "wf_fs s \<Longrightarrow> crash_image s (live_image s)"
  unfolding crash_image_def live_image_def bindings_def wf_fs_def
proof (intro allI, goal_cases)
  case (1 n)
  then show ?case by (cases "fs_live s n") auto
qed

lemma live_image_of_image [simp]: "live_image (fs_of_image img) = img"
  by (rule ext) (simp add: live_image_def fs_of_image_def option.map_comp option.map_ident o_def)

lemma bindings_of_image: "img n = Some b \<Longrightarrow> bindings (fs_of_image img) n = {Some (synced b)}"
  by (simp add: bindings_def fs_of_image_def)

lemma wf_fs_of_image: "wf_fs (fs_of_image img)"
  by (auto simp: wf_fs_def fs_of_image_def)

end
