(* ===== verification/Journal_Disk.thy ===== *)
theory Journal_Disk
  imports Journal_Fs
begin

text \<open>
  The files of a journal stream (\<open>crates/talon-journal/src/disk.rs\<close>): recovery, rotation of the log, encoding and
  publication of snapshots. An operation returns the list of file-system operations it performs, in order, and its
  result; what the files are in between, and after a crash at any point, follows from the list. The state machine of
  the stream (trait \<open>Machine\<close>) is a record of its functions. Failures of system calls are not modelled: such a
  failure ends the stream after a prefix of the list. The accounting of allocated blocks is left out.
\<close>

subsection \<open>The state machine of a stream\<close>

text \<open>
  The functions of the trait \<open>Machine\<close>. The predicate \<open>mc_valid\<close> holds of the values of the Rust type of records where
  the type of the model is larger (strings are byte lists, in Rust they are valid UTF-8).
\<close>

record ('m, 'r, 's) machine =
  mc_encoded_len :: "'r \<Rightarrow> io_error + nat"
  mc_encode :: "'r \<Rightarrow> io_error + byte list"
  mc_decode :: "byte list \<Rightarrow> io_error + 'r"
  mc_apply :: "'m \<Rightarrow> u64 \<Rightarrow> 'r \<Rightarrow> io_error + 'm"
  mc_snapshot :: "'m \<Rightarrow> io_error + (io_error + byte list) list"
  mc_decode_snapshot :: "byte list \<Rightarrow> io_error + 's"
  mc_restore :: "'m \<Rightarrow> 's \<Rightarrow> io_error + 'm"
  mc_valid :: "'r \<Rightarrow> bool"

subsection \<open>Recovery\<close>

definition write_sync :: "fname \<Rightarrow> byte list \<Rightarrow> fs_op list" where
  "write_sync n bytes = [Create n, WriteAt n 0 bytes, SyncFile n]"

definition publish_sync :: "(byte list \<Rightarrow> u64) \<Rightarrow> current \<Rightarrow> io_error + fs_op list" where
  "publish_sync xxh c =
     (case current_encode xxh c of Inl e \<Rightarrow> Inl e
      | Inr b \<Rightarrow> Inr (write_sync CurrentTmp b @ [Rename CurrentTmp CurrentFile, SyncDir]))"

definition read_current :: "image \<Rightarrow> io_error + byte list" where
  "read_current img =
     (case img CurrentFile of None \<Rightarrow> Inl IoNotFound
      | Some b \<Rightarrow>
          let b = take 65537 b in
          if length b > 65536 then Inl (InvalidData ''journal CURRENT too large'') else Inr b)"

definition initial_current :: current where
  "initial_current =
     \<lparr>cu_snapshot = 1, cu_lsn = 0, cu_bytes = 0, cu_records = 0, cu_logs = [1], cu_garbage = [], cu_pending = 0\<rparr>"

definition recover_open :: "(byte list \<Rightarrow> u64) \<Rightarrow> fs \<Rightarrow> fs_op list \<times> (io_error + current)" where
  "recover_open xxh s =
     (case read_current (live_image s) of
        Inr b \<Rightarrow> ([], current_decode xxh b)
      | Inl e \<Rightarrow>
          if e = IoNotFound then
            let files = write_sync (stream_path True 1) [] @ write_sync (stream_path False 1) [] @ [SyncDir] in
            (case publish_sync xxh initial_current of
               Inl e \<Rightarrow> (files, Inl e)
             | Inr p \<Rightarrow> (files @ p, Inr initial_current))
          else ([], Inl e))"

definition visit_snapshot :: "('m, 'r, 's) machine \<Rightarrow> u64 \<times> 'm \<Rightarrow> u64 \<Rightarrow> 's \<Rightarrow> io_error + (u64 \<times> 'm)" where
  "visit_snapshot M st n r =
     (let ordinal = fst st + 1 in
      if n \<noteq> ordinal then Inl (InvalidData ''snapshot ordinal gap'')
      else (case mc_restore M (snd st) r of Inl e \<Rightarrow> Inl e | Inr m \<Rightarrow> Inr (ordinal, m)))"

definition visit_log :: "('m, 'r, 's) machine \<Rightarrow> u64 \<times> 'm \<Rightarrow> u64 \<Rightarrow> 'r \<Rightarrow> io_error + (u64 \<times> 'm)" where
  "visit_log M st n r =
     (if Some n \<noteq> checked_add (fst st) 1 then Inl (InvalidData ''journal LSN gap'')
      else (case mc_apply M (snd st) n r of Inl e \<Rightarrow> Inl e | Inr m \<Rightarrow> Inr (n, m)))"

text \<open>The loop over the logs; only the last one may have a torn tail.\<close>

primrec replay_logs ::
  "(byte list \<Rightarrow> u64) \<Rightarrow> ('m, 'r, 's) machine \<Rightarrow> nat \<Rightarrow> image \<Rightarrow> u64 list \<Rightarrow> u64 \<times> 'm \<Rightarrow> nat
    \<Rightarrow> (io_error + ((u64 \<times> 'm) \<times> nat)) option" where
  "replay_logs xxh M threads img [] st offset = Some (Inr (st, offset))"
| "replay_logs xxh M threads img (g # gs) st offset =
     (case img (stream_path False g) of None \<Rightarrow> Some (Inl IoNotFound)
      | Some b \<Rightarrow>
        (case journal_read xxh (mc_decode M) (visit_log M) threads b (gs = []) st of
           None \<Rightarrow> None
         | Some (Inl e) \<Rightarrow> Some (Inl e)
         | Some (Inr (st', offset')) \<Rightarrow> replay_logs xxh M threads img gs st' offset'))"

definition recover_replay ::
  "(byte list \<Rightarrow> u64) \<Rightarrow> ('m, 'r, 's) machine \<Rightarrow> nat \<Rightarrow> image \<Rightarrow> current \<Rightarrow> 'm \<Rightarrow> (io_error + ((u64 \<times> 'm) \<times> nat)) option" where
  "recover_replay xxh M threads img c machine =
     (case img (stream_path True (cu_snapshot c)) of None \<Rightarrow> Some (Inl IoNotFound)
      | Some b \<Rightarrow>
        if of_nat (length b) \<noteq> cu_bytes c then Some (Inl (InvalidData ''snapshot length mismatch''))
        else
          (case journal_read xxh (mc_decode_snapshot M) (visit_snapshot M) threads b False (0, machine) of
             None \<Rightarrow> None
           | Some (Inl e) \<Rightarrow> Some (Inl e)
           | Some (Inr (st, _)) \<Rightarrow>
               if fst st \<noteq> cu_records c then Some (Inl (InvalidData ''snapshot record count mismatch''))
               else replay_logs xxh M threads img (cu_logs c) (cu_lsn c, snd st) 0))"

definition recover_cleanup :: "(byte list \<Rightarrow> u64) \<Rightarrow> image \<Rightarrow> current \<Rightarrow> nat \<Rightarrow> fs_op list \<times> (io_error + current)" where
  "recover_cleanup xxh img c offset =
     (let log_file = stream_path False (last (cu_logs c));
          truncate = (if map_option length (img log_file) \<noteq> Some offset then [SetLen log_file offset, SyncFile log_file] else []);
          removes = map (\<lambda>(s, g). Remove (stream_path s g)) (cu_garbage c) @
            (if cu_pending c \<noteq> 0 then [Remove (stream_path True (cu_pending c))] else []) @
            map Remove [CurrentTmp, JournalTmp, SnapshotTmp];
          c' = c\<lparr>cu_garbage := [], cu_pending := 0\<rparr>;
          ops = truncate @ removes @ [SyncDir]
      in (case publish_sync xxh c' of Inl e \<Rightarrow> (ops, Inl e) | Inr p \<Rightarrow> (ops @ p, Inr c')))"

record disk =
  dk_current :: current
  dk_offset :: u64
  dk_lsn :: u64

definition journal_recover ::
  "(byte list \<Rightarrow> u64) \<Rightarrow> ('m, 'r, 's) machine \<Rightarrow> nat \<Rightarrow> fs \<Rightarrow> 'm \<Rightarrow> (fs_op list \<times> (io_error + (disk \<times> 'm))) option" where
  "journal_recover xxh M threads s machine =
     (case recover_open xxh s of
        (ops0, Inl e) \<Rightarrow> Some (ops0, Inl e)
      | (ops0, Inr c) \<Rightarrow>
          let img = live_image (exec ops0 s) in
          (case recover_replay xxh M threads img c machine of
             None \<Rightarrow> None
           | Some (Inl e) \<Rightarrow> Some (ops0, Inl e)
           | Some (Inr (st, offset)) \<Rightarrow>
               (case recover_cleanup xxh img c offset of
                  (ops1, Inl e) \<Rightarrow> Some (ops0 @ ops1, Inl e)
                | (ops1, Inr c') \<Rightarrow>
                    Some (ops0 @ ops1, Inr (\<lparr>dk_current = c', dk_offset = of_nat offset, dk_lsn = fst st\<rparr>, snd st)))))"

subsection \<open>Writing, rotation and publication\<close>

definition log_name :: "disk \<Rightarrow> fname" where
  "log_name d = stream_path False (last (cu_logs (dk_current d)))"

definition disk_write :: "disk \<Rightarrow> byte list \<Rightarrow> u64 \<Rightarrow> fs_op list" where
  "disk_write d bytes offset = [WriteAt (log_name d) (unat offset) bytes]"

definition disk_sync :: "disk \<Rightarrow> fs_op list" where
  "disk_sync d = [SyncFile (log_name d)]"

definition publish :: "(byte list \<Rightarrow> u64) \<Rightarrow> current \<Rightarrow> fs_op list \<times> (io_error + unit)" where
  "publish xxh c =
     (case current_encode xxh c of Inl e \<Rightarrow> ([Create CurrentTmp], Inl e)
      | Inr b \<Rightarrow> ([Create CurrentTmp, WriteAt CurrentTmp 0 b, SyncFile CurrentTmp, Rename CurrentTmp CurrentFile, SyncDir], Inr ()))"

definition rotate :: "(byte list \<Rightarrow> u64) \<Rightarrow> disk \<Rightarrow> fs_op list \<times> (io_error + (disk \<times> u64))" where
  "rotate xxh d =
     (let c = dk_current d in
      case checked_add (last (cu_logs c)) 1 of
        None \<Rightarrow> (disk_sync d, Inl (InvalidData ''journal generation overflow''))
      | Some generation \<Rightarrow>
          let ops = disk_sync d @
                [Create JournalTmp, SyncFile JournalTmp, Rename JournalTmp (stream_path False generation), SyncDir];
              c' = c\<lparr>cu_logs := cu_logs c @ [generation], cu_pending := generation\<rparr>
          in
          (case publish xxh c' of
             (p, Inl e) \<Rightarrow> (ops @ p, Inl e)
           | (p, Inr _) \<Rightarrow> (ops @ p, Inr (d\<lparr>dk_current := c', dk_offset := 0\<rparr>, generation))))"

text \<open>
  The encoder thread of a snapshot: frames are collected into chunks of about 256 KiB. The result is the chunks sent
  and the error that stopped the encoder, if any.
\<close>

fun snapshot_encode ::
  "(byte list \<Rightarrow> u64) \<Rightarrow> (io_error + byte list) list \<Rightarrow> u64 \<Rightarrow> byte list \<Rightarrow> byte list list \<times> io_error option" where
  "snapshot_encode xxh [] ordinal buffer = ((if buffer \<noteq> [] then [buffer] else []), None)"
| "snapshot_encode xxh (item # items) ordinal buffer =
     (case item of Inl e \<Rightarrow> ([], Some e)
      | Inr bytes \<Rightarrow>
        (case frame_encode xxh (ordinal + 1) bytes of Inl e \<Rightarrow> ([], Some e)
         | Inr encoded \<Rightarrow>
             if buffer \<noteq> [] \<and> length buffer + length encoded > 262144
             then let (chunks, r) = snapshot_encode xxh items (ordinal + 1) encoded in (buffer # chunks, r)
             else snapshot_encode xxh items (ordinal + 1) (buffer @ encoded)))"

text \<open>Counting the frames of a chunk from their headers; a header outside the chunk panics.\<close>

function count_frames :: "byte list \<Rightarrow> nat option" where
  "count_frames bytes =
     (if bytes = [] then Some 0
      else if length bytes < 12 then None
      else map_option Suc (count_frames (drop (JOURNAL_HEADER + unat (u32_of_le (take 4 (drop 8 bytes)))) bytes)))"
  by auto
termination by (relation "measure length") (auto simp: JOURNAL_HEADER_def)

declare count_frames.simps [simp del]

primrec chunk_writes :: "byte list list \<Rightarrow> nat \<Rightarrow> fs_op list" where
  "chunk_writes [] offset = []"
| "chunk_writes (b # bs) offset = WriteAt SnapshotTmp offset b # chunk_writes bs (offset + length b)"

record snapshot_meta =
  sn_generation :: u64
  sn_lsn :: u64
  sn_bytes :: u64
  sn_records :: u64

definition disk_snapshot ::
  "(byte list \<Rightarrow> u64) \<Rightarrow> u64 \<Rightarrow> u64 \<Rightarrow> (io_error + byte list) list \<Rightarrow> (fs_op list \<times> (io_error + snapshot_meta)) option" where
  "disk_snapshot xxh generation lsn items =
     (let (chunks, err) = snapshot_encode xxh items 0 [];
          ops = Create SnapshotTmp # chunk_writes chunks 0
      in
      if None \<in> set (map count_frames chunks) then None
      else
        (case err of Some e \<Rightarrow> Some (ops, Inl e)
         | None \<Rightarrow>
             Some (ops @ [SyncFile SnapshotTmp, Rename SnapshotTmp (stream_path True generation), SyncDir],
               Inr \<lparr>sn_generation = generation, sn_lsn = lsn, sn_bytes = of_nat (sum_list (map length chunks)),
                    sn_records = of_nat (sum_list (map (the \<circ> count_frames) chunks))\<rparr>)))"

definition publish_snapshot :: "(byte list \<Rightarrow> u64) \<Rightarrow> disk \<Rightarrow> snapshot_meta \<Rightarrow> fs_op list \<times> (io_error + disk)" where
  "publish_snapshot xxh d sn =
     (let c = dk_current d;
          garbage = cu_garbage c @ [(True, cu_snapshot c)] @ map (Pair False) (filter (\<lambda>g. g < sn_generation sn) (cu_logs c));
          c1 = c\<lparr>cu_snapshot := sn_generation sn, cu_lsn := sn_lsn sn, cu_bytes := sn_bytes sn, cu_records := sn_records sn,
                 cu_logs := filter (\<lambda>g. g \<ge> sn_generation sn) (cu_logs c), cu_garbage := garbage, cu_pending := 0\<rparr>;
          c2 = c1\<lparr>cu_garbage := []\<rparr>;
          removes = map (\<lambda>(s, g). Remove (stream_path s g)) garbage @ [SyncDir]
      in
      case publish xxh c1 of
        (p1, Inl e) \<Rightarrow> (p1, Inl e)
      | (p1, Inr _) \<Rightarrow>
          (case publish xxh c2 of
             (p2, Inl e) \<Rightarrow> (p1 @ removes @ p2, Inl e)
           | (p2, Inr _) \<Rightarrow> (p1 @ removes @ p2, Inr (d\<lparr>dk_current := c2\<rparr>))))"

subsection \<open>Cleaning up after a process stop\<close>

text \<open>
  Recovery removes the obsolete files of the \<open>CURRENT\<close> it read before it synchronises the directory. If the process
  stopped after a publication renamed \<open>CURRENT\<close> and before it synchronised the directory, the older binding of \<open>CURRENT\<close> may
  still be the one on disk; a machine crash during the cleanup may then leave the older \<open>CURRENT\<close> without its snapshot, and
  recovery fails. A file system that makes directory operations durable in their order excludes this.
\<close>

lemma exec_removes_absent: "fs_live s n = None \<Longrightarrow> fs_live (exec (map Remove ns) s) n = None"
  by (induction ns arbitrary: s) simp_all

lemma exec_removes_gone: "n \<in> set ns \<Longrightarrow> fs_live (exec (map Remove ns) s) n = None"
  by (induction ns arbitrary: s) (auto simp: exec_removes_absent)

lemma exec_removes_old: "fs_old s n \<subseteq> fs_old (exec (map Remove ns) s) n"
proof (induction ns arbitrary: s)
  case (Cons m ns)
  have "fs_old s n \<subseteq> fs_old (rebind s m None) n" by auto
  then show ?case using Cons [of "rebind s m None"] by auto
qed simp

lemma cleanup_before_directory_sync:
  assumes "wf_fs s" "Some f \<in> fs_old s CurrentFile" "b \<in> fo_images f" "length b \<le> 65536" "current_decode xxh b = Inr c0"
    and "(True, cu_snapshot c0) \<in> set (cu_garbage c)"
  shows "\<exists>ops ops' img. fst (recover_cleanup xxh im c off) = ops @ ops' \<and> crash_image (exec ops s) img \<and>
    journal_recover xxh M threads (fs_of_image img) m0 = Some ([], Inl IoNotFound)"
proof -
  let ?log = "stream_path False (last (cu_logs c))" and ?snap = "stream_path True (cu_snapshot c0)"
  define tr where "tr = (if map_option length (im ?log) \<noteq> Some off then [SetLen ?log off, SyncFile ?log] else [])"
  define ns where "ns = map (\<lambda>(s, g). stream_path s g) (cu_garbage c) @
    (if cu_pending c \<noteq> 0 then [stream_path True (cu_pending c)] else []) @ [CurrentTmp, JournalTmp, SnapshotTmp]"
  define t where "t = exec (tr @ map Remove ns) s"
  have "\<exists>ops'. fst (recover_cleanup xxh im c off) = (tr @ map Remove ns) @ ops'"
    by (auto simp: recover_cleanup_def Let_def tr_def ns_def split_def split: sum.splits)
  moreover have snap: "fs_live t ?snap = None"
    unfolding t_def exec_simps by (rule exec_removes_gone) (use assms(6) in \<open>force simp: ns_def\<close>)
  have "fs_old (exec tr s) CurrentFile = fs_old s CurrentFile" by (simp add: tr_def)
  then have old: "Some f \<in> fs_old t CurrentFile" using exec_removes_old [of "exec tr s" CurrentFile ns] assms(2) by (auto simp: t_def)
  define img where "img = (live_image t)(CurrentFile := Some b)"
  have "crash_image t (live_image t)" unfolding t_def by (rule live_is_crash_image [OF wf_fs_exec [OF assms(1)]])
  then have "crash_image t img" using old assms(3) by (auto simp: crash_image_def img_def bindings_def)
  moreover have "img ?snap = None" "img CurrentFile = Some b" using snap by (simp_all add: img_def live_image_def stream_path_def)
  then have "journal_recover xxh M threads (fs_of_image img) m0 = Some ([], Inl IoNotFound)"
    using assms(4,5) by (simp add: journal_recover_def recover_open_def read_current_def recover_replay_def)
  ultimately show ?thesis unfolding t_def by blast
qed
text \<open>The situation arises: the process stops in \<open>publish_snapshot\<close> right after the rename of its first publication.\<close>

lemma stop_during_publication:
  assumes "wf_fs s" "fs_live s CurrentFile = Some (synced b)" "length b \<le> 65536" "current_decode xxh b = Inr (dk_current d)"
    and "publish_snapshot xxh d sn = (all_ops, Inr d')"
  shows "\<exists>p q c b1. all_ops = p @ q \<and> live_image (exec p s) CurrentFile = Some b1 \<and> current_encode xxh c = Inr b1 \<and>
    (\<exists>ops ops' img. fst (recover_cleanup xxh im c off) = ops @ ops' \<and> crash_image (exec ops (exec p s)) img \<and>
      journal_recover xxh M threads (fs_of_image img) m0 = Some ([], Inl IoNotFound))"
proof -
  let ?c = "dk_current d"
  define c where "c = ?c\<lparr>cu_snapshot := sn_generation sn, cu_lsn := sn_lsn sn, cu_bytes := sn_bytes sn, cu_records := sn_records sn,
    cu_logs := filter (\<lambda>g. g \<ge> sn_generation sn) (cu_logs ?c),
    cu_garbage := cu_garbage ?c @ [(True, cu_snapshot ?c)] @ map (Pair False) (filter (\<lambda>g. g < sn_generation sn) (cu_logs ?c)), cu_pending := 0\<rparr>"
  obtain b1 where b1: "current_encode xxh c = Inr b1"
    using assms(5) by (cases "current_encode xxh c") (simp_all add: publish_snapshot_def publish_def Let_def c_def)
  define p where "p = [Create CurrentTmp, WriteAt CurrentTmp 0 b1, SyncFile CurrentTmp, Rename CurrentTmp CurrentFile]"
  have pub: "publish xxh c = (p @ [SyncDir], Inr ())" using b1 by (simp add: publish_def p_def)
  have "\<exists>q. all_ops = p @ q"
    using assms(5) pub unfolding publish_snapshot_def Let_def c_def by (auto split: prod.splits sum.splits)
  moreover have "live_image (exec p s) CurrentFile = Some b1"
    by (auto simp: p_def live_image_def fo_write_def write_at_def fo_set_len_def split: option.splits)
  moreover have "Some (synced b) \<in> fs_old (exec p s) CurrentFile" using assms(2) by (simp add: p_def)
  moreover have "(True, cu_snapshot ?c) \<in> set (cu_garbage c)" by (simp add: c_def)
  ultimately obtain q where "all_ops = p @ q" "live_image (exec p s) CurrentFile = Some b1"
      "\<exists>ops ops' img. fst (recover_cleanup xxh im c off) = ops @ ops' \<and> crash_image (exec ops (exec p s)) img \<and>
        journal_recover xxh M threads (fs_of_image img) m0 = Some ([], Inl IoNotFound)"
    using cleanup_before_directory_sync [OF wf_fs_exec [OF assms(1)], of "synced b" p b xxh ?c c im off M threads m0] assms(3,4) by auto
  then show ?thesis using b1
    by - (rule exI [of _ p], rule exI [of _ q], rule exI [of _ c], rule exI [of _ b1], intro conjI, assumption+)
qed

end
