(* ===== verification/Journal_Writer.thy ===== *)
theory Journal_Writer
  imports Journal_Disk
begin

text \<open>
  The writer of a journal stream (\<open>crates/talon-journal/src/writer.rs\<close>, the requests of \<open>lib.rs\<close>): a loop over the
  completions of its own input and output and the requests of its clients. A request queue, the write in flight, the
  sync in flight, the snapshot being written and the operation the loop is waiting for are parts of the state; the
  branches of \<open>select!\<close> are rules of a step relation, as are the effects of the operations in flight on the file
  system, so that every interleaving is covered. A crash may happen in any state and is followed by recovery from any
  image the file system may have left.
\<close>

subsection \<open>Requests\<close>

datatype ack = Written | Durable

datatype 'r command = Append 'r "byte list" ack | Query | Checkpoint

text \<open>\<open>Handle::append\<close> up to the send: the limits of the stream and of the service, and the encoding.\<close>

definition handle_append ::
  "('m, 'r, 's) machine \<Rightarrow> nat \<Rightarrow> nat \<Rightarrow> 'r \<Rightarrow> ack \<Rightarrow> io_error + 'r command" where
  "handle_append M max_record max_bytes record ack =
     (case mc_encoded_len M record of Inl e \<Rightarrow> Inl e
      | Inr limit \<Rightarrow>
        if limit > max_record then Inl (InvalidData ''journal record exceeds stream budget'')
        else if JOURNAL_HEADER + limit > max_bytes then Inl (InvalidData ''journal request exceeds service byte budget'')
        else
          (case mc_encode M record of Inl e \<Rightarrow> Inl e
           | Inr bytes \<Rightarrow>
             if length bytes > limit then Inl (InvalidData ''journal encoded_len underestimated record'')
             else Inr (Append record bytes ack)))"

subsection \<open>The state of the loop\<close>

record 'r pending =
  pd_lsn :: u64
  pd_record :: 'r
  pd_bytes :: "byte list"
  pd_ack :: ack

text \<open>
  Where the loop is: at its top, in \<open>select!\<close>, or awaiting the rest of the operations of a query, a rotation or
  the publication of a snapshot.
\<close>

datatype at =
    Top
  | Select
  | AwaitQuery "fs_op list"
  | AwaitRotate "fs_op list" "io_error + (disk \<times> u64)" "(io_error + byte list) list"
  | AwaitPublish "fs_op list" "io_error + disk"
  | Stopped

record ('m, 'r) writer =
  wr_disk :: disk
  wr_machine :: 'm
  wr_next_lsn :: u64
  wr_queue :: "'r command list"
  wr_write :: "('r pending list \<times> byte list \<times> u64 \<times> bool) option"
  wr_sync :: "(u64 list \<times> bool) option"
  wr_durable :: "u64 list"
  wr_barrier :: "'r command option"
  wr_checkpoint :: "(fs_op list \<times> (io_error + snapshot_meta)) option"
  wr_pending_checkpoint :: bool
  wr_closed :: bool
  wr_at :: at

definition writer_open :: "disk \<Rightarrow> 'm \<Rightarrow> ('m, 'r) writer" where
  "writer_open d m =
     \<lparr>wr_disk = d, wr_machine = m, wr_next_lsn = dk_lsn d, wr_queue = [], wr_write = None, wr_sync = None, wr_durable = [],
      wr_barrier = None, wr_checkpoint = None, wr_pending_checkpoint = False, wr_closed = False, wr_at = Top\<rparr>"

text \<open>
  The top of the loop up to \<open>select!\<close> or the first await: checkpoint requests are coalesced, a sync is started for
  the durable appends that wait for one, and when neither a write nor a sync is in flight a query or a checkpoint
  starts.
\<close>

definition coalesce_checkpoint :: "('m, 'r) writer \<Rightarrow> ('m, 'r) writer" where
  "coalesce_checkpoint w =
     (if wr_barrier w = Some Checkpoint then w\<lparr>wr_barrier := None, wr_pending_checkpoint := True\<rparr> else w)"

definition start_sync :: "('m, 'r) writer \<Rightarrow> ('m, 'r) writer" where
  "start_sync w =
     (if wr_sync w = None \<and> wr_durable w \<noteq> [] then w\<lparr>wr_sync := Some (wr_durable w, False), wr_durable := []\<rparr> else w)"

definition finish_top :: "('m, 'r) writer \<Rightarrow> ('m, 'r) writer" where
  "finish_top w =
     (if wr_closed w \<and> wr_write w = None \<and> wr_sync w = None \<and> wr_checkpoint w = None \<and> wr_barrier w = None \<and>
         \<not> wr_pending_checkpoint w
      then w\<lparr>wr_at := Stopped\<rparr> else w\<lparr>wr_at := Select\<rparr>)"

definition loop_top ::
  "(byte list \<Rightarrow> u64) \<Rightarrow> ('m, 'r, 's) machine \<Rightarrow> u64 \<Rightarrow> ('m, 'r) writer \<Rightarrow> ('m, 'r) writer" where
  "loop_top xxh M checkpoint_bytes w0 =
     (let w = start_sync (coalesce_checkpoint w0) in
      if wr_write w = None \<and> wr_sync w = None then
        if wr_barrier w = Some Query then w\<lparr>wr_at := AwaitQuery (disk_sync (wr_disk w))\<rparr>
        else if wr_checkpoint w = None \<and> (wr_pending_checkpoint w \<or> dk_offset (wr_disk w) \<ge> checkpoint_bytes) then
          (case mc_snapshot M (wr_machine w) of Inl e \<Rightarrow> w\<lparr>wr_at := Stopped\<rparr>
           | Inr items \<Rightarrow> let (ops, r) = rotate xxh (wr_disk w) in w\<lparr>wr_at := AwaitRotate ops r items\<rparr>)
        else finish_top w
      else finish_top w)"

text \<open>When the awaited operations are done.\<close>

definition after_await :: "(byte list \<Rightarrow> u64) \<Rightarrow> ('m, 'r) writer \<Rightarrow> ('m, 'r) writer" where
  "after_await xxh w =
     (case wr_at w of
        AwaitQuery ops \<Rightarrow> finish_top (w\<lparr>wr_barrier := None\<rparr>)
      | AwaitRotate ops r items \<Rightarrow>
          (case r of Inl e \<Rightarrow> w\<lparr>wr_at := Stopped\<rparr>
           | Inr (d, generation) \<Rightarrow>
             (case disk_snapshot xxh generation (dk_lsn d) items of None \<Rightarrow> w\<lparr>wr_disk := d, wr_at := Stopped\<rparr>
              | Some c \<Rightarrow> finish_top (w\<lparr>wr_disk := d, wr_checkpoint := Some c, wr_pending_checkpoint := False\<rparr>)))
      | AwaitPublish ops r \<Rightarrow>
          (case r of Inl e \<Rightarrow> w\<lparr>wr_at := Stopped\<rparr> | Inr d \<Rightarrow> w\<lparr>wr_disk := d, wr_at := Top\<rparr>)
      | _ \<Rightarrow> w)"

text \<open>The completion of a write: every record is applied, durable appends wait for a sync.\<close>

primrec apply_pending :: "('m, 'r, 's) machine \<Rightarrow> 'r pending list \<Rightarrow> ('m, 'r) writer \<Rightarrow> ('m, 'r) writer" where
  "apply_pending M [] w = w\<lparr>wr_at := Top\<rparr>"
| "apply_pending M (p # ps) w =
     (case mc_apply M (wr_machine w) (pd_lsn p) (pd_record p) of Inl e \<Rightarrow> w\<lparr>wr_at := Stopped\<rparr>
      | Inr m \<Rightarrow>
          apply_pending M ps
            (w\<lparr>wr_machine := m, wr_disk := (wr_disk w)\<lparr>dk_lsn := pd_lsn p\<rparr>,
               wr_durable := wr_durable w @ (if pd_ack p = Durable then [pd_lsn p] else [])\<rparr>))"

text \<open>The batch that starts with an append: more appends are taken from the queue without waiting.\<close>

fun batch_loop ::
  "(byte list \<Rightarrow> u64) \<Rightarrow> 'r \<Rightarrow> byte list \<Rightarrow> ack \<Rightarrow> 'r command list \<Rightarrow> u64 \<Rightarrow> byte list \<Rightarrow> 'r pending list
    \<Rightarrow> io_error + (u64 \<times> byte list \<times> 'r pending list \<times> 'r command list \<times> 'r command option)" where
  "batch_loop xxh record body a queue next_lsn bytes pending =
     (case checked_add next_lsn 1 of None \<Rightarrow> Inl (InvalidData ''journal LSN overflow'')
      | Some lsn \<Rightarrow>
        (case frame_encode xxh lsn body of Inl e \<Rightarrow> Inl e
         | Inr encoded \<Rightarrow>
           let bytes' = bytes @ encoded;
               pending' = pending @ [\<lparr>pd_lsn = lsn, pd_record = record, pd_bytes = body, pd_ack = a\<rparr>]
           in
           if length pending' \<ge> 256 \<or> length bytes' \<ge> 262144 then Inr (lsn, bytes', pending', queue, None)
           else
             (case queue of
                [] \<Rightarrow> Inr (lsn, bytes', pending', [], None)
              | Append record' body' a' # queue' \<Rightarrow> batch_loop xxh record' body' a' queue' lsn bytes' pending'
              | cmd # queue' \<Rightarrow> Inr (lsn, bytes', pending', queue', Some cmd))))"

definition receive :: "(byte list \<Rightarrow> u64) \<Rightarrow> ('m, 'r) writer \<Rightarrow> ('m, 'r) writer" where
  "receive xxh w =
     (case wr_queue w of
        [] \<Rightarrow> w\<lparr>wr_closed := True, wr_at := Top\<rparr>
      | Append record body a # queue \<Rightarrow>
          (case batch_loop xxh record body a queue (wr_next_lsn w) [] [] of Inl e \<Rightarrow> w\<lparr>wr_at := Stopped\<rparr>
           | Inr (lsn, bytes, pending, queue', barrier) \<Rightarrow>
               let offset = dk_offset (wr_disk w) in
               (case (if length bytes < 2 ^ 64 then checked_add offset (of_nat (length bytes)) else None) of
                  None \<Rightarrow> w\<lparr>wr_at := Stopped\<rparr>
                | Some offset' \<Rightarrow>
                    w\<lparr>wr_next_lsn := lsn, wr_queue := queue', wr_barrier := barrier,
                      wr_disk := (wr_disk w)\<lparr>dk_offset := offset'\<rparr>,
                      wr_write := Some (pending, bytes, offset, False), wr_at := Top\<rparr>))
      | cmd # queue \<Rightarrow> w\<lparr>wr_queue := queue, wr_barrier := Some cmd, wr_at := Top\<rparr>)"

subsection \<open>Steps of a stream\<close>

text \<open>
  A stream is its files, the process (closed, recovering, or running a writer), the bodies written to the log since
  its creation as far as they survived, and the number of records acknowledged as durable.
\<close>

datatype ('m, 'r) proc = Closed | Opening "fs_op list" disk 'm | Running "('m, 'r) writer"

record ('m, 'r) stream =
  st_fs :: fs
  st_proc :: "('m, 'r) proc"
  st_log :: "byte list list"
  st_acked :: nat

definition stream_init :: "('m, 'r) stream" where
  "stream_init = \<lparr>st_fs = fs_of_image (\<lambda>_. None), st_proc = Closed, st_log = [], st_acked = 0\<rparr>"

inductive stream_step ::
  "(byte list \<Rightarrow> u64) \<Rightarrow> ('m, 'r, 's) machine \<Rightarrow> 'm \<Rightarrow> nat \<Rightarrow> u64 \<Rightarrow> ('m, 'r) stream \<Rightarrow> ('m, 'r) stream \<Rightarrow> bool"
  for xxh M m0 threads checkpoint_bytes where
  \<comment> \<open>a restart after a crash, or after the process stopped\<close>
  reopen: "crash_image (st_fs s) img \<Longrightarrow> journal_recover xxh M threads (fs_of_image img) m0 = Some (ops, Inr (d, m)) \<Longrightarrow>
    stream_step xxh M m0 threads checkpoint_bytes s
      (s\<lparr>st_fs := fs_of_image img, st_proc := Opening ops d m, st_log := take (unat (dk_lsn d)) (st_log s)\<rparr>)"
| open_op: "st_proc s = Opening (op # ops) d m \<Longrightarrow>
    stream_step xxh M m0 threads checkpoint_bytes s (s\<lparr>st_fs := fs_step (st_fs s) op, st_proc := Opening ops d m\<rparr>)"
| opened: "st_proc s = Opening [] d m \<Longrightarrow>
    stream_step xxh M m0 threads checkpoint_bytes s (s\<lparr>st_proc := Running (writer_open d m)\<rparr>)"
| submit: "st_proc s = Running w \<Longrightarrow> (mc_valid M r \<and> handle_append M max_record max_bytes r a = Inr cmd) \<or> cmd = Query \<or> cmd = Checkpoint \<Longrightarrow>
    stream_step xxh M m0 threads checkpoint_bytes s (s\<lparr>st_proc := Running (w\<lparr>wr_queue := wr_queue w @ [cmd]\<rparr>)\<rparr>)"
| poison: "st_proc s = Running w \<Longrightarrow> wr_at w = Top \<Longrightarrow>
    stream_step xxh M m0 threads checkpoint_bytes s (s\<lparr>st_proc := Running (w\<lparr>wr_at := Stopped\<rparr>)\<rparr>)"
| top: "st_proc s = Running w \<Longrightarrow> wr_at w = Top \<Longrightarrow>
    stream_step xxh M m0 threads checkpoint_bytes s (s\<lparr>st_proc := Running (loop_top xxh M checkpoint_bytes w)\<rparr>)"
| query_op: "st_proc s = Running w \<Longrightarrow> wr_at w = AwaitQuery (op # ops) \<Longrightarrow>
    stream_step xxh M m0 threads checkpoint_bytes s
      (s\<lparr>st_fs := fs_step (st_fs s) op, st_proc := Running (w\<lparr>wr_at := AwaitQuery ops\<rparr>)\<rparr>)"
| rotate_op: "st_proc s = Running w \<Longrightarrow> wr_at w = AwaitRotate (op # ops) r items \<Longrightarrow>
    stream_step xxh M m0 threads checkpoint_bytes s
      (s\<lparr>st_fs := fs_step (st_fs s) op, st_proc := Running (w\<lparr>wr_at := AwaitRotate ops r items\<rparr>)\<rparr>)"
| publish_op: "st_proc s = Running w \<Longrightarrow> wr_at w = AwaitPublish (op # ops) rd \<Longrightarrow>
    stream_step xxh M m0 threads checkpoint_bytes s
      (s\<lparr>st_fs := fs_step (st_fs s) op, st_proc := Running (w\<lparr>wr_at := AwaitPublish ops rd\<rparr>)\<rparr>)"
| awaited: "st_proc s = Running w \<Longrightarrow> wr_at w \<in> {AwaitQuery [], AwaitRotate [] r items, AwaitPublish [] rd} \<Longrightarrow>
    stream_step xxh M m0 threads checkpoint_bytes s (s\<lparr>st_proc := Running (after_await xxh w)\<rparr>)"
  \<comment> \<open>effects of the operations in flight\<close>
| write_effect: "st_proc s = Running w \<Longrightarrow> wr_write w = Some (pending, bytes, offset, False) \<Longrightarrow>
    stream_step xxh M m0 threads checkpoint_bytes s
      (s\<lparr>st_fs := exec (disk_write (wr_disk w) bytes offset) (st_fs s),
         st_proc := Running (w\<lparr>wr_write := Some (pending, bytes, offset, True)\<rparr>),
         st_log := st_log s @ map pd_bytes pending\<rparr>)"
| sync_effect: "st_proc s = Running w \<Longrightarrow> wr_sync w = Some (lsns, False) \<Longrightarrow>
    stream_step xxh M m0 threads checkpoint_bytes s
      (s\<lparr>st_fs := exec (disk_sync (wr_disk w)) (st_fs s), st_proc := Running (w\<lparr>wr_sync := Some (lsns, True)\<rparr>)\<rparr>)"
| checkpoint_op: "st_proc s = Running w \<Longrightarrow> wr_checkpoint w = Some (op # ops, rs) \<Longrightarrow>
    stream_step xxh M m0 threads checkpoint_bytes s
      (s\<lparr>st_fs := fs_step (st_fs s) op, st_proc := Running (w\<lparr>wr_checkpoint := Some (ops, rs)\<rparr>)\<rparr>)"
  \<comment> \<open>the branches of \<open>select!\<close>\<close>
| sync_done: "st_proc s = Running w \<Longrightarrow> wr_at w = Select \<Longrightarrow> wr_sync w = Some (lsns, True) \<Longrightarrow>
    stream_step xxh M m0 threads checkpoint_bytes s
      (s\<lparr>st_proc := Running (w\<lparr>wr_sync := None, wr_at := Top\<rparr>), st_acked := Max (insert (st_acked s) (unat ` set lsns))\<rparr>)"
| checkpoint_failed: "st_proc s = Running w \<Longrightarrow> wr_at w = Select \<Longrightarrow> wr_checkpoint w = Some ([], Inl e) \<Longrightarrow>
    stream_step xxh M m0 threads checkpoint_bytes s
      (s\<lparr>st_proc := Running (w\<lparr>wr_checkpoint := None, wr_at := Stopped\<rparr>)\<rparr>)"
| checkpoint_done: "st_proc s = Running w \<Longrightarrow> wr_at w = Select \<Longrightarrow> wr_checkpoint w = Some ([], Inr sn) \<Longrightarrow>
    publish_snapshot xxh (wr_disk w) sn = (ops, rd) \<Longrightarrow>
    stream_step xxh M m0 threads checkpoint_bytes s
      (s\<lparr>st_proc := Running (w\<lparr>wr_checkpoint := None, wr_at := AwaitPublish ops rd\<rparr>)\<rparr>)"
| write_done: "st_proc s = Running w \<Longrightarrow> wr_at w = Select \<Longrightarrow> wr_write w = Some (pending, bytes, offset, True) \<Longrightarrow>
    stream_step xxh M m0 threads checkpoint_bytes s (s\<lparr>st_proc := Running (apply_pending M pending (w\<lparr>wr_write := None\<rparr>))\<rparr>)"
| received: "st_proc s = Running w \<Longrightarrow> wr_at w = Select \<Longrightarrow> \<not> wr_closed w \<Longrightarrow> wr_write w = None \<Longrightarrow> wr_barrier w = None \<Longrightarrow>
    dk_offset (wr_disk w) < checkpoint_bytes \<or> wr_checkpoint w \<noteq> None \<Longrightarrow>
    stream_step xxh M m0 threads checkpoint_bytes s (s\<lparr>st_proc := Running (receive xxh w)\<rparr>)"

text \<open>
  The writer writes a batch before it applies it, and nothing in between asks whether the machine will accept its records:
  a record that the machine rejects is in the log already, where it stops the writer and every later recovery. That the
  clients append only records that are accepted when their turn comes is therefore an assumption on the clients. It is
  not part of \<open>stream_step\<close>: a \<open>stream_run\<close> is a sequence of steps in which every batch handed to the disk satisfies it,
  and \<open>stream_reachable\<close> is what such runs reach.
\<close>

primrec accepts :: "('m, 'r, 's) machine \<Rightarrow> 'm \<Rightarrow> 'r pending list \<Rightarrow> bool" where
  "accepts M m [] \<longleftrightarrow> True"
| "accepts M m (p # ps) \<longleftrightarrow>
     (case mc_apply M m (pd_lsn p) (pd_record p) of Inl e \<Rightarrow> False | Inr m' \<Rightarrow> accepts M m' ps)"

definition clients_ok :: "('m, 'r, 's) machine \<Rightarrow> ('m, 'r) stream \<Rightarrow> bool" where
  "clients_ok M s \<longleftrightarrow>
     (case st_proc s of
        Running w \<Rightarrow> (case wr_write w of None \<Rightarrow> True | Some (pending, bytes, offset, effected) \<Rightarrow> accepts M (wr_machine w) pending)
      | _ \<Rightarrow> True)"

definition stream_run ::
  "(byte list \<Rightarrow> u64) \<Rightarrow> ('m, 'r, 's) machine \<Rightarrow> 'm \<Rightarrow> nat \<Rightarrow> u64 \<Rightarrow> ('m, 'r) stream \<Rightarrow> ('m, 'r) stream \<Rightarrow> bool" where
  "stream_run xxh M m0 threads checkpoint_bytes =
     (\<lambda>s s'. stream_step xxh M m0 threads checkpoint_bytes s s' \<and> clients_ok M s')\<^sup>*\<^sup>*"

definition stream_reachable ::
  "(byte list \<Rightarrow> u64) \<Rightarrow> ('m, 'r, 's) machine \<Rightarrow> 'm \<Rightarrow> nat \<Rightarrow> u64 \<Rightarrow> ('m, 'r) stream \<Rightarrow> bool" where
  "stream_reachable xxh M m0 threads checkpoint_bytes = stream_run xxh M m0 threads checkpoint_bytes stream_init"

lemma stream_run_refl: "stream_run xxh M m0 threads cb s s"
  by (simp add: stream_run_def)

lemma stream_run_trans:
  "\<lbrakk>stream_run xxh M m0 threads cb s s'; stream_run xxh M m0 threads cb s' s''\<rbrakk> \<Longrightarrow> stream_run xxh M m0 threads cb s s''"
  unfolding stream_run_def by (rule rtranclp_trans)

lemma stream_run_step:
  "\<lbrakk>stream_run xxh M m0 threads cb s s'; stream_step xxh M m0 threads cb s' s''; clients_ok M s''\<rbrakk> \<Longrightarrow> stream_run xxh M m0 threads cb s s''"
  unfolding stream_run_def by (simp add: rtranclp.rtrancl_into_rtrancl)

lemma stream_reachable_run:
  "\<lbrakk>stream_reachable xxh M m0 threads cb s; stream_run xxh M m0 threads cb s s'\<rbrakk> \<Longrightarrow> stream_reachable xxh M m0 threads cb s'"
  unfolding stream_reachable_def stream_run_def by (rule rtranclp_trans)

lemma stream_reachable_induct [consumes 1, case_names init step]:
  assumes "stream_reachable xxh M m0 threads cb s" "P stream_init"
    and "\<And>s s'. \<lbrakk>stream_reachable xxh M m0 threads cb s; clients_ok M s; stream_step xxh M m0 threads cb s s'; clients_ok M s'; P s\<rbrakk> \<Longrightarrow> P s'"
  shows "P s"
proof -
  have "stream_run xxh M m0 threads cb stream_init s" using assms(1) by (simp add: stream_reachable_def)
  then have "clients_ok M s \<and> P s" unfolding stream_run_def
  proof (induction rule: rtranclp_induct)
    case base
    show ?case using assms(2) by (simp add: clients_ok_def stream_init_def)
  next
    case (step s s')
    then show ?case using assms(3) [of s s'] by (simp add: stream_reachable_def stream_run_def)
  qed
  then show ?thesis ..
qed

end
