(* ===== verification/Journal_Crash.thy ===== *)
theory Journal_Crash
  imports Journal_Writer
begin

text \<open>
  Crash safety of a journal stream. The locale \<open>journal_machine\<close> states what a stream relies on from its state
  machine; inside it an invariant of the files, of the operations still to be performed and of the writer is shown to
  hold in every state that a \<open>stream_run\<close> reaches, and to imply that recovery succeeds from every image a crash may
  leave and gives back all acknowledged records.
\<close>

subsection \<open>Numbered records\<close>

primrec number :: "nat \<Rightarrow> byte list list \<Rightarrow> (u64 \<times> byte list) list" where
  "number k [] = []"
| "number k (b # bs) = (of_nat (Suc k), b) # number (Suc k) bs"

definition log_frames :: "(byte list \<Rightarrow> u64) \<Rightarrow> nat \<Rightarrow> byte list list \<Rightarrow> byte list" where
  "log_frames xxh k bs = concat (map (frame_bytes xxh) (number k bs))"

definition slice :: "nat \<Rightarrow> nat \<Rightarrow> 'a list \<Rightarrow> 'a list" where
  "slice i j xs = take (j - i) (drop i xs)"

lemma number_append: "number k (xs @ ys) = number k xs @ number (k + length xs) ys"
  by (induction xs arbitrary: k) simp_all

lemma snd_number [simp]: "map snd (number k bs) = bs"
  by (induction bs arbitrary: k) simp_all

lemma length_number [simp]: "length (number k bs) = length bs"
  by (induction bs arbitrary: k) simp_all

lemma log_frames_append: "log_frames xxh k (xs @ ys) = log_frames xxh k xs @ log_frames xxh (k + length xs) ys"
  by (simp add: log_frames_def number_append)

lemma log_frames_Nil [simp]: "log_frames xxh k [] = []"
  by (simp add: log_frames_def)

lemma log_frames_Cons: "log_frames xxh k (b # bs) = frame_bytes xxh (of_nat (Suc k), b) @ log_frames xxh (Suc k) bs"
  by (simp add: log_frames_def)

lemma slice_append:
  assumes "i \<le> j" "j \<le> k"
  shows "slice i k xs = slice i j xs @ slice j k xs"
  using take_drop_split [of i "j - i" k xs] assms by (simp add: slice_def)

lemma length_slice [simp]: "j \<le> length xs \<Longrightarrow> length (slice i j xs) = j - i"
  by (simp add: slice_def)

lemma slice_append_left [simp]: "j \<le> length xs \<Longrightarrow> slice i j (xs @ ys) = slice i j xs"
  by (simp add: slice_def)

lemma drop_slice: "drop i xs = slice i (length xs) xs"
  by (simp add: slice_def)

lemma slice_take: "j \<le> k \<Longrightarrow> slice i j (take k xs) = slice i j xs"
  by (simp add: slice_def drop_take min_def)

lemma take_slice: "take j xs = slice 0 j xs"
  by (simp add: slice_def)

text \<open>The state of the machine after a sequence of record bodies, and after the items of a snapshot.\<close>

primrec replay :: "('m, 'r, 's) machine \<Rightarrow> nat \<Rightarrow> byte list list \<Rightarrow> 'm \<Rightarrow> io_error + 'm" where
  "replay M k [] m = Inr m"
| "replay M k (b # bs) m =
     (case mc_decode M b of Inl e \<Rightarrow> Inl e
      | Inr r \<Rightarrow> (case mc_apply M m (of_nat (Suc k)) r of Inl e \<Rightarrow> Inl e | Inr m' \<Rightarrow> replay M (Suc k) bs m'))"

primrec restore_all :: "('m, 'r, 's) machine \<Rightarrow> 's list \<Rightarrow> 'm \<Rightarrow> io_error + 'm" where
  "restore_all M [] m = Inr m"
| "restore_all M (r # rs) m = (case mc_restore M m r of Inl e \<Rightarrow> Inl e | Inr m' \<Rightarrow> restore_all M rs m')"

lemma replay_append:
  "replay M k (xs @ ys) m = (case replay M k xs m of Inl e \<Rightarrow> Inl e | Inr m' \<Rightarrow> replay M (k + length xs) ys m')"
  by (induction xs arbitrary: k m) (auto split: sum.splits)

lemma replay_append_Inr:
  "replay M k (xs @ ys) m = Inr m2 \<longleftrightarrow> (\<exists>m1. replay M k xs m = Inr m1 \<and> replay M (k + length xs) ys m1 = Inr m2)"
  by (simp add: replay_append split: sum.splits)

lemma replay_decodes: "replay M k bs m = Inr m' \<Longrightarrow> list_all (\<lambda>b. \<not> isl (mc_decode M b)) bs"
  by (induction bs arbitrary: k m) (auto split: sum.splits)

lemma list_all_number: "list_all (\<lambda>r. P (snd r)) (number k bs) \<longleftrightarrow> list_all P bs"
  by (induction bs arbitrary: k) simp_all

lemma unat_of_nat_u64: "k < 2 ^ 64 \<Longrightarrow> unat (of_nat k :: u64) = k"
  by (simp add: unat_of_nat)

lemma checked_add_of_nat:
  assumes "Suc k < 2 ^ 64"
  shows "checked_add (of_nat k :: u64) 1 = Some (of_nat (Suc k))"
proof -
  have "unat (of_nat k :: u64) = k" by (rule unat_of_nat_u64) (use assms in simp)
  then show ?thesis using assms unfolding checked_add_def by simp
qed

lemma visit_log_number:
  assumes "replay M k bs m = Inr m'" "k + length bs < 2 ^ 64"
  shows "visit_all (visit_log M) (map (\<lambda>r. (fst r, projr (mc_decode M (snd r)))) (number k bs)) (of_nat k, m) =
    Inr (of_nat (k + length bs), m')"
  using assms
proof (induction bs arbitrary: k m)
  case (Cons b bs)
  obtain r m1 where r: "mc_decode M b = Inr r" "mc_apply M m (of_nat (Suc k)) r = Inr m1" "replay M (Suc k) bs m1 = Inr m'"
    using Cons.prems(1) by (auto split: sum.splits)
  have "checked_add (of_nat k :: u64) 1 = Some (of_nat (Suc k))"
    using Cons.prems(2) by (intro checked_add_of_nat) simp
  then have "visit_log M (of_nat k, m) (of_nat (Suc k)) r = Inr (of_nat (Suc k), m1)"
    using r by (simp add: visit_log_def)
  then show ?case using Cons.IH [OF r(3)] Cons.prems(2) r(1) by simp
qed simp

lemma visit_snapshot_number:
  assumes "list_all2 (\<lambda>b s. mc_decode_snapshot M b = Inr s) items srs" "restore_all M srs m = Inr m'"
  shows "visit_all (visit_snapshot M) (map (\<lambda>r. (fst r, projr (mc_decode_snapshot M (snd r)))) (number k items)) (of_nat k, m) =
    Inr (of_nat (k + length items), m')"
  using assms
proof (induction items srs arbitrary: k m rule: list_all2_induct)
  case (Cons b bs s srs)
  obtain m1 where r: "mc_restore M m s = Inr m1" "restore_all M srs m1 = Inr m'"
    using Cons.prems by (auto split: sum.splits)
  have "visit_snapshot M (of_nat k, m) (of_nat (Suc k)) s = Inr (of_nat (Suc k), m1)"
    using r by (simp add: visit_snapshot_def add.commute)
  then show ?case using Cons.IH [OF r(2), of "Suc k"] Cons.hyps(1) by simp
qed simp

lemma torn_tail_Nil [simp]: "torn_tail xxh []"
  unfolding torn_tail_def by (intro exI [of _ "(0, [])"] exI [of _ 0]) simp

text \<open>Reading one log and reading a snapshot.\<close>

lemma journal_read_number:
  assumes "list_all (\<lambda>b. length b \<le> MAX_RECORD) bs" "list_all (\<lambda>b. \<not> isl (dec b)) bs" "torn_tail xxh tail" "tail_ok \<or> tail = []"
    "visit_all visit (map (\<lambda>r. (fst r, projr (dec (snd r)))) (number k bs)) s = Inr s'"
  shows "journal_read xxh dec visit threads (log_frames xxh k bs @ tail) tail_ok s = Some (Inr (s', length (log_frames xxh k bs)))"
proof -
  have "list_all (\<lambda>b. length b \<le> MAX_RECORD \<and> dec b = Inr (projr (dec b))) bs"
    using assms(1,2) unfolding list_all_iff by (metis sum.collapse(2))
  then have "list_all (\<lambda>r. length (snd r) \<le> MAX_RECORD \<and> dec (snd r) = Inr (projr (dec (snd r)))) (number k bs)"
    by (subst list_all_number [where P = "\<lambda>b. length b \<le> MAX_RECORD \<and> dec b = Inr (projr (dec b))"])
  from read_file_complete [where f = "\<lambda>b. projr (dec b)", OF this assms(3,4), of visit s] show ?thesis
    unfolding journal_read_Inr log_frames_def assms(5) by simp
qed

lemma journal_read_log:
  assumes "replay M k bs m = Inr m'" "k + length bs < 2 ^ 64" "list_all (\<lambda>b. length b \<le> MAX_RECORD) bs"
    "torn_tail xxh tail" "tail_ok \<or> tail = []"
  shows "journal_read xxh (mc_decode M) (visit_log M) threads (log_frames xxh k bs @ tail) tail_ok (of_nat k, m) =
    Some (Inr ((of_nat (k + length bs), m'), length (log_frames xxh k bs)))"
  by (rule journal_read_number [OF assms(3) replay_decodes [OF assms(1)] assms(4,5) visit_log_number [OF assms(1,2)]])

lemma journal_read_snapshot:
  assumes "list_all2 (\<lambda>b s. mc_decode_snapshot M b = Inr s) items srs" "restore_all M srs m = Inr m'"
    "list_all (\<lambda>b. length b \<le> MAX_RECORD) items"
  shows "journal_read xxh (mc_decode_snapshot M) (visit_snapshot M) threads (log_frames xxh 0 items) False (0, m) =
    Some (Inr ((of_nat (length items), m'), length (log_frames xxh 0 items)))"
proof -
  have "list_all (\<lambda>b. \<not> isl (mc_decode_snapshot M b)) items"
    using assms(1) by (induction rule: list_all2_induct) auto
  from journal_read_number [OF assms(3) this torn_tail_Nil _ visit_snapshot_number [OF assms(1,2)], of False xxh threads 0]
  show ?thesis by simp
qed

subsection \<open>Sequences of operations that keep a property at every point\<close>

primrec safe :: "(fs \<Rightarrow> bool) \<Rightarrow> fs_op list \<Rightarrow> fs \<Rightarrow> bool" where
  "safe P [] s \<longleftrightarrow> P s"
| "safe P (op # ops) s \<longleftrightarrow> P s \<and> safe P ops (fs_step s op)"

lemma safe_here: "safe P ops s \<Longrightarrow> P s"
  by (cases ops) simp_all

lemma safe_end: "safe P ops s \<Longrightarrow> P (exec ops s)"
  by (induction ops arbitrary: s) simp_all

lemma safe_append: "safe P (ops @ ops') s \<longleftrightarrow> safe P ops s \<and> safe P ops' (exec ops s)"
  by (induction ops arbitrary: s) (auto dest: safe_here)

lemma safe_mono: "safe P ops s \<Longrightarrow> (\<And>s. P s \<Longrightarrow> Q s) \<Longrightarrow> safe Q ops s"
  by (induction ops arbitrary: s) simp_all

lemma safe_invariant:
  assumes "P s" "\<And>op s. op \<in> set ops \<Longrightarrow> P s \<Longrightarrow> P (fs_step s op)"
  shows "safe P ops s"
  using assms by (induction ops arbitrary: s) simp_all

lemma safe_update:
  assumes "safe P ops s" "n \<notin> ops_names ops" "\<And>s. P s \<Longrightarrow> Q (update_file s n g)"
  shows "safe Q ops (update_file s n g)"
  using assms by (induction ops arbitrary: s) (simp_all add: fs_step_update_commute)

definition stable :: "fs \<Rightarrow> fname \<Rightarrow> byte list \<Rightarrow> bool" where
  "stable s n b \<longleftrightarrow> bindings s n = {Some (synced b)}"

definition same_at :: "fs \<Rightarrow> fs \<Rightarrow> fname \<Rightarrow> bool" where
  "same_at s s' n \<longleftrightarrow> fs_live s' n = fs_live s n \<and> fs_old s' n \<subseteq> fs_old s n"

lemma same_at_step: "n \<notin> op_names op \<Longrightarrow> same_at s (fs_step s op) n"
  using fs_step_frame [of n op s] by (simp add: same_at_def)

lemma same_at_update: "n \<noteq> n' \<Longrightarrow> same_at s (update_file s n' g) n"
  by (simp add: same_at_def)

lemma same_at_single: "same_at s s' n \<Longrightarrow> bindings s n = {x} \<Longrightarrow> bindings s' n = {x}"
  by (auto simp: same_at_def bindings_def)

lemma stable_same: "stable s n b \<Longrightarrow> same_at s s' n \<Longrightarrow> stable s' n b"
  unfolding stable_def by (rule same_at_single)

lemma same_at_bindings: "same_at s s' n \<Longrightarrow> bindings s' n \<subseteq> bindings s n"
  by (auto simp: same_at_def bindings_def)

lemma stable_image: "stable s n b \<Longrightarrow> crash_image s img \<Longrightarrow> img n = Some b"
  unfolding crash_image_def stable_def by (drule spec [of _ n]) auto

lemma single_image: "bindings s n = {Some f} \<Longrightarrow> crash_image s img \<Longrightarrow> \<exists>b \<in> fo_images f. img n = Some b"
  unfolding crash_image_def by (drule spec [of _ n]) auto

definition files :: "nat \<Rightarrow> nat \<Rightarrow> fname set" where
  "files a b = insert (SnapshotFile (of_nat a)) ((\<lambda>g. JournalFile (of_nat g)) ` {a..b})"

lemma current_file_length: "current_valid c \<Longrightarrow> length (current_file xxh c) \<le> 65536"
proof -
  have "length (concat (map u64_le ls)) = 8 * length ls" for ls by (induction ls) simp_all
  moreover have "length (concat (map garbage_bytes gs)) = 16 * length gs" for gs
    by (induction gs) (simp_all add: garbage_bytes_def)
  ultimately show "current_valid c \<Longrightarrow> length (current_file xxh c) \<le> 65536"
    by (auto simp: current_file_def current_body_fields current_valid_def MAX_GENERATIONS_def CURRENT_MAGIC_def)
qed

lemma read_current_file:
  "current_valid c \<Longrightarrow> img CurrentFile = Some (current_file xxh c) \<Longrightarrow> read_current img = Inr (current_file xxh c)"
  using current_file_length [of c xxh] by (simp add: read_current_def Let_def)

subsection \<open>The contract of a state machine\<close>

text \<open>
  Recovered states need only be equivalent (\<open>sim\<close>) to the states they replace, and only states that satisfy the
  machine's invariant (\<open>ok\<close>) need a restorable snapshot.
\<close>

locale journal_machine =
  fixes xxh :: "byte list \<Rightarrow> u64"
    and M :: "('m, 'r, 's) machine"
    and m0 :: 'm
    and ok :: "'m \<Rightarrow> bool"
    and sim :: "'m \<Rightarrow> 'm \<Rightarrow> bool"
  assumes ok_init: "ok m0"
    and ok_apply: "ok m \<Longrightarrow> mc_valid M r \<Longrightarrow> mc_apply M m l r = Inr m' \<Longrightarrow> ok m'"
    and sim_refl: "sim m m"
    and sim_sym: "sim a b \<Longrightarrow> sim b a"
    and sim_trans: "sim a b \<Longrightarrow> sim b c \<Longrightarrow> sim a c"
    and sim_apply: "mc_valid M r \<Longrightarrow> ok a \<Longrightarrow> ok b \<Longrightarrow> sim a b \<Longrightarrow> mc_apply M a l r = Inr a' \<Longrightarrow> \<exists>b'. mc_apply M b l r = Inr b' \<and> sim a' b'"
    and decode_valid: "mc_decode M bytes = Inr r \<Longrightarrow> mc_valid M r"
    and decode_encode: "ok m \<Longrightarrow> mc_valid M r \<Longrightarrow> mc_apply M m l r = Inr m' \<Longrightarrow> mc_encode M r = Inr bytes \<Longrightarrow> mc_decode M bytes = Inr r"
    and snapshot_restore: "ok m \<Longrightarrow> mc_snapshot M m = Inr (map Inr items) \<Longrightarrow>
      \<exists>srs m'. list_all2 (\<lambda>b s. mc_decode_snapshot M b = Inr s) items srs \<and> restore_all M srs m0 = Inr m' \<and> ok m' \<and> sim m m'"
begin

lemma replay_ok: "replay M k bs m = Inr m' \<Longrightarrow> ok m \<Longrightarrow> ok m'"
  by (induction bs arbitrary: k m) (auto split: sum.splits dest: ok_apply [OF _ decode_valid])

lemma replay_sim:
  "replay M k bs a = Inr a' \<Longrightarrow> ok a \<Longrightarrow> ok b \<Longrightarrow> sim a b \<Longrightarrow> \<exists>b'. replay M k bs b = Inr b' \<and> sim a' b'"
proof (induction bs arbitrary: k a b)
  case (Cons x bs)
  obtain r a1 where r: "mc_decode M x = Inr r" "mc_apply M a (of_nat (Suc k)) r = Inr a1" "replay M (Suc k) bs a1 = Inr a'"
    using Cons.prems(1) by (auto split: sum.splits)
  obtain b1 where b1: "mc_apply M b (of_nat (Suc k)) r = Inr b1" "sim a1 b1" using sim_apply [OF decode_valid [OF r(1)]] Cons.prems r(2) by metis
  have "ok a1" "ok b1" using ok_apply [OF _ decode_valid [OF r(1)]] Cons.prems r(2) b1(1) by blast+
  then obtain b' where "replay M (Suc k) bs b1 = Inr b' \<and> sim a' b'" using Cons.IH [OF r(3)] b1(2) by blast
  then show ?case using r(1) b1(1) by simp
qed simp

text \<open>The content of a snapshot file and the possible contents of the last log.\<close>

definition snap_ok :: "byte list list \<Rightarrow> nat \<Rightarrow> byte list \<Rightarrow> u64 \<Rightarrow> bool" where
  "snap_ok log k content records \<longleftrightarrow>
     (\<exists>items srs m m'. content = log_frames xxh 0 items \<and> records = of_nat (length items) \<and>
        list_all (\<lambda>b. length b \<le> MAX_RECORD) items \<and> list_all2 (\<lambda>b s. mc_decode_snapshot M b = Inr s) items srs \<and>
        replay M 0 (take k log) m0 = Inr m \<and> restore_all M srs m0 = Inr m' \<and> ok m' \<and> sim m m')"

definition tail_img :: "byte list list \<Rightarrow> nat \<Rightarrow> nat \<Rightarrow> byte list \<Rightarrow> bool" where
  "tail_img log lev kb i \<longleftrightarrow>
     (\<exists>k t. kb \<le> k \<and> lev \<le> k \<and> k \<le> length log \<and> i = log_frames xxh kb (slice kb k log) @ t \<and> torn_tail xxh t)"

definition log_ok :: "byte list list \<Rightarrow> bool" where
  "log_ok log \<longleftrightarrow> length log < 2 ^ 64 \<and> list_all (\<lambda>b. length b \<le> MAX_RECORD) log \<and> \<not> isl (replay M 0 log m0)"

definition fits :: "byte list list \<Rightarrow> nat \<Rightarrow> bool" where
  "fits log kb \<longleftrightarrow> length (log_frames xxh kb (slice kb (length log) log)) < 2 ^ 64"

lemma fits_take: "fits log kb \<Longrightarrow> kb \<le> k \<Longrightarrow> k \<le> length log \<Longrightarrow> fits (take k log) kb"
  using slice_append [of kb k "length log" log] by (simp add: fits_def log_frames_append slice_take)

lemma fits_empty [simp]: "fits log (length log)"
  by (simp add: fits_def slice_def)

text \<open>
  A recovery set is supported by the files: generation \<open>g\<close> starts after \<open>pos g\<close> records, all logs but the last are
  complete, and every possible content of the last one has at least the first \<open>lev\<close> records.
\<close>

definition set_ok :: "byte list list \<Rightarrow> (nat \<Rightarrow> nat) \<Rightarrow> current \<Rightarrow> nat \<Rightarrow> nat \<Rightarrow> bool" where
  "set_ok log pos c a b \<longleftrightarrow>
     current_valid c \<and> cu_logs c = map of_nat [a..<Suc b] \<and> a \<le> b \<and> b < 2 ^ 64 \<and> cu_snapshot c = of_nat a \<and>
     cu_lsn c = of_nat (pos a) \<and> (cu_pending c \<noteq> 0 \<longrightarrow> a < b) \<and> (\<forall>g. a \<le> g \<longrightarrow> g < b \<longrightarrow> pos g \<le> pos (Suc g)) \<and> pos b \<le> length log \<and>
     fits log (pos b)"

lemma set_okD:
  assumes "set_ok log pos c a b"
  shows "current_valid c" "cu_logs c = map of_nat [a..<Suc b]" "a \<le> b" "b < 2 ^ 64" "cu_snapshot c = of_nat a" "cu_lsn c = of_nat (pos a)"
    "cu_pending c \<noteq> 0 \<Longrightarrow> a < b" "\<And>g. a \<le> g \<Longrightarrow> g < b \<Longrightarrow> pos g \<le> pos (Suc g)" "pos b \<le> length log" "fits log (pos b)"
  using assms unfolding set_ok_def by blast+

definition supported :: "fs \<Rightarrow> byte list list \<Rightarrow> nat \<Rightarrow> (nat \<Rightarrow> nat) \<Rightarrow> current \<times> nat \<times> nat \<Rightarrow> bool" where
  "supported s log lev pos = (\<lambda>(c, a, b).
     set_ok log pos c a b \<and>
     (\<exists>content. stable s (SnapshotFile (of_nat a)) content \<and> cu_bytes c = of_nat (length content) \<and>
        snap_ok log (pos a) content (cu_records c)) \<and>
     (\<forall>g. a \<le> g \<longrightarrow> g < b \<longrightarrow> stable s (JournalFile (of_nat g)) (log_frames xxh (pos g) (slice (pos g) (pos (Suc g)) log))) \<and>
     (\<exists>f. fs_live s (JournalFile (of_nat b)) = Some f \<and> fs_old s (JournalFile (of_nat b)) = {} \<and> (\<forall>i \<in> fo_images f. tail_img log lev (pos b) i)))"

lemma supportedI:
  assumes "set_ok log pos c a b" "stable s (SnapshotFile (of_nat a)) content" "cu_bytes c = of_nat (length content)"
    "snap_ok log (pos a) content (cu_records c)"
    "\<And>g. a \<le> g \<Longrightarrow> g < b \<Longrightarrow> stable s (JournalFile (of_nat g)) (log_frames xxh (pos g) (slice (pos g) (pos (Suc g)) log))"
    "fs_live s (JournalFile (of_nat b)) = Some f" "fs_old s (JournalFile (of_nat b)) = {}" "\<And>i. i \<in> fo_images f \<Longrightarrow> tail_img log lev (pos b) i"
  shows "supported s log lev pos (c, a, b)"
  unfolding supported_def prod.case using assms by blast

lemma supportedE:
  assumes "supported s log lev pos (c, a, b)"
  obtains content f where "set_ok log pos c a b" "stable s (SnapshotFile (of_nat a)) content" "cu_bytes c = of_nat (length content)"
    "snap_ok log (pos a) content (cu_records c)"
    "\<And>g. a \<le> g \<Longrightarrow> g < b \<Longrightarrow> stable s (JournalFile (of_nat g)) (log_frames xxh (pos g) (slice (pos g) (pos (Suc g)) log))"
    "fs_live s (JournalFile (of_nat b)) = Some f" "fs_old s (JournalFile (of_nat b)) = {}" "\<And>i. i \<in> fo_images f \<Longrightarrow> tail_img log lev (pos b) i"
  using assms unfolding supported_def prod.case by blast

definition covers :: "fs \<Rightarrow> byte list list \<Rightarrow> (current \<times> nat \<times> nat) set \<Rightarrow> bool" where
  "covers s log K \<longleftrightarrow>
     (\<forall>x \<in> bindings s CurrentFile. (x = None \<and> log = []) \<or> (\<exists>k \<in> K. x = Some (synced (current_file xxh (fst k)))))"

definition good :: "fs \<Rightarrow> byte list list \<Rightarrow> nat \<Rightarrow> (nat \<Rightarrow> nat) \<Rightarrow> (current \<times> nat \<times> nat) set \<Rightarrow> bool" where
  "good s log lev pos K \<longleftrightarrow> log_ok log \<and> lev \<le> length log \<and> covers s log K \<and> (\<forall>k \<in> K. supported s log lev pos k)"

lemma supported_images:
  assumes "supported s log lev pos (c, a, b)" "fs_live s (JournalFile (of_nat b)) = Some f" "i \<in> fo_images f"
  shows "tail_img log lev (pos b) i"
proof -
  obtain f' where "fs_live s (JournalFile (of_nat b)) = Some f'" "\<forall>i \<in> fo_images f'. tail_img log lev (pos b) i"
    using assms(1) unfolding supported_def prod.case by blast
  then show ?thesis using assms(2,3) by auto
qed

text \<open>Operations on other files keep the support of a recovery set.\<close>

lemma supported_same:
  assumes "supported s log lev pos (c, a, b)" "\<And>n. n \<in> files a b \<Longrightarrow> same_at s s' n"
  shows "supported s' log lev pos (c, a, b)"
  using assms(1)
proof (rule supportedE)
  fix content f
  assume h: "set_ok log pos c a b" "stable s (SnapshotFile (of_nat a)) content" "cu_bytes c = of_nat (length content)"
    "snap_ok log (pos a) content (cu_records c)"
    "\<And>g. a \<le> g \<Longrightarrow> g < b \<Longrightarrow> stable s (JournalFile (of_nat g)) (log_frames xxh (pos g) (slice (pos g) (pos (Suc g)) log))"
    "fs_live s (JournalFile (of_nat b)) = Some f" "fs_old s (JournalFile (of_nat b)) = {}" "\<And>i. i \<in> fo_images f \<Longrightarrow> tail_img log lev (pos b) i"
  have keep: "bindings s' n = {x}" if "bindings s n = {x}" "n \<in> files a b" for n x
    using that assms(2) same_at_single by blast
  have ab: "a \<le> b" using h(1) by (simp add: set_ok_def)
  show ?thesis
  proof (rule supportedI [OF h(1) _ h(3,4)])
    show "stable s' (SnapshotFile (of_nat a)) content" using h(2) keep unfolding stable_def files_def by blast
    show "stable s' (JournalFile (of_nat g)) (log_frames xxh (pos g) (slice (pos g) (pos (Suc g)) log))" if "a \<le> g" "g < b" for g
      using h(5) [OF that] that keep unfolding stable_def files_def by auto
    have "same_at s s' (JournalFile (of_nat b))" using assms(2) ab by (auto simp: files_def)
    then show "fs_live s' (JournalFile (of_nat b)) = Some f" "fs_old s' (JournalFile (of_nat b)) = {}"
      using h(6,7) by (auto simp: same_at_def)
  qed (rule h(8))
qed

lemma covers_same: "covers s log K \<Longrightarrow> same_at s s' CurrentFile \<Longrightarrow> covers s' log K"
  using same_at_bindings unfolding covers_def by blast

lemma good_same:
  assumes "good s log lev pos K" "same_at s s' CurrentFile" "\<And>c a b n. (c, a, b) \<in> K \<Longrightarrow> n \<in> files a b \<Longrightarrow> same_at s s' n"
  shows "good s' log lev pos K"
proof -
  have "supported s' log lev pos k" if "k \<in> K" for k
    using that assms(1,3) supported_same [of s log lev pos _ _ _ s'] by (cases k) (auto simp: good_def)
  then show ?thesis using assms(1,2) covers_same unfolding good_def by blast
qed

lemma good_step:
  assumes "good s log lev pos K" "CurrentFile \<notin> op_names op" "\<And>c a b. (c, a, b) \<in> K \<Longrightarrow> files a b \<inter> op_names op = {}"
  shows "good (fs_step s op) log lev pos K"
  using assms same_at_step by (intro good_same [OF assms(1)]) blast+

lemma good_supported: "good s log lev pos K \<Longrightarrow> k \<in> K \<Longrightarrow> supported s log lev pos k"
  by (simp add: good_def)

text \<open>Replay of the logs of a supported recovery set from an image.\<close>

lemma replay_logs_ok:
  assumes "log_ok log" "k \<le> length log" "pos b \<le> k" "\<And>h. g \<le> h \<Longrightarrow> h < b \<Longrightarrow> pos h \<le> pos (Suc h)" "g \<le> b"
    "\<And>h. g \<le> h \<Longrightarrow> h < b \<Longrightarrow> img (JournalFile (of_nat h)) = Some (log_frames xxh (pos h) (slice (pos h) (pos (Suc h)) log))"
    "img (JournalFile (of_nat b)) = Some (log_frames xxh (pos b) (slice (pos b) k log) @ t)" "torn_tail xxh t"
    "replay M (pos g) (slice (pos g) k log) m = Inr m'"
  shows "replay_logs xxh M threads img (map of_nat [g..<Suc b]) (of_nat (pos g), m) off =
    Some (Inr ((of_nat k, m'), length (log_frames xxh (pos b) (slice (pos b) k log))))"
  using assms(4-6,9)
proof (induction "b - g" arbitrary: g m off)
  case 0
  then have g: "g = b" by simp
  have "journal_read xxh (mc_decode M) (visit_log M) threads (log_frames xxh (pos b) (slice (pos b) k log) @ t) True (of_nat (pos b), m) =
    Some (Inr ((of_nat (pos b + length (slice (pos b) k log)), m'), length (log_frames xxh (pos b) (slice (pos b) k log))))"
    using assms(1,2,3,8) 0 g
    by (intro journal_read_log) (auto simp: log_ok_def slice_def list_all_iff dest!: in_set_takeD in_set_dropD)
  then show ?case using assms(2,3,7) g by (simp add: stream_path_def)
next
  case (Suc d)
  then have g: "g < b" "d = b - Suc g" by simp_all
  have mono: "pos (Suc g) \<le> k"
  proof -
    have "pos (Suc g) \<le> pos h" if "Suc g \<le> h" "h \<le> b" for h
      using that by (induction h rule: dec_induct) (use Suc.prems(1) g in \<open>auto intro: order_trans\<close>)
    then show ?thesis using g assms(3) by (meson Suc_leI order_refl order_trans)
  qed
  have p: "pos g \<le> pos (Suc g)" using Suc.prems(1) g by simp
  let ?seg = "slice (pos g) (pos (Suc g)) log"
  obtain m1 where m1: "replay M (pos g) ?seg m = Inr m1" "replay M (pos (Suc g)) (slice (pos (Suc g)) k log) m1 = Inr m'"
    using Suc.prems(4) p mono assms(2) unfolding slice_append [OF p mono] replay_append_Inr by auto
  have "journal_read xxh (mc_decode M) (visit_log M) threads (log_frames xxh (pos g) ?seg @ []) False (of_nat (pos g), m) =
    Some (Inr ((of_nat (pos g + length ?seg), m1), length (log_frames xxh (pos g) ?seg)))"
    using assms(1,2) mono p m1(1)
    by (intro journal_read_log) (auto simp: log_ok_def slice_def list_all_iff dest!: in_set_takeD in_set_dropD)
  then have r: "journal_read xxh (mc_decode M) (visit_log M) threads (log_frames xxh (pos g) ?seg) False (of_nat (pos g), m) =
    Some (Inr ((of_nat (pos (Suc g)), m1), length (log_frames xxh (pos g) ?seg)))"
    using mono p assms(2) by simp
  have ne: "[Suc g..<Suc b] \<noteq> []" using g by simp
  have "replay_logs xxh M threads img (map of_nat [Suc g..<Suc b]) (of_nat (pos (Suc g)), m1) (length (log_frames xxh (pos g) ?seg)) =
    Some (Inr ((of_nat k, m'), length (log_frames xxh (pos b) (slice (pos b) k log))))"
    using Suc.prems g m1(2) by (intro Suc.hyps(1)) auto
  then show ?case using g ne Suc.prems(3) [of g] r by (simp add: upt_conv_Cons [of g] stream_path_def)
qed

lemma set_ok_mono:
  assumes "set_ok log pos c a b" "a \<le> g" "g \<le> h" "h \<le> b"
  shows "pos g \<le> pos h"
  using assms(3,4)
proof (induction h rule: dec_induct)
  case (step h)
  then show ?case using assms(1,2) unfolding set_ok_def by (meson Suc_leD Suc_le_lessD order_trans)
qed simp

text \<open>Recovery from an image of files that support a recovery set.\<close>

lemma recover_replay_ok:
  assumes "supported s log lev pos (c, a, b)" "log_ok log" "crash_image s img"
  obtains k t m m' where "pos b \<le> k" "lev \<le> k" "k \<le> length log" "torn_tail xxh t"
    "img (JournalFile (of_nat b)) = Some (log_frames xxh (pos b) (slice (pos b) k log) @ t)"
    "recover_replay xxh M threads img c m0 = Some (Inr ((of_nat k, m'), length (log_frames xxh (pos b) (slice (pos b) k log))))"
    "replay M 0 (take k log) m0 = Inr m" "ok m'" "sim m m'"
  using assms(1)
proof (rule supportedE)
  fix content f
  assume h: "set_ok log pos c a b" "stable s (SnapshotFile (of_nat a)) content" "cu_bytes c = of_nat (length content)"
    "snap_ok log (pos a) content (cu_records c)"
    "\<And>g. a \<le> g \<Longrightarrow> g < b \<Longrightarrow> stable s (JournalFile (of_nat g)) (log_frames xxh (pos g) (slice (pos g) (pos (Suc g)) log))"
    "fs_live s (JournalFile (of_nat b)) = Some f" "fs_old s (JournalFile (of_nat b)) = {}" "\<And>i. i \<in> fo_images f \<Longrightarrow> tail_img log lev (pos b) i"
  obtain i where i: "i \<in> fo_images f" "img (JournalFile (of_nat b)) = Some i"
    using single_image [OF _ assms(3), of "JournalFile (of_nat b)" f] h(6,7) by (auto simp: bindings_def)
  obtain k t where k: "pos b \<le> k" "lev \<le> k" "k \<le> length log" "i = log_frames xxh (pos b) (slice (pos b) k log) @ t" "torn_tail xxh t"
    using h(8) [OF i(1)] by (auto simp: tail_img_def)
  obtain items srs mc mr where sn: "content = log_frames xxh 0 items" "cu_records c = of_nat (length items)"
    "list_all (\<lambda>b. length b \<le> MAX_RECORD) items" "list_all2 (\<lambda>b s. mc_decode_snapshot M b = Inr s) items srs"
    "replay M 0 (take (pos a) log) m0 = Inr mc" "restore_all M srs m0 = Inr mr" "ok mr" "sim mc mr"
    using h(4) by (auto simp: snap_ok_def)
  have ab: "a \<le> b" "pos a \<le> pos b" using h(1) set_ok_mono [OF h(1), of a b] by (simp_all add: set_ok_def)
  obtain mall where "replay M 0 log m0 = Inr mall" using assms(2) by (cases "replay M 0 log m0") (simp_all add: log_ok_def)
  then obtain m where m: "replay M 0 (take k log) m0 = Inr m"
    using replay_append_Inr [of M 0 "take k log" "drop k log" m0 mall] by auto
  have "take k log = take (pos a) log @ slice (pos a) k log"
    using slice_append [of 0 "pos a" k log] ab k(1) by (simp add: take_slice)
  then have "replay M (pos a) (slice (pos a) k log) mc = Inr m"
    using m sn(5) ab k(1,3) by (auto simp: replay_append_Inr)
  from replay_sim [OF this _ sn(7,8)] replay_ok [OF sn(5) ok_init] obtain m' where
    m': "replay M (pos a) (slice (pos a) k log) mr = Inr m'" "sim m m'" by blast
  have "ok m'" by (rule replay_ok [OF m'(1) sn(7)])
  have logs: "replay_logs xxh M threads img (map of_nat [a..<Suc b]) (of_nat (pos a), mr) 0 =
    Some (Inr ((of_nat k, m'), length (log_frames xxh (pos b) (slice (pos b) k log))))"
  proof (rule replay_logs_ok [OF assms(2) k(3,1) _ ab(1) _ _ k(5) m'(1)])
    show "pos h \<le> pos (Suc h)" if "a \<le> h" "h < b" for h using that \<open>set_ok log pos c a b\<close> by (simp add: set_ok_def)
    show "img (JournalFile (of_nat h)) = Some (log_frames xxh (pos h) (slice (pos h) (pos (Suc h)) log))" if "a \<le> h" "h < b" for h
      using stable_image [OF h(5) [OF that] assms(3)] .
    show "img (JournalFile (of_nat b)) = Some (log_frames xxh (pos b) (slice (pos b) k log) @ t)" using i(2) k(4) by simp
  qed
  have "journal_read xxh (mc_decode_snapshot M) (visit_snapshot M) threads content False (0, m0) =
    Some (Inr ((of_nat (length items), mr), length content))"
    using journal_read_snapshot [OF sn(4,6,3)] sn(1) by simp
  then have "recover_replay xxh M threads img c m0 = Some (Inr ((of_nat k, m'), length (log_frames xxh (pos b) (slice (pos b) k log))))"
    using stable_image [OF h(2) assms(3)] h(1,3) sn(2) logs by (simp add: recover_replay_def stream_path_def set_ok_def)
  then show thesis using that [OF k(1-3,5) _ _ m \<open>ok m'\<close> m'(2)] i(2) k(4) by simp
qed

text \<open>Changes of the last log: a larger log, a larger durable prefix.\<close>

lemma snap_ok_extend: "snap_ok log k content records \<Longrightarrow> k \<le> length log \<Longrightarrow> snap_ok (log @ ext) k content records"
  by (simp add: snap_ok_def)

lemma supported_last:
  assumes "supported s log lev pos (c, a, b)" "fs_live s (JournalFile (of_nat b)) = Some f"
    "\<And>i. i \<in> fo_images (g f) \<Longrightarrow> tail_img (log @ ext) lev' (pos b) i" "fits (log @ ext) (pos b)"
  shows "supported (update_file s (JournalFile (of_nat b)) g) (log @ ext) lev' pos (c, a, b)"
  using assms(1)
proof (rule supportedE)
  fix content f'
  let ?s = "update_file s (JournalFile (of_nat b)) g"
  assume h: "set_ok log pos c a b" "stable s (SnapshotFile (of_nat a)) content" "cu_bytes c = of_nat (length content)"
    "snap_ok log (pos a) content (cu_records c)"
    "\<And>g. a \<le> g \<Longrightarrow> g < b \<Longrightarrow> stable s (JournalFile (of_nat g)) (log_frames xxh (pos g) (slice (pos g) (pos (Suc g)) log))"
    "fs_live s (JournalFile (of_nat b)) = Some f'" "fs_old s (JournalFile (of_nat b)) = {}" "\<And>i. i \<in> fo_images f' \<Longrightarrow> tail_img log lev (pos b) i"
  have ab: "a \<le> b" "b < 2 ^ 64" "pos b \<le> length log" using h(1) by (simp_all add: set_ok_def)
  have pg: "pos g \<le> length log" if "a \<le> g" "g \<le> b" for g
    using set_ok_mono [OF h(1) that(1) that(2) order_refl] ab(3) by (rule order_trans)
  have pa: "pos a \<le> length log" "\<And>g. a \<le> g \<Longrightarrow> g < b \<Longrightarrow> pos (Suc g) \<le> length log"
    using pg ab(1) by auto
  have other: "stable ?s n x" if "stable s n x" "n \<noteq> JournalFile (of_nat b)" for n x
    using that same_at_single [OF same_at_update [OF that(2)]] by (simp add: stable_def)
  show ?thesis
  proof (rule supportedI [OF _ _ h(3)])
    show "set_ok (log @ ext) pos c a b" using h(1) assms(4) by (auto simp: set_ok_def)
    show "stable ?s (SnapshotFile (of_nat a)) content" using h(2) by (rule other) simp
    show "snap_ok (log @ ext) (pos a) content (cu_records c)" using h(4) pa(1) by (rule snap_ok_extend)
    show "stable ?s (JournalFile (of_nat g)) (log_frames xxh (pos g) (slice (pos g) (pos (Suc g)) (log @ ext)))" if "a \<le> g" "g < b" for g
    proof -
      have "(of_nat g :: u64) \<noteq> of_nat b"
        using that ab(2) unat_of_nat_u64 [of g] unat_of_nat_u64 [of b] by (metis less_trans nat_neq_iff)
      then show ?thesis using other [OF h(5) [OF that]] pa(2) [OF that] by simp
    qed
    show "fs_live ?s (JournalFile (of_nat b)) = Some (g f)" using assms(2) by simp
    show "fs_old ?s (JournalFile (of_nat b)) = {}" using h(7) by simp
  qed (rule assms(3))
qed

lemma tail_img_whole: "kb \<le> length log \<Longrightarrow> lev \<le> length log \<Longrightarrow> tail_img log lev kb (log_frames xxh kb (slice kb (length log) log))"
  unfolding tail_img_def by (intro exI [of _ "length log"] exI [of _ "[]"]) simp

lemma supported_sync:
  assumes "supported s log lev pos (c, a, b)" "fs_live s (JournalFile (of_nat b)) = Some f"
    "fo_content f = log_frames xxh (pos b) (slice (pos b) (length log) log)" "lev' \<le> length log"
  shows "supported (fs_step s (SyncFile (JournalFile (of_nat b)))) log lev' pos (c, a, b)"
  using supported_last [OF assms(1,2), of "\<lambda>f. synced (fo_content f)" "[]" lev'] tail_img_whole [OF _ assms(4), of "pos b"] assms(1,3)
  by (auto simp: supported_def set_ok_def)

text \<open>Publication of a supported recovery set.\<close>

definition publish_ops :: "byte list \<Rightarrow> fs_op list" where
  "publish_ops F = [Create CurrentTmp, WriteAt CurrentTmp 0 F, SyncFile CurrentTmp, Rename CurrentTmp CurrentFile, SyncDir]"

lemma tmp_written:
  "fs_live (fs_step (fs_step (fs_step s (Create n)) (WriteAt n 0 F)) (SyncFile n)) n = Some (synced F)"
  by (auto simp: fo_write_def fo_set_len_def write_at_def Let_def)

lemma write_sync_live: "fs_live (exec (write_sync n F) s) n = Some (synced F)"
  using tmp_written by (simp add: write_sync_def)

lemma files_names [simp]: "CurrentFile \<notin> files a b" "CurrentTmp \<notin> files a b" "JournalTmp \<notin> files a b" "SnapshotTmp \<notin> files a b"
  by (auto simp: files_def)

lemma good_insert: "good s log lev pos K \<Longrightarrow> supported s log lev pos k \<Longrightarrow> good s log lev pos (insert k K)"
  by (auto simp: good_def covers_def)

lemma publish_safe:
  assumes "good s log lev pos K" "supported s log lev pos (c, a, b)"
  shows "safe (\<lambda>s. good s log lev pos (insert (c, a, b) K)) (publish_ops (current_file xxh c)) s"
    and "good (exec (publish_ops (current_file xxh c)) s) log lev pos {(c, a, b)}"
    and "stable (exec (publish_ops (current_file xxh c)) s) CurrentFile (current_file xxh c)"
    and "n \<noteq> CurrentTmp \<Longrightarrow> n \<noteq> CurrentFile \<Longrightarrow> same_at s (exec (publish_ops (current_file xxh c)) s) n"
proof -
  let ?K = "insert (c, a, b) K" and ?F = "current_file xxh c"
  define s1 where "s1 = fs_step s (Create CurrentTmp)"
  define s2 where "s2 = fs_step s1 (WriteAt CurrentTmp 0 ?F)"
  define s3 where "s3 = fs_step s2 (SyncFile CurrentTmp)"
  define s4 where "s4 = fs_step s3 (Rename CurrentTmp CurrentFile)"
  define s5 where "s5 = fs_step s4 SyncDir"
  note defs = s1_def s2_def s3_def
  have g0: "good s log lev pos ?K" by (rule good_insert [OF assms])
  have g1: "good s1 log lev pos ?K" unfolding s1_def by (rule good_step [OF g0]) auto
  have g2: "good s2 log lev pos ?K" unfolding s2_def by (rule good_step [OF g1]) auto
  have g3: "good s3 log lev pos ?K" unfolding s3_def by (rule good_step [OF g2]) auto
  have tmp: "fs_live s3 CurrentTmp = Some (synced ?F)" unfolding defs by (rule tmp_written)
  have same: "same_at s3 s4 n" if "n \<notin> {CurrentTmp, CurrentFile}" for n
    using that unfolding s4_def by (intro same_at_step) simp
  have b4: "bindings s4 CurrentFile = insert (Some (synced ?F)) (bindings s3 CurrentFile)"
    using tmp by (auto simp: s4_def bindings_def)
  have sup4: "supported s4 log lev pos k" if "k \<in> ?K" for k
  proof (cases k)
    case (fields c' a' b')
    have "same_at s3 s4 n" if "n \<in> files a' b'" for n using that by (intro same) auto
    then show ?thesis using supported_same good_supported [OF g3 that] fields by blast
  qed
  have g4: "good s4 log lev pos ?K" using g3 sup4 b4 by (auto simp: good_def covers_def)
  have b5: "bindings s5 CurrentFile = {Some (synced ?F)}" using tmp by (simp add: s5_def s4_def bindings_def)
  have g5: "good s5 log lev pos ?K" unfolding s5_def by (rule good_step [OF g4]) simp_all
  have ex: "exec (publish_ops ?F) s = s5" by (simp add: publish_ops_def defs s4_def s5_def)
  show "safe (\<lambda>s. good s log lev pos ?K) (publish_ops ?F) s"
    using g0 g1 g2 g3 g4 g5 unfolding publish_ops_def defs s4_def s5_def by simp
  show "good (exec (publish_ops ?F) s) log lev pos {(c, a, b)}" unfolding ex using g5 b5 by (auto simp: good_def covers_def)
  show "stable (exec (publish_ops ?F) s) CurrentFile ?F" unfolding ex stable_def by (rule b5)
  show "same_at s (exec (publish_ops ?F) s) n" if "n \<noteq> CurrentTmp" "n \<noteq> CurrentFile"
    using exec_frame [of n "publish_ops ?F" s] that by (simp add: same_at_def publish_ops_def)
qed

lemma publish_sync_ops: "current_valid c \<Longrightarrow> publish_sync xxh c = Inr (publish_ops (current_file xxh c))"
  by (simp add: publish_sync_def current_encode_file write_sync_def publish_ops_def)

lemma publish_ok: "current_valid c \<Longrightarrow> publish xxh c = (publish_ops (current_file xxh c), Inr ())"
  by (simp add: publish_def current_encode_file publish_ops_def)

text \<open>
  The files of a stream that is in use: \<open>CURRENT\<close> names one supported recovery set and the last log holds all
  records.
\<close>

definition run_fs :: "fs \<Rightarrow> byte list list \<Rightarrow> nat \<Rightarrow> (nat \<Rightarrow> nat) \<Rightarrow> current \<Rightarrow> nat \<Rightarrow> nat \<Rightarrow> bool" where
  "run_fs s log lev pos c a b \<longleftrightarrow> good s log lev pos {(c, a, b)} \<and> stable s CurrentFile (current_file xxh c) \<and>
     (\<exists>f. fs_live s (JournalFile (of_nat b)) = Some f \<and> fo_content f = log_frames xxh (pos b) (slice (pos b) (length log) log))"

definition some_good :: "byte list list \<Rightarrow> nat \<Rightarrow> (nat \<Rightarrow> nat) \<Rightarrow> fs \<Rightarrow> bool" where
  "some_good log lev pos s \<longleftrightarrow> (\<exists>K. good s log lev pos K)"

lemma some_goodI: "good s log lev pos K \<Longrightarrow> some_good log lev pos s"
  by (auto simp: some_good_def)

definition cleared :: "current \<Rightarrow> current" where
  "cleared c = c\<lparr>cu_garbage := [], cu_pending := 0\<rparr>"

lemma current_valid_cleared: "current_valid c \<Longrightarrow> current_valid (cleared c)"
  by (simp add: current_valid_def cleared_def)

lemma supported_current:
  assumes "supported s log lev pos (c, a, b)" "set_ok log pos c' a b" "cu_bytes c' = cu_bytes c" "cu_records c' = cu_records c"
  shows "supported s log lev pos (c', a, b)"
  using assms unfolding supported_def prod.case by simp

lemma set_ok_cleared: "set_ok log pos c a b \<Longrightarrow> set_ok log pos (cleared c) a b"
  using current_valid_cleared [of c] by (simp add: set_ok_def cleared_def)

lemma supported_set_ok: "supported s log lev pos (c, a, b) \<Longrightarrow> set_ok log pos c a b"
  by (simp add: supported_def)

lemma supported_cleared: "supported s log lev pos (c, a, b) \<Longrightarrow> supported s log lev pos (cleared c, a, b)"
  using supported_current set_ok_cleared [OF supported_set_ok] by (simp add: cleared_def)

lemma garbage_not_files:
  assumes "set_ok log pos c a b" "(sn, g) \<in> set (cu_garbage c)"
  shows "stream_path sn g \<notin> files a b" "stream_path sn g \<noteq> CurrentFile"
proof -
  have "\<not> (sn \<and> g = of_nat a)" "\<not> (\<not> sn \<and> g \<in> set (map of_nat [a..<Suc b]))"
    using assms unfolding set_ok_def current_valid_def list_ex_iff by fastforce+
  then show "stream_path sn g \<notin> files a b" "stream_path sn g \<noteq> CurrentFile"
    by (auto simp: stream_path_def files_def atLeastLessThanSuc_atLeastAtMost)
qed

lemma last_logs: "set_ok log pos c a b \<Longrightarrow> last (cu_logs c) = of_nat b"
  by (simp add: set_ok_def)

lemma of_nat_u64_inject: "a < 2 ^ 64 \<Longrightarrow> b < 2 ^ 64 \<Longrightarrow> (of_nat a :: u64) = of_nat b \<longleftrightarrow> a = b"
  using unat_of_nat_u64 by metis

lemma fo_set_len_prefix:
  "fo_content f = w @ t \<Longrightarrow> fo_set_len (length w) f = \<lparr>fo_content = w, fo_images = insert w (fo_images f)\<rparr>"
  by (simp add: fo_set_len_def Let_def)

lemma truncate_safe:
  assumes "good s log lev pos {(c, a, b)}" "stable s CurrentFile F" "fs_live s (JournalFile (of_nat b)) = Some f"
    "fo_content f = log_frames xxh (pos b) (slice (pos b) (length log) log) @ t"
  defines "n \<equiv> JournalFile (of_nat b)" and "off \<equiv> length (log_frames xxh (pos b) (slice (pos b) (length log) log))"
  defines "ops \<equiv> [SetLen n off, SyncFile n]"
  shows "safe (some_good log lev pos) ops s" "good (exec ops s) log lev pos {(c, a, b)}" "stable (exec ops s) CurrentFile F"
    "\<exists>f'. fs_live (exec ops s) n = Some f' \<and> fo_content f' = log_frames xxh (pos b) (slice (pos b) (length log) log)"
proof -
  let ?w = "log_frames xxh (pos b) (slice (pos b) (length log) log)"
  define s1 where "s1 = fs_step s (SetLen n off)"
  define s2 where "s2 = fs_step s1 (SyncFile n)"
  have sup: "supported s log lev pos (c, a, b)" and lev: "lev \<le> length log" and lok: "log_ok log" and cov: "covers s log {(c, a, b)}"
    using assms(1) by (auto simp: good_def)
  have pb: "pos b \<le> length log" by (rule set_okD(9) [OF supported_set_ok [OF sup]])
  have f1: "fo_set_len off f = \<lparr>fo_content = ?w, fo_images = insert ?w (fo_images f)\<rparr>"
    by (rule fo_set_len_prefix [OF assms(4), folded off_def])
  have "tail_img log lev (pos b) i" if "i \<in> fo_images f" for i
    by (rule supported_images [OF sup assms(3) that])
  then have "tail_img (log @ []) lev (pos b) i" if "i \<in> fo_images (fo_set_len off f)" for i
    using that tail_img_whole [OF pb lev] unfolding f1 by auto
  from supported_last [OF sup assms(3) this] set_okD(10) [OF supported_set_ok [OF sup]] have sup1: "supported s1 log lev pos (c, a, b)"
    by (simp add: s1_def n_def)
  have l1: "fs_live s1 n = Some (fo_set_len off f)" using assms(3) by (simp add: s1_def n_def)
  have sup2: "supported s2 log lev pos (c, a, b)"
    unfolding s2_def n_def by (rule supported_sync [OF sup1 l1 [unfolded n_def] _ lev]) (simp add: f1)
  have same: "same_at s s1 CurrentFile" "same_at s1 s2 CurrentFile"
    unfolding s1_def s2_def by (rule same_at_step, simp add: n_def)+
  have g1: "good s1 log lev pos {(c, a, b)}" using sup1 lev lok covers_same [OF cov same(1)] by (simp add: good_def)
  have g2: "good s2 log lev pos {(c, a, b)}"
    using sup2 lev lok covers_same [OF covers_same [OF cov same(1)] same(2)] by (simp add: good_def)
  have ex: "exec ops s = s2" by (simp add: ops_def s1_def s2_def)
  show "safe (some_good log lev pos) ops s"
    using some_goodI [OF assms(1)] some_goodI [OF g1] some_goodI [OF g2] by (simp add: ops_def s1_def s2_def)
  show "good (exec ops s) log lev pos {(c, a, b)}" unfolding ex by (rule g2)
  show "stable (exec ops s) CurrentFile F" unfolding ex by (rule stable_same [OF stable_same [OF assms(2) same(1)] same(2)])
  show "\<exists>f'. fs_live (exec ops s) n = Some f' \<and> fo_content f' = ?w" unfolding ex s2_def using l1 f1 by simp
qed

lemma run_fs_step:
  assumes "run_fs s log lev pos c a b" "CurrentFile \<notin> op_names op" "files a b \<inter> op_names op = {}"
  shows "run_fs (fs_step s op) log lev pos c a b"
proof -
  have "a \<le> b" using assms(1) set_okD(3) supported_set_ok unfolding run_fs_def good_def by blast
  then have "JournalFile (of_nat b) \<in> files a b" by (auto simp: files_def)
  then have n: "JournalFile (of_nat b) \<notin> op_names op" using assms(3) by blast
  have "good (fs_step s op) log lev pos {(c, a, b)}"
    using assms by (intro good_step) (auto simp: run_fs_def)
  moreover have "stable (fs_step s op) CurrentFile (current_file xxh c)"
    using assms(1,2) stable_same [OF _ same_at_step] by (simp add: run_fs_def)
  ultimately show ?thesis using assms(1) fs_step_frame(1) [OF n, of s] by (simp add: run_fs_def)
qed

lemma run_fs_good: "run_fs s log lev pos c a b \<Longrightarrow> some_good log lev pos s"
  by (auto simp: run_fs_def some_good_def)

lemma run_fs_publish:
  assumes "run_fs s log lev pos c a b" "supported s log lev pos (c', a', b)"
  shows "safe (some_good log lev pos) (publish_ops (current_file xxh c')) s"
    and "run_fs (exec (publish_ops (current_file xxh c')) s) log lev pos c' a' b"
proof -
  have g: "good s log lev pos {(c, a, b)}" using assms(1) by (simp add: run_fs_def)
  note p = publish_safe [OF g assms(2)]
  show "safe (some_good log lev pos) (publish_ops (current_file xxh c')) s" using p(1) some_goodI by (rule safe_mono)
  have "fs_live (exec (publish_ops (current_file xxh c')) s) (JournalFile (of_nat b)) = fs_live s (JournalFile (of_nat b))"
    using p(4) [of "JournalFile (of_nat b)"] by (simp add: same_at_def)
  then show "run_fs (exec (publish_ops (current_file xxh c')) s) log lev pos c' a' b"
    using p(2,3) assms(1) by (simp add: run_fs_def)
qed

lemma cleanup_safe:
  assumes "good s log lev pos {(c, a, b)}" "stable s CurrentFile (current_file xxh c)" "fs_live s (JournalFile (of_nat b)) = Some f"
    "fo_content f = log_frames xxh (pos b) (slice (pos b) (length log) log) @ t"
  obtains ops where "recover_cleanup xxh (live_image s) c (length (log_frames xxh (pos b) (slice (pos b) (length log) log))) = (ops, Inr (cleared c))"
    "safe (some_good log lev pos) ops s" "run_fs (exec ops s) log lev pos (cleared c) a b"
proof -
  let ?w = "log_frames xxh (pos b) (slice (pos b) (length log) log)" and ?n = "JournalFile (of_nat b)"
  let ?trunc = "if length (?w @ t) \<noteq> length ?w then [SetLen ?n (length ?w), SyncFile ?n] else []"
  let ?rm = "map (\<lambda>(sn, g). Remove (stream_path sn g)) (cu_garbage c) @
    (if cu_pending c \<noteq> 0 then [Remove (stream_path True (cu_pending c))] else []) @ map Remove [CurrentTmp, JournalTmp, SnapshotTmp]"
  let ?pub = "publish_ops (current_file xxh (cleared c))"
  define s1 where "s1 = exec ?trunc s"
  define s2 where "s2 = exec (?rm @ [SyncDir]) s1"
  have sup: "supported s log lev pos (c, a, b)" using assms(1) by (simp add: good_def)
  note set = supported_set_ok [OF sup]
  have r1: "run_fs s1 log lev pos c a b" and safe1: "safe (some_good log lev pos) ?trunc s"
    using truncate_safe [OF assms] assms some_goodI [OF assms(1)] by (auto simp: run_fs_def s1_def)
  have names: "CurrentFile \<notin> op_names op \<and> files a b \<inter> op_names op = {}" if "op \<in> set (?rm @ [SyncDir])" for op
  proof -
    have "stream_path True (cu_pending c) \<notin> files a b" if "cu_pending c \<noteq> 0"
    proof -
      have "cu_pending c = of_nat b" using set_okD(1) [OF set] last_logs [OF set] that by (simp add: current_valid_def)
      then show ?thesis using set_okD(7) [OF set that] set_okD(3,4) [OF set] of_nat_u64_inject [of a b]
        by (auto simp: stream_path_def files_def)
    qed
    then show ?thesis using that garbage_not_files [OF set] by (auto simp: stream_path_def split: if_splits)
  qed
  have safe_r: "safe (\<lambda>s. run_fs s log lev pos c a b) (?rm @ [SyncDir]) s1"
    using run_fs_step names r1 by (intro safe_invariant) blast+
  have safe2: "safe (some_good log lev pos) (?rm @ [SyncDir]) s1" using safe_r run_fs_good by (rule safe_mono)
  have r2: "run_fs s2 log lev pos c a b" unfolding s2_def by (rule safe_end [OF safe_r])
  have sup2: "supported s2 log lev pos (cleared c, a, b)" using r2 supported_cleared by (simp add: run_fs_def good_def)
  note pub = run_fs_publish [OF r2 sup2]
  have cl: "recover_cleanup xxh (live_image s) c (length ?w) = (?trunc @ ?rm @ [SyncDir] @ ?pub, Inr (cleared c))"
    using assms(3,4) last_logs [OF set] publish_sync_ops [OF current_valid_cleared [OF set_okD(1) [OF set]]]
    unfolding recover_cleanup_def Let_def by (simp add: stream_path_def live_image_def cleared_def)
  have "safe (some_good log lev pos) (?trunc @ (?rm @ [SyncDir]) @ ?pub) s"
    using safe1 safe2 pub(1) unfolding safe_append s1_def [symmetric] s2_def [symmetric] by blast
  moreover have "run_fs (exec (?trunc @ (?rm @ [SyncDir]) @ ?pub) s) log lev pos (cleared c) a b"
    using pub(2) unfolding exec_simps(3) s1_def s2_def by simp
  ultimately show thesis using that [OF cl] by simp
qed

text \<open>Recovery from an image, with the state of the files at every point of it.\<close>

definition recovered :: "nat \<Rightarrow> fs \<Rightarrow> byte list list \<Rightarrow> nat \<Rightarrow> nat \<Rightarrow> bool" where
  "recovered threads s log lev k \<longleftrightarrow>
     (\<exists>ops d m mk pos a b. journal_recover xxh M threads s m0 = Some (ops, Inr (d, m)) \<and> dk_lsn d = of_nat k \<and>
        replay M 0 (take k log) m0 = Inr mk \<and> ok m \<and> sim mk m \<and> safe (some_good (take k log) lev pos) ops s \<and>
        run_fs (exec ops s) (take k log) lev pos (dk_current d) a b \<and> cu_garbage (dk_current d) = [] \<and> cu_pending (dk_current d) = 0 \<and>
        dk_offset d = of_nat (length (log_frames xxh (pos b) (slice (pos b) k log))))"

lemma recover_assemble:
  assumes "recover_open xxh s = (ops0, Inr c)" "safe (some_good (take k log) lev pos) ops0 s" "s1 = exec ops0 s"
    "good s1 (take k log) lev pos {(c, a, b)}" "stable s1 CurrentFile (current_file xxh c)" "fs_live s1 (JournalFile (of_nat b)) = Some f"
    "fo_content f = log_frames xxh (pos b) (slice (pos b) k log) @ t" "k \<le> length log"
    "recover_replay xxh M threads (live_image s1) c m0 = Some (Inr ((of_nat k, m), length (log_frames xxh (pos b) (slice (pos b) k log))))"
    "replay M 0 (take k log) m0 = Inr mk" "ok m" "sim mk m"
  shows "recovered threads s log lev k"
proof -
  have w: "slice (pos b) (length (take k log)) (take k log) = slice (pos b) k log" using assms(8) by (simp add: slice_take)
  obtain ops where ops: "recover_cleanup xxh (live_image s1) c (length (log_frames xxh (pos b) (slice (pos b) k log))) = (ops, Inr (cleared c))"
    "safe (some_good (take k log) lev pos) ops s1" "run_fs (exec ops s1) (take k log) lev pos (cleared c) a b"
    using cleanup_safe [OF assms(4-6), unfolded w, OF assms(7)] by blast
  have "journal_recover xxh M threads s m0 = Some (ops0 @ ops,
      Inr (\<lparr>dk_current = cleared c, dk_offset = of_nat (length (log_frames xxh (pos b) (slice (pos b) k log))), dk_lsn = of_nat k\<rparr>, m))"
    using assms(1,9) ops(1) by (simp add: journal_recover_def Let_def assms(3) [symmetric])
  moreover have "safe (some_good (take k log) lev pos) (ops0 @ ops) s" using assms(2,3) ops(2) by (simp add: safe_append)
  moreover have "run_fs (exec (ops0 @ ops) s) (take k log) lev pos (cleared c) a b" using ops(3) assms(3) by simp
  ultimately show ?thesis unfolding recovered_def
    using assms(10-12) by (intro exI conjI) (assumption | simp add: cleared_def)+
qed

lemma log_ok_take: "log_ok log \<Longrightarrow> log_ok (take k log)"
proof -
  assume l: "log_ok log"
  then obtain m where "replay M 0 log m0 = Inr m" by (cases "replay M 0 log m0") (simp_all add: log_ok_def)
  then obtain m' where "replay M 0 (take k log) m0 = Inr m'" using replay_append_Inr [of M 0 "take k log" "drop k log" m0 m] by auto
  then show ?thesis using l by (auto simp: log_ok_def list_all_iff dest: in_set_takeD)
qed

lemma supported_image:
  assumes "supported s log lev pos (c, a, b)" "crash_image s img" "pos b \<le> k" "lev \<le> k" "k \<le> length log"
    "img (JournalFile (of_nat b)) = Some (log_frames xxh (pos b) (slice (pos b) k log) @ t)" "torn_tail xxh t"
  shows "supported (fs_of_image img) (take k log) lev pos (c, a, b)"
  using assms(1)
proof (rule supportedE)
  fix content f
  assume h: "set_ok log pos c a b" "stable s (SnapshotFile (of_nat a)) content" "cu_bytes c = of_nat (length content)"
    "snap_ok log (pos a) content (cu_records c)"
    "\<And>g. a \<le> g \<Longrightarrow> g < b \<Longrightarrow> stable s (JournalFile (of_nat g)) (log_frames xxh (pos g) (slice (pos g) (pos (Suc g)) log))"
  have st: "stable (fs_of_image img) n x" if "stable s n x" for n x
    using bindings_of_image [of img n x] stable_image [OF that assms(2)] by (simp add: stable_def)
  have pk: "pos g \<le> k" if "a \<le> g" "g \<le> b" for g
    using set_ok_mono [OF h(1) that order_refl] assms(3) by (rule order_trans)
  have ab: "a \<le> b" by (rule set_okD(3) [OF h(1)])
  show ?thesis
  proof (rule supportedI [OF _ st [OF h(2)] h(3)])
    show "set_ok (take k log) pos c a b" using set_okD [OF h(1)] assms(3,5) fits_take [of log "pos b" k] unfolding set_ok_def by (intro conjI) simp_all
    show "snap_ok (take k log) (pos a) content (cu_records c)" using h(4) pk [OF order_refl ab] by (simp add: snap_ok_def min_def)
    show "stable (fs_of_image img) (JournalFile (of_nat g)) (log_frames xxh (pos g) (slice (pos g) (pos (Suc g)) (take k log)))"
      if "a \<le> g" "g < b" for g
      using st [OF h(5) [OF that]] pk [of "Suc g"] that by (simp add: slice_take)
    show "fs_live (fs_of_image img) (JournalFile (of_nat b)) = Some (synced (log_frames xxh (pos b) (slice (pos b) k log) @ t))"
      "fs_old (fs_of_image img) (JournalFile (of_nat b)) = {}"
      using assms(6) by (simp_all add: fs_of_image_def)
    show "tail_img (take k log) lev (pos b) i" if "i \<in> fo_images (synced (log_frames xxh (pos b) (slice (pos b) k log) @ t))" for i
      unfolding tail_img_def using that assms(3-5,7) by (intro exI [of _ k] exI [of _ t]) (simp add: slice_take)
  qed
qed

lemma recover_existing:
  assumes "good s log lev pos K" "(c, a, b) \<in> K" "crash_image s img" "img CurrentFile = Some (current_file xxh c)"
  shows "\<exists>k. lev \<le> k \<and> k \<le> length log \<and> recovered threads (fs_of_image img) log lev k"
proof -
  let ?s = "fs_of_image img"
  have sup: "supported s log lev pos (c, a, b)" by (rule good_supported [OF assms(1,2)])
  have lok: "log_ok log" using assms(1) by (simp add: good_def)
  obtain k t m m' where k: "pos b \<le> k" "lev \<le> k" "k \<le> length log" "torn_tail xxh t"
    "img (JournalFile (of_nat b)) = Some (log_frames xxh (pos b) (slice (pos b) k log) @ t)"
    "recover_replay xxh M threads img c m0 = Some (Inr ((of_nat k, m'), length (log_frames xxh (pos b) (slice (pos b) k log))))"
    "replay M 0 (take k log) m0 = Inr m" "ok m'" "sim m m'"
    by (rule recover_replay_ok [OF sup lok assms(3)])
  have v: "current_valid c" by (rule set_okD(1) [OF supported_set_ok [OF sup]])
  have st: "stable ?s CurrentFile (current_file xxh c)" using bindings_of_image [of img CurrentFile] assms(4) by (simp add: stable_def)
  have g: "good ?s (take k log) lev pos {(c, a, b)}"
    using supported_image [OF sup assms(3) k(1-3,5,4)] log_ok_take [OF lok] k(2,3) st by (simp add: good_def covers_def stable_def)
  have "recover_open xxh ?s = ([], Inr c)"
    using read_current_file [where img = img, OF v assms(4)] current_decode_file [OF v, of xxh] by (simp add: recover_open_def)
  moreover have "safe (some_good (take k log) lev pos) [] ?s" using some_goodI [OF g] by simp
  moreover have "fs_live ?s (JournalFile (of_nat b)) = Some (synced (log_frames xxh (pos b) (slice (pos b) k log) @ t))"
    using k(5) by (simp add: fs_of_image_def)
  ultimately have "recovered threads ?s log lev k"
    using recover_assemble [OF _ _ _ g st, where f = "synced (log_frames xxh (pos b) (slice (pos b) k log) @ t)"] k by simp
  then show ?thesis using k(2,3) by blast
qed

lemma initial_supported:
  assumes "stable s (SnapshotFile 1) []" "fs_live s (JournalFile 1) = Some (synced [])" "fs_old s (JournalFile 1) = {}"
  shows "supported s [] 0 (\<lambda>_. 0) (initial_current, 1, 1)"
proof (rule supportedI [where content = "[]" and f = "synced []"])
  show "set_ok [] (\<lambda>_. 0) initial_current 1 1"
    using fits_empty [of "[]"] by (simp add: set_ok_def current_valid_def initial_current_def MAX_GENERATIONS_def)
  have "snap_ok [] 0 [] 0"
    unfolding snap_ok_def
    by (intro exI [of _ "[]"] exI [of _ m0]) (simp add: ok_init sim_refl)
  then show "snap_ok [] 0 [] (cu_records initial_current)" by (simp add: initial_current_def)
  show "tail_img [] 0 0 i" if "i \<in> fo_images (synced [])" for i
    using that unfolding tail_img_def by (intro exI [of _ 0] exI [of _ "[]"]) (simp add: slice_def)
qed (use assms in \<open>simp_all add: initial_current_def\<close>)

lemma recover_fresh:
  assumes "img CurrentFile = None"
  shows "recovered threads (fs_of_image img) [] 0 0"
proof -
  let ?s = "fs_of_image img" and ?pos = "\<lambda>_. 0 :: nat" and ?F = "current_file xxh initial_current"
  let ?mk = "write_sync (SnapshotFile 1) [] @ write_sync (JournalFile 1) [] @ [SyncDir]"
  define s1 where "s1 = exec ?mk ?s"
  define s2 where "s2 = exec (publish_ops ?F) s1"
  have lok: "log_ok []" by (simp add: log_ok_def)
  have g0: "good ?s [] 0 ?pos {}" using assms by (simp add: good_def covers_def lok bindings_def fs_of_image_def)
  have sf: "safe (\<lambda>s. good s [] 0 ?pos {}) ?mk ?s"
    using g0 by (intro safe_invariant) (auto simp: write_sync_def intro!: good_step)
  have safe1: "safe (some_good [] 0 ?pos) ?mk ?s" using sf some_goodI by (rule safe_mono)
  have g1: "good s1 [] 0 ?pos {}" unfolding s1_def by (rule safe_end [OF sf])
  have "fs_live (exec (write_sync (JournalFile 1) []) s) (SnapshotFile 1) = fs_live s (SnapshotFile 1)" for s
    using exec_frame [of "SnapshotFile 1" "write_sync (JournalFile 1) []" s] by (simp add: write_sync_def)
  then have "fs_live s1 (SnapshotFile 1) = Some (synced [])" "fs_live s1 (JournalFile 1) = Some (synced [])" "fs_old s1 = (\<lambda>_. {})"
    by (simp_all add: s1_def write_sync_live)
  then have sup1: "supported s1 [] 0 ?pos (initial_current, 1, 1)"
    by (intro initial_supported) (simp_all add: stable_def bindings_def)
  note pub = publish_safe [OF g1 sup1]
  have pub1: "safe (some_good [] 0 ?pos) (publish_ops ?F) s1" using pub(1) some_goodI by (rule safe_mono)
  have sup2: "supported s2 [] 0 ?pos (initial_current, 1, 1)" using pub(2) by (simp add: s2_def good_def)
  have v: "current_valid initial_current" using set_okD(1) [OF supported_set_ok [OF sup1]] .
  have "crash_image s2 (live_image s2)"
    unfolding s2_def s1_def by (intro live_is_crash_image wf_fs_exec wf_fs_of_image)
  from recover_replay_ok [OF sup2 lok this] obtain k t m m' where
    kt: "k \<le> length ([] :: byte list list)" "torn_tail xxh t"
    "live_image s2 (JournalFile (of_nat 1)) = Some (log_frames xxh 0 (slice 0 k []) @ t)"
    "recover_replay xxh M threads (live_image s2) initial_current m0 = Some (Inr ((of_nat k, m'), length (log_frames xxh 0 (slice 0 k []))))"
    "replay M 0 (take k []) m0 = Inr m" "ok m'" "sim m m'" by metis
  then have t: "live_image s2 (JournalFile 1) = Some t"
    "recover_replay xxh M threads (live_image s2) initial_current m0 = Some (Inr ((0, m'), 0))"
    "replay M 0 [] m0 = Inr m" "ok m'" "sim m m'" by (simp_all add: slice_def)
  obtain f where f: "fs_live s2 (JournalFile 1) = Some f" "fo_content f = t" using t(1) by (auto simp: live_image_def)
  have "recover_open xxh ?s = (?mk @ publish_ops ?F, Inr initial_current)"
    using assms publish_sync_ops [OF v] by (simp add: recover_open_def read_current_def stream_path_def)
  moreover have "safe (some_good (take 0 []) 0 ?pos) (?mk @ publish_ops ?F) ?s"
    unfolding safe_append [of _ ?mk] take_Nil s1_def [symmetric] using safe1 pub1 by (rule conjI)
  moreover have "s2 = exec (?mk @ publish_ops ?F) ?s" by (simp only: s2_def s1_def exec_simps)
  moreover have "good s2 (take 0 []) 0 ?pos {(initial_current, 1, 1)}" using pub(2) by (simp add: s2_def)
  moreover have "stable s2 CurrentFile ?F" using pub(3) by (simp add: s2_def)
  ultimately show ?thesis
    by (rule recover_assemble [where f = f and t = t]) (use f t in \<open>simp_all add: slice_def\<close>)
qed

lemma recover_ok:
  assumes "good s log lev pos K" "crash_image s img"
  shows "\<exists>k. lev \<le> k \<and> k \<le> length log \<and> recovered threads (fs_of_image img) log lev k"
proof (cases "img CurrentFile")
  case None
  then have "None \<in> bindings s CurrentFile" using assms(2) unfolding crash_image_def by (metis option.distinct(1))
  then have "log = []" using assms(1) unfolding good_def covers_def by auto
  moreover from this have "lev = 0" using assms(1) by (simp add: good_def)
  ultimately show ?thesis using recover_fresh [of img, OF None] by auto
next
  case (Some x)
  then obtain f where f: "Some f \<in> bindings s CurrentFile" "x \<in> fo_images f"
    using assms(2) unfolding crash_image_def by (metis option.distinct(1) option.inject)
  then obtain c a b where "(c, a, b) \<in> K" "f = synced (current_file xxh c)"
    using assms(1) unfolding good_def covers_def by auto
  then show ?thesis using recover_existing [OF assms(1) _ assms(2)] f(2) Some by auto
qed

end

end
