(* ===== verification/Journal_Safety.thy ===== *)
theory Journal_Safety
  imports Journal_Crash
begin

text \<open>
  The invariant of the writer of a journal stream: what holds of the files, of the write, the sync and the snapshot in
  flight and of the operations the loop awaits, in every state that the runs of a stream (\<open>stream_run\<close>) can reach.
\<close>

subsection \<open>Cutting a write\<close>

lemma take_log_frames:
  assumes "list_all (\<lambda>b. length b \<le> MAX_RECORD) bs"
  shows "\<exists>k t. k \<le> length bs \<and> take j (log_frames xxh x bs) = log_frames xxh x (take k bs) @ t \<and> torn_tail xxh t"
  using assms
proof (induction bs arbitrary: j x)
  case Nil
  then show ?case by (intro exI [of _ 0] exI [of _ "[]"]) simp
next
  case (Cons b bs)
  let ?f = "frame_bytes xxh (of_nat (Suc x), b)"
  show ?case
  proof (cases "j < length ?f")
    case True
    then have "torn_tail xxh (take j ?f)"
      using Cons.prems unfolding torn_tail_def by (intro exI [of _ "(of_nat (Suc x), b)"] exI [of _ j]) simp
    then show ?thesis using True by (intro exI [of _ 0] exI [of _ "take j ?f"]) (simp add: log_frames_Cons)
  next
    case False
    from Cons.IH [of "j - length ?f" "Suc x"] Cons.prems obtain k t where
      "k \<le> length bs" "take (j - length ?f) (log_frames xxh (Suc x) bs) = log_frames xxh (Suc x) (take k bs) @ t" "torn_tail xxh t" by auto
    then show ?thesis using False by (intro exI [of _ "Suc k"] exI [of _ t]) (simp add: log_frames_Cons)
  qed
qed

lemma safe_conj: "safe (\<lambda>s. P s \<and> Q s) ops s \<longleftrightarrow> safe P ops s \<and> safe Q ops s"
  by (induction ops arbitrary: s) auto

lemma safe_frame: "n \<notin> ops_names ops \<Longrightarrow> safe (\<lambda>x. fs_live x n = fs_live s n) ops s"
proof -
  have "n \<notin> ops_names ops \<Longrightarrow> fs_live s' n = fs_live s n \<Longrightarrow> safe (\<lambda>x. fs_live x n = fs_live s n) ops s'" for s'
    by (induction ops arbitrary: s') (simp_all add: fs_step_frame(1))
  then show "n \<notin> ops_names ops \<Longrightarrow> safe (\<lambda>x. fs_live x n = fs_live s n) ops s" by simp
qed

subsection \<open>Snapshots\<close>

abbreviation frames_of :: "(byte list \<Rightarrow> u64) \<Rightarrow> (u64 \<times> byte list) list \<Rightarrow> byte list" where
  "frames_of xxh rs \<equiv> concat (map (frame_bytes xxh) rs)"

lemma count_frames_of:
  "list_all (\<lambda>r. length (snd r) \<le> MAX_RECORD) rs \<Longrightarrow> count_frames (frames_of xxh rs) = Some (length rs)"
proof (induction rs)
  case Nil
  then show ?case by (simp add: count_frames.simps)
next
  case (Cons r rs)
  obtain lsn body where r: "r = (lsn, body)" by (cases r)
  let ?B = "frame_bytes xxh (lsn, body) @ frames_of xxh rs"
  have len: "length body \<le> MAX_RECORD" using Cons.prems r by simp
  have "take 4 (drop 8 ?B) = u32_le (of_nat (length body))"
    by (simp add: frame_bytes_def frame_head_def JOURNAL_MAGIC_def as_bytes_def)
  then have n: "unat (u32_of_le (take 4 (drop 8 ?B))) = length body" using MAX_RECORD_less [OF len] by simp
  have "drop (32 + length body) ?B = frames_of xxh rs" by simp
  moreover have "\<not> length ?B < 12" by simp
  moreover from this have "?B \<noteq> []" by (metis list.size(3) zero_less_numeral)
  ultimately have "count_frames ?B = map_option Suc (count_frames (frames_of xxh rs))"
    unfolding count_frames.simps [of ?B] n JOURNAL_HEADER_def by (simp only: if_False)
  then show ?case using Cons r by simp
qed

lemma snapshot_encode_chunks:
  assumes "snapshot_encode xxh items (of_nat k) (frames_of xxh rb) = (chunks, None)" "list_all (\<lambda>r. length (snd r) \<le> MAX_RECORD) rb"
  obtains bs rss where "items = map Inr bs" "list_all (\<lambda>b. length b \<le> MAX_RECORD) bs" "chunks = map (frames_of xxh) rss"
    "concat rss = rb @ number k bs" "list_all (list_all (\<lambda>r. length (snd r) \<le> MAX_RECORD)) rss"
proof -
  have "\<exists>bs rss. items = map Inr bs \<and> list_all (\<lambda>b. length b \<le> MAX_RECORD) bs \<and> chunks = map (frames_of xxh) rss \<and>
    concat rss = rb @ number k bs \<and> list_all (list_all (\<lambda>r. length (snd r) \<le> MAX_RECORD)) rss"
    using assms
  proof (induction items arbitrary: k rb chunks)
    case Nil
    show ?case
    proof (cases "frames_of xxh rb = []")
      case True
      then have "rb = []" by (cases rb) (auto dest: arg_cong [of _ _ length])
      then show ?thesis using Nil True by (intro exI [of _ "[]"]) simp
    next
      case False
      then show ?thesis using Nil by (intro exI [of _ "[]"] exI [of _ "[rb]"]) (simp split: if_splits)
    qed
  next
    case (Cons item items)
    obtain bytes where b: "item = Inr bytes" using Cons.prems(1) by (cases item) simp_all
    have len: "length bytes \<le> MAX_RECORD" using Cons.prems(1) b by (auto simp: frame_encode_bytes split: if_splits)
    have k1: "of_nat k + 1 = (of_nat (Suc k) :: u64)" by simp
    let ?f = "frame_bytes xxh (of_nat (Suc k), bytes)"
    have enc: "frame_encode xxh (of_nat (Suc k)) bytes = Inr ?f" by (simp only: frame_encode_bytes len if_True)
    note step = Cons.prems(1) [unfolded b snapshot_encode.simps sum.case k1 enc]
    show ?case
    proof (cases "frames_of xxh rb \<noteq> [] \<and> length (frames_of xxh rb) + length ?f > 262144")
      case True
      obtain chunks' where c: "snapshot_encode xxh items (of_nat (Suc k)) (frames_of xxh [(of_nat (Suc k), bytes)]) = (chunks', None)"
        "chunks = frames_of xxh rb # chunks'"
        using step [unfolded if_P [OF True]] by (auto split: prod.splits)
      from Cons.IH [OF c(1)] len obtain bs rss where "items = map Inr bs" "list_all (\<lambda>b. length b \<le> MAX_RECORD) bs"
        "chunks' = map (frames_of xxh) rss" "concat rss = [(of_nat (Suc k), bytes)] @ number (Suc k) bs"
        "list_all (list_all (\<lambda>r. length (snd r) \<le> MAX_RECORD)) rss" by auto
      then show ?thesis using c(2) b len Cons.prems(2)
        by (intro exI [of _ "bytes # bs"] exI [of _ "rb # rss"]) simp
    next
      case False
      have c: "snapshot_encode xxh items (of_nat (Suc k)) (frames_of xxh (rb @ [(of_nat (Suc k), bytes)])) = (chunks, None)"
        using step [unfolded if_not_P [OF False]] by simp
      from Cons.IH [OF c] len Cons.prems(2) obtain bs rss where "items = map Inr bs" "list_all (\<lambda>b. length b \<le> MAX_RECORD) bs"
        "chunks = map (frames_of xxh) rss" "concat rss = (rb @ [(of_nat (Suc k), bytes)]) @ number (Suc k) bs"
        "list_all (list_all (\<lambda>r. length (snd r) \<le> MAX_RECORD)) rss" by auto
      then show ?thesis using b len by (intro exI [of _ "bytes # bs"] exI [of _ rss]) simp
    qed
  qed
  then show thesis using that by blast
qed

lemma chunk_writes_content:
  "fs_live s SnapshotTmp = Some f \<Longrightarrow> length (fo_content f) = off \<Longrightarrow>
    \<exists>f'. fs_live (exec (chunk_writes chunks off) s) SnapshotTmp = Some f' \<and> fo_content f' = fo_content f @ concat chunks"
proof (induction chunks arbitrary: s f off)
  case (Cons b bs)
  let ?f = "fo_write off b f"
  have "fo_content ?f = fo_content f @ b" using Cons.prems(2) write_at_end [of "fo_content f"] by (simp add: fo_write_def)
  then show ?case using Cons.IH [of "fs_step s (WriteAt SnapshotTmp off b)" ?f "off + length b"] Cons.prems by simp
qed simp

lemma chunk_writes_names: "ops_names (chunk_writes chunks off) \<subseteq> {SnapshotTmp}"
  by (induction chunks arbitrary: off) auto

context journal_machine
begin

definition whole_log :: "byte list list \<Rightarrow> (nat \<Rightarrow> nat) \<Rightarrow> nat \<Rightarrow> byte list" where
  "whole_log log pos b = log_frames xxh (pos b) (slice (pos b) (length log) log)"

lemma whole_log_append:
  "pos b \<le> length log \<Longrightarrow> whole_log (log @ bs) pos b = whole_log log pos b @ log_frames xxh (length log) bs"
  using slice_append [of "pos b" "length log" "length log + length bs" "log @ bs"]
  by (simp add: whole_log_def log_frames_append) (simp add: slice_def)

text \<open>The files while a writer runs: every recovery set that \<open>CURRENT\<close> may name ends with the same log.\<close>

definition fs_at :: "fs \<Rightarrow> byte list list \<Rightarrow> nat \<Rightarrow> (nat \<Rightarrow> nat) \<Rightarrow> nat \<Rightarrow> (current \<times> nat \<times> nat) set \<Rightarrow> bool" where
  "fs_at s log lev pos b K \<longleftrightarrow> good s log lev pos K \<and> None \<notin> bindings s CurrentFile \<and> (\<forall>k \<in> K. snd (snd k) = b) \<and>
     (\<exists>f. fs_live s (JournalFile (of_nat b)) = Some f \<and> fo_content f = whole_log log pos b) \<and> pos b \<le> length log"

lemma run_fs_at: "run_fs s log lev pos c a b \<Longrightarrow> fs_at s log lev pos b {(c, a, b)}"
  using set_okD(9) [OF supported_set_ok [of s log lev pos c a b]] by (auto simp: run_fs_def fs_at_def stable_def whole_log_def good_def)

lemma tail_img_extend:
  assumes "tail_img log lev kb i" "kb \<le> length log"
  shows "tail_img (log @ bs) lev kb i"
proof -
  obtain k t where "kb \<le> k" "lev \<le> k" "k \<le> length log" "i = log_frames xxh kb (slice kb k log) @ t" "torn_tail xxh t"
    using assms(1) by (auto simp: tail_img_def)
  then show ?thesis unfolding tail_img_def by (intro exI [of _ k] exI [of _ t]) simp
qed

lemma write_images:
  assumes "pos b \<le> length log" "lev \<le> length log" "list_all (\<lambda>b. length b \<le> MAX_RECORD) bs"
    "fo_content f = whole_log log pos b" "\<And>i. i \<in> fo_images f \<Longrightarrow> tail_img log lev (pos b) i"
    "i \<in> fo_images (fo_write (length (whole_log log pos b)) (log_frames xxh (length log) bs) f)"
  shows "tail_img (log @ bs) lev (pos b) i"
proof -
  consider "i \<in> fo_images f" | j where "i = whole_log log pos b @ take j (log_frames xxh (length log) bs)"
    using assms(4,6) write_at_end [of "whole_log log pos b"] by (auto simp: fo_write_def)
  then show ?thesis
  proof cases
    case 1
    then show ?thesis using tail_img_extend assms(1,5) by blast
  next
    case 2
    obtain k t where k: "k \<le> length bs" "take j (log_frames xxh (length log) bs) = log_frames xxh (length log) (take k bs) @ t" "torn_tail xxh t"
      using take_log_frames [OF assms(3)] by blast
    have "slice (pos b) (length log + k) (log @ bs) = slice (pos b) (length log) log @ take k bs"
      using slice_append [of "pos b" "length log" "length log + k" "log @ bs"] assms(1) by simp (simp add: slice_def)
    then have "i = log_frames xxh (pos b) (slice (pos b) (length log + k) (log @ bs)) @ t"
      using 2 k(2) assms(1) by (simp add: whole_log_def log_frames_append)
    then show ?thesis unfolding tail_img_def using assms(1,2) k(1,3)
      by (intro exI [of _ "length log + k"] exI [of _ t]) simp
  qed
qed

lemma fs_at_write:
  assumes "fs_at s log lev pos b K" "log_ok (log @ bs)" "fits (log @ bs) (pos b)"
  shows "fs_at (fs_step s (WriteAt (JournalFile (of_nat b)) (length (whole_log log pos b)) (log_frames xxh (length log) bs))) (log @ bs) lev pos b K"
proof -
  let ?n = "JournalFile (of_nat b)" and ?g = "fo_write (length (whole_log log pos b)) (log_frames xxh (length log) bs)"
  let ?s = "update_file s ?n ?g"
  obtain f where f: "fs_live s ?n = Some f" "fo_content f = whole_log log pos b" using assms(1) by (auto simp: fs_at_def)
  have g: "good s log lev pos K" "pos b \<le> length log" "lev \<le> length log" using assms(1) by (auto simp: fs_at_def good_def)
  have bs: "list_all (\<lambda>b. length b \<le> MAX_RECORD) bs" using assms(2) by (simp add: log_ok_def)
  have sup: "supported ?s (log @ bs) lev pos k" if k: "k \<in> K" for k
  proof -
    obtain c a where kc: "k = (c, a, b)" using assms(1) k by (cases k) (auto simp: fs_at_def)
    have sk: "supported s log lev pos (c, a, b)" using good_supported [OF g(1) k] kc by simp
    show ?thesis unfolding kc
      by (rule supported_last [OF sk f(1) _ assms(3)]) (rule write_images [OF g(2,3) bs f(2) supported_images [OF sk f(1)]])
  qed
  have b: "bindings ?s CurrentFile = bindings s CurrentFile" by (simp add: bindings_def)
  have "covers ?s (log @ bs) K" using g(1) assms(1) b unfolding good_def covers_def fs_at_def by metis
  then have "good ?s (log @ bs) lev pos K" using sup assms(2) g(3) by (simp add: good_def)
  moreover have "fo_content (?g f) = whole_log (log @ bs) pos b"
    using f(2) write_at_end [of "whole_log log pos b"] whole_log_append [of pos b, OF g(2)] by (simp add: fo_write_def)
  ultimately show ?thesis using assms(1) b f(1) g(2) by (simp add: fs_at_def)
qed

lemma fs_at_sync:
  assumes "fs_at s log lev pos b K" "lev' \<le> length log"
  shows "fs_at (fs_step s (SyncFile (JournalFile (of_nat b)))) log lev' pos b K"
proof -
  let ?n = "JournalFile (of_nat b)"
  let ?s = "fs_step s (SyncFile ?n)"
  obtain f where f: "fs_live s ?n = Some f" "fo_content f = whole_log log pos b" using assms(1) by (auto simp: fs_at_def)
  have g: "good s log lev pos K" using assms(1) by (simp add: fs_at_def)
  have sup: "supported ?s log lev' pos k" if k: "k \<in> K" for k
  proof -
    obtain c a where kc: "k = (c, a, b)" using assms(1) k by (cases k) (auto simp: fs_at_def)
    show ?thesis using supported_sync [OF _ f(1) _ assms(2)] good_supported [OF g k] f(2) by (simp add: kc whole_log_def)
  qed
  have b: "bindings ?s CurrentFile = bindings s CurrentFile" by (simp add: bindings_def)
  have "covers ?s log K" using g b by (simp add: good_def covers_def)
  then have "good ?s log lev' pos K" using sup g assms(2) by (simp add: good_def)
  then show ?thesis using assms(1) b f by (simp add: fs_at_def)
qed

lemma run_fs_iff: "run_fs s log lev pos c a b \<longleftrightarrow> fs_at s log lev pos b {(c, a, b)} \<and> stable s CurrentFile (current_file xxh c)"
proof
  assume "run_fs s log lev pos c a b"
  then show "fs_at s log lev pos b {(c, a, b)} \<and> stable s CurrentFile (current_file xxh c)"
    using run_fs_at by (simp add: run_fs_def)
qed (simp add: run_fs_def fs_at_def whole_log_def)

lemma run_fs_write:
  assumes "run_fs s log lev pos c a b" "log_ok (log @ bs)" "fits (log @ bs) (pos b)"
  shows "run_fs (fs_step s (WriteAt (JournalFile (of_nat b)) (length (whole_log log pos b)) (log_frames xxh (length log) bs))) (log @ bs) lev pos c a b"
  using assms fs_at_write unfolding run_fs_iff by (simp add: stable_def bindings_def)

lemma run_fs_sync:
  assumes "run_fs s log lev pos c a b" "lev' \<le> length log"
  shows "run_fs (fs_step s (SyncFile (JournalFile (of_nat b)))) log lev' pos c a b"
  using assms fs_at_sync [of s log lev pos b _ lev'] unfolding run_fs_iff by (simp add: stable_def bindings_def)

lemma run_fs_ops:
  assumes "run_fs s log lev pos c a b" "CurrentFile \<notin> ops_names ops" "files a b \<inter> ops_names ops = {}"
  shows "safe (\<lambda>x. run_fs x log lev pos c a b) ops s"
  using assms
proof (induction ops arbitrary: s)
  case (Cons op ops)
  then have "run_fs (fs_step s op) log lev pos c a b" by (intro run_fs_step) auto
  then show ?case using Cons by (simp add: Int_Un_distrib)
qed simp

lemma run_fs_safe: "safe (\<lambda>x. run_fs x log lev pos c a b) ops s \<Longrightarrow> safe (some_good log lev pos) ops s"
  by (erule safe_mono) (rule run_fs_good)

subsection \<open>Rotation\<close>

lemma supported_pos:
  assumes "supported s log lev pos (c, a, b)" "\<And>g. g \<le> b \<Longrightarrow> pos' g = pos g"
  shows "supported s log lev pos' (c, a, b)"
  using assms(1)
proof (rule supportedE)
  fix content f
  assume h: "set_ok log pos c a b" "stable s (SnapshotFile (of_nat a)) content" "cu_bytes c = of_nat (length content)"
    "snap_ok log (pos a) content (cu_records c)"
    "\<And>g. a \<le> g \<Longrightarrow> g < b \<Longrightarrow> stable s (JournalFile (of_nat g)) (log_frames xxh (pos g) (slice (pos g) (pos (Suc g)) log))"
    "fs_live s (JournalFile (of_nat b)) = Some f" "fs_old s (JournalFile (of_nat b)) = {}" "\<And>i. i \<in> fo_images f \<Longrightarrow> tail_img log lev (pos b) i"
  note d = set_okD [OF h(1)]
  have "set_ok log pos' c a b" unfolding set_ok_def using d assms(2) by (intro conjI) auto
  then show ?thesis using h d(3) assms(2) by (intro supportedI [where content = content and f = f]) auto
qed

definition rotated :: "current \<Rightarrow> nat \<Rightarrow> current" where
  "rotated c b = c\<lparr>cu_logs := cu_logs c @ [of_nat (Suc b)], cu_pending := of_nat (Suc b)\<rparr>"

lemma consecutive_of_nat: "consecutive (map of_nat [a..<b])"
proof (induction "b - a" arbitrary: a)
  case (Suc d)
  then have "a < b" "d = b - Suc a" by simp_all
  then show ?case using Suc.hyps(1) [of "Suc a"] by (cases "Suc a < b") (simp_all add: upt_conv_Cons add.commute)
qed simp

lemma set_ok_rotated:
  assumes "set_ok log pos c a b" "cu_garbage c = []" "Suc b < 2 ^ 64" "length (cu_logs (rotated c b)) \<le> MAX_GENERATIONS" "pos' = pos(Suc b := length log)"
  shows "set_ok log pos' (rotated c b) a (Suc b)"
proof -
  note d = set_okD [OF assms(1)]
  have l: "cu_logs (rotated c b) = map of_nat [a..<Suc (Suc b)]" using d(2,3) by (simp add: rotated_def)
  have v: "cu_logs c \<noteq> []" "cu_snapshot c \<noteq> 0" "hd (cu_logs c) = cu_snapshot c" using d(1) by (simp_all add: current_valid_def)
  have "consecutive (cu_logs c @ [of_nat (Suc b)])"
    using consecutive_of_nat [of a "Suc (Suc b)"] l by (simp add: rotated_def)
  then have "current_valid (rotated c b)"
    unfolding current_valid_def using v assms(2,4) by (simp add: rotated_def)
  then show ?thesis unfolding set_ok_def using d(3,5,6,8,9) assms(3) l by (auto simp: rotated_def assms(5))
qed

lemma rotate_safe:
  assumes "run_fs s log lev pos (dk_current d) a b" "cu_garbage (dk_current d) = []" "rotate xxh d = (ops, r)"
  defines "pos' \<equiv> pos(Suc b := length log)"
  shows "safe (some_good log lev pos') ops s"
    and "r = Inr (d', generation) \<Longrightarrow> run_fs (exec ops s) log lev pos' (dk_current d') a (Suc b) \<and> generation = of_nat (Suc b) \<and>
      d' = d\<lparr>dk_current := rotated (dk_current d) b, dk_offset := 0\<rparr>"
proof -
  let ?c = "dk_current d" and ?n = "JournalFile (of_nat b)" and ?n' = "JournalFile (of_nat (Suc b))"
  let ?mk = "[Create JournalTmp, SyncFile JournalTmp, Rename JournalTmp ?n', SyncDir]"
  have g: "good s log lev pos {(?c, a, b)}" "lev \<le> length log" using assms(1) by (simp_all add: run_fs_def good_def)
  have set: "set_ok log pos ?c a b" by (rule supported_set_ok [OF good_supported [OF g(1)]]) simp
  note d = set_okD [OF set]
  have run0: "run_fs s log lev pos' ?c a b"
    using assms(1) supported_pos [of s log lev pos ?c a b pos'] by (simp add: run_fs_def good_def pos'_def)
  define s1 where "s1 = fs_step s (SyncFile ?n)"
  have run1: "run_fs s1 log lev pos' ?c a b" unfolding s1_def by (rule run_fs_sync [OF run0 g(2)])
  have name: "log_name d = ?n" using last_logs [OF set] by (simp add: log_name_def stream_path_def)
  have l1: "stable s1 ?n (whole_log log pos b)"
    using assms(1) g(1) by (auto simp: run_fs_def s1_def stable_def bindings_def good_def supported_def whole_log_def)
  have "safe (some_good log lev pos') ops s \<and> (r = Inr (d', generation) \<longrightarrow>
      run_fs (exec ops s) log lev pos' (dk_current d') a (Suc b) \<and> generation = of_nat (Suc b) \<and>
      d' = d\<lparr>dk_current := rotated ?c b, dk_offset := 0\<rparr>)"
  proof (cases "Suc b < 2 ^ 64")
    case False
    have "unat (of_nat b :: u64) = b" by (rule unat_of_nat_u64 [OF d(4)])
    then have "checked_add (of_nat b :: u64) 1 = None" using False by (simp add: checked_add_def)
    then have "ops = [SyncFile ?n]" "\<exists>e. r = Inl e"
      using assms(3) last_logs [OF set] by (auto simp: rotate_def disk_sync_def name)
    then show ?thesis using run_fs_good [OF run0] run_fs_good [OF run1] by (auto simp: s1_def)
  next
    case True
    have gen: "checked_add (last (cu_logs ?c)) 1 = Some (of_nat (Suc b))"
      unfolding last_logs [OF set] by (rule checked_add_of_nat [OF True])
    have rot: "ops = SyncFile ?n # ?mk @ fst (publish xxh (rotated ?c b))"
      "r = (case snd (publish xxh (rotated ?c b)) of Inl e \<Rightarrow> Inl e
            | Inr _ \<Rightarrow> Inr (d\<lparr>dk_current := rotated ?c b, dk_offset := 0\<rparr>, of_nat (Suc b)))"
      using assms(3) gen unfolding rotate_def Let_def name
      by (auto simp: disk_sync_def name stream_path_def rotated_def split: prod.splits sum.splits)
    define s2 where "s2 = exec ?mk s1"
    have "(of_nat (Suc b) :: u64) \<noteq> of_nat g" if "g \<le> b" for g
    proof -
      have "g < 2 ^ 64" using that True by linarith
      then show ?thesis using of_nat_u64_inject [OF True, of g] that by simp
    qed
    then have "\<forall>g \<in> {a..b}. (of_nat (Suc b) :: u64) \<noteq> of_nat g" by simp
    then have notin: "?n' \<notin> files a b" unfolding files_def by blast
    have sf: "safe (\<lambda>x. run_fs x log lev pos' ?c a b) ?mk s1"
      using run1 notin by (intro run_fs_ops) auto
    have run2: "run_fs s2 log lev pos' ?c a b" unfolding s2_def by (rule safe_end [OF sf])
    have new: "fs_live s2 ?n' = Some (synced [])" "fs_old s2 ?n' = {}"
      by (auto simp: s2_def fo_set_len_def simp del: of_nat_Suc)
    have safe2: "safe (some_good log lev pos') (SyncFile ?n # ?mk) s"
      unfolding safe.simps(2) [of _ "SyncFile ?n"] s1_def [symmetric] using run_fs_good [OF run0] run_fs_safe [OF sf] by (rule conjI)
    show ?thesis
    proof (cases "length (cu_logs (rotated ?c b)) \<le> MAX_GENERATIONS")
      case False
      then have "publish xxh (rotated ?c b) = ([Create CurrentTmp], Inl (InvalidData ''too many journal generations''))"
        by (simp add: publish_def current_encode_def)
      moreover have "run_fs (fs_step s2 (Create CurrentTmp)) log lev pos' ?c a b" by (rule run_fs_step [OF run2]) simp_all
      ultimately show ?thesis using safe2 run_fs_good [OF run2] run_fs_good rot
        unfolding rot(1) by (simp add: safe_append [of _ "SyncFile ?n # ?mk", simplified] s2_def s1_def)
    next
      case True
      have set': "set_ok log pos' (rotated ?c b) a (Suc b)"
        by (rule set_ok_rotated [OF set assms(2) \<open>Suc b < 2 ^ 64\<close> True]) (simp add: pos'_def)
      have sup2: "supported s2 log lev pos' (?c, a, b)" using run2 by (simp add: run_fs_def good_def)
      have n2: "stable s2 ?n (whole_log log pos b)"
      proof -
        have "?n \<notin> ops_names ?mk" using notin d(3) by (auto simp: files_def)
        then show ?thesis using stable_same [OF l1] exec_frame [of ?n ?mk s1] by (simp add: same_at_def s2_def)
      qed
      have "supported s2 log lev pos' (rotated ?c b, a, Suc b)"
        using sup2
      proof (rule supportedE)
        fix content f
        assume h: "stable s2 (SnapshotFile (of_nat a)) content" "cu_bytes ?c = of_nat (length content)"
          "snap_ok log (pos' a) content (cu_records ?c)"
          "\<And>g. a \<le> g \<Longrightarrow> g < b \<Longrightarrow> stable s2 (JournalFile (of_nat g)) (log_frames xxh (pos' g) (slice (pos' g) (pos' (Suc g)) log))"
        show ?thesis
        proof (rule supportedI [OF set' h(1) _ _ _ new])
          show "stable s2 (JournalFile (of_nat g)) (log_frames xxh (pos' g) (slice (pos' g) (pos' (Suc g)) log))" if "a \<le> g" "g < Suc b" for g
            using h(4) [OF that(1)] that(2) n2 by (cases "g = b") (simp_all add: pos'_def whole_log_def)
          show "tail_img log lev (pos' (Suc b)) i" if "i \<in> fo_images (synced [])" for i
            using that tail_img_whole [of "length log" log lev] g(2) by (simp add: pos'_def slice_def)
        qed (use h in \<open>simp_all add: rotated_def\<close>)
      qed
      note pub = publish_safe [OF _ this, of "{(?c, a, b)}"]
      have g2: "good s2 log lev pos' {(?c, a, b)}" using run2 by (simp add: run_fs_def)
      let ?F = "current_file xxh (rotated ?c b)"
      have p: "publish xxh (rotated ?c b) = (publish_ops ?F, Inr ())" by (rule publish_ok [OF set_okD(1) [OF set']])
      have ops: "ops = (SyncFile ?n # ?mk) @ publish_ops ?F" using rot(1) p by simp
      have e2: "exec (SyncFile ?n # ?mk) s = s2" by (simp add: s2_def s1_def)
      have "safe (some_good log lev pos') (publish_ops ?F) s2" using pub(1) [OF g2] some_goodI by (rule safe_mono)
      then have "safe (some_good log lev pos') ops s" unfolding ops safe_append e2 using safe2 by blast
      moreover have "fs_live (exec (publish_ops ?F) s2) ?n' = Some (synced [])"
        using pub(4) [OF g2, of ?n'] new(1) by (simp add: same_at_def)
      then have "run_fs (exec ops s) log lev pos' (rotated ?c b) a (Suc b)"
        unfolding ops exec_simps(3) e2 run_fs_def using pub(2,3) [OF g2] by (simp add: pos'_def slice_def del: of_nat_Suc)
      ultimately show ?thesis using rot(2) p by auto
    qed
  qed
  then show "safe (some_good log lev pos') ops s"
    and "r = Inr (d', generation) \<Longrightarrow> run_fs (exec ops s) log lev pos' (dk_current d') a (Suc b) \<and> generation = of_nat (Suc b) \<and>
      d' = d\<lparr>dk_current := rotated ?c b, dk_offset := 0\<rparr>" by blast+
qed

subsection \<open>Snapshots and their publication\<close>

text \<open>The file of a snapshot is ready to be named by \<open>CURRENT\<close>.\<close>

definition snap_ready :: "fs \<Rightarrow> byte list list \<Rightarrow> (nat \<Rightarrow> nat) \<Rightarrow> nat \<Rightarrow> snapshot_meta \<Rightarrow> bool" where
  "snap_ready s log pos b sn \<longleftrightarrow> sn_generation sn = of_nat b \<and> sn_lsn sn = of_nat (pos b) \<and>
     (\<exists>content. stable s (SnapshotFile (of_nat b)) content \<and> sn_bytes sn = of_nat (length content) \<and>
        snap_ok log (pos b) content (sn_records sn))"

lemma disk_snapshot_ready:
  assumes "disk_snapshot xxh (of_nat b) (of_nat (pos b)) items = Some (ops, r)" "mc_snapshot M m = Inr items" "ok m"
    "replay M 0 (take (pos b) log) m0 = Inr mk" "sim mk m"
  shows "ops_names ops \<subseteq> {SnapshotTmp, SnapshotFile (of_nat b)}" "r = Inr sn \<Longrightarrow> snap_ready (exec ops s) log pos b sn"
proof -
  obtain chunks err where e: "snapshot_encode xxh items 0 [] = (chunks, err)" by fastforce
  show "ops_names ops \<subseteq> {SnapshotTmp, SnapshotFile (of_nat b)}"
    using assms(1) chunk_writes_names [of chunks 0] unfolding disk_snapshot_def e Let_def prod.case
    by (auto simp: stream_path_def split: if_splits option.splits)
  assume "r = Inr sn"
  then have n: "err = None" using assms(1) unfolding disk_snapshot_def e Let_def prod.case by (auto split: if_splits option.splits)
  have e0: "snapshot_encode xxh items (of_nat 0) (frames_of xxh []) = (chunks, None)" using e n by simp
  from snapshot_encode_chunks [OF e0] obtain bs rss where bs: "items = map Inr bs" "list_all (\<lambda>b. length b \<le> MAX_RECORD) bs"
    "chunks = map (frames_of xxh) rss" "concat rss = number 0 bs" "list_all (list_all (\<lambda>r. length (snd r) \<le> MAX_RECORD)) rss" by auto
  have cnt: "map (the \<circ> count_frames) chunks = map length rss"
    using bs(5) count_frames_of unfolding bs(3) list_all_iff by fastforce
  have "concat (map (frames_of xxh) rss) = frames_of xxh (concat rss)" for rss by (induction rss) simp_all
  then have content: "concat chunks = log_frames xxh 0 bs" unfolding bs(3) using bs(4) by (simp add: log_frames_def)
  let ?w = "Create SnapshotTmp # chunk_writes chunks 0"
  have ops: "ops = ?w @ [SyncFile SnapshotTmp, Rename SnapshotTmp (SnapshotFile (of_nat b)), SyncDir]"
    and sn: "sn = \<lparr>sn_generation = of_nat b, sn_lsn = of_nat (pos b), sn_bytes = of_nat (sum_list (map length chunks)),
      sn_records = of_nat (sum_list (map (the \<circ> count_frames) chunks))\<rparr>"
    using assms(1) \<open>r = Inr sn\<close> n unfolding disk_snapshot_def e Let_def prod.case by (auto simp: stream_path_def split: if_splits)
  obtain f0 where "fs_live (fs_step s (Create SnapshotTmp)) SnapshotTmp = Some f0" "fo_content f0 = []"
    by (cases "fs_live s SnapshotTmp") (auto simp: fo_set_len_def Let_def)
  from chunk_writes_content [OF this(1), of 0 chunks] this(2) obtain f where
    f: "fs_live (exec ?w s) SnapshotTmp = Some f" "fo_content f = log_frames xxh 0 bs" using content by auto
  have st: "stable (exec ops s) (SnapshotFile (of_nat b)) (log_frames xxh 0 bs)"
    unfolding ops exec_simps(3) using f by (simp add: stable_def bindings_def)
  obtain srs m' where m': "list_all2 (\<lambda>b s. mc_decode_snapshot M b = Inr s) bs srs" "restore_all M srs m0 = Inr m'" "ok m'" "sim m m'"
    using snapshot_restore [OF assms(3)] assms(2) bs(1) by blast
  have "length (concat rss) = length bs" using bs(4) by simp
  then have rec: "sn_records sn = of_nat (length bs)" unfolding sn using cnt by (simp add: length_concat)
  have "snap_ok log (pos b) (log_frames xxh 0 bs) (sn_records sn)"
    unfolding snap_ok_def using rec bs(2) m' assms(4) sim_trans [OF assms(5) m'(4)] by blast
  moreover have "sum_list (map length chunks) = length (log_frames xxh 0 bs)" unfolding content [symmetric] by (simp add: length_concat)
  ultimately show "snap_ready (exec ops s) log pos b sn" unfolding snap_ready_def using st by (auto simp: sn)
qed

lemma publish_keeps_current:
  "None \<notin> bindings s CurrentFile \<Longrightarrow> safe (\<lambda>x. None \<notin> bindings x CurrentFile) (publish_ops F) s"
  using tmp_written [of s CurrentTmp F] by (auto simp: publish_ops_def bindings_def)

lemma run_fs_publish_at:
  assumes "run_fs s log lev pos c a b" "supported s log lev pos (c', a', b)"
  shows "safe (\<lambda>x. \<exists>K. fs_at x log lev pos b K) (publish_ops (current_file xxh c')) s"
proof -
  let ?ops = "publish_ops (current_file xxh c')" and ?n = "JournalFile (of_nat b)"
  have at: "fs_at s log lev pos b {(c, a, b)}" by (rule run_fs_at [OF assms(1)])
  have "safe (\<lambda>x. good x log lev pos {(c', a', b), (c, a, b)} \<and> None \<notin> bindings x CurrentFile \<and> fs_live x ?n = fs_live s ?n) ?ops s"
    unfolding safe_conj using publish_safe(1) [OF _ assms(2), of "{(c, a, b)}"] publish_keeps_current safe_frame [of ?n ?ops s] at
    by (simp add: fs_at_def publish_ops_def)
  then show ?thesis
  proof (rule safe_mono)
    fix x
    assume "good x log lev pos {(c', a', b), (c, a, b)} \<and> None \<notin> bindings x CurrentFile \<and> fs_live x ?n = fs_live s ?n"
    then have "fs_at x log lev pos b {(c', a', b), (c, a, b)}" using at by (simp add: fs_at_def)
    then show "\<exists>K. fs_at x log lev pos b K" by blast
  qed
qed

definition snapshotted :: "current \<Rightarrow> nat \<Rightarrow> nat \<Rightarrow> snapshot_meta \<Rightarrow> current" where
  "snapshotted c a b sn =
     c\<lparr>cu_snapshot := sn_generation sn, cu_lsn := sn_lsn sn, cu_bytes := sn_bytes sn, cu_records := sn_records sn,
       cu_logs := [of_nat b], cu_garbage := (True, of_nat a) # map (\<lambda>g. (False, of_nat g)) [a..<b], cu_pending := 0\<rparr>"

lemma generations_split:
  assumes "a \<le> b" "b < 2 ^ 64"
  shows "filter (\<lambda>g. g < of_nat b) (map of_nat [a..<Suc b]) = (map of_nat [a..<b] :: u64 list)"
    and "filter (\<lambda>g. g \<ge> of_nat b) (map of_nat [a..<Suc b]) = [of_nat b :: u64]"
proof -
  have u: "unat (of_nat g :: u64) = g" if "g \<le> b" for g by (rule unat_of_nat_u64) (use that assms(2) in linarith)
  have lt: "(of_nat g :: u64) < of_nat b \<longleftrightarrow> g < b" if "g \<le> b" for g using u [OF that] u [of b] by (simp add: word_less_nat_alt)
  have "filter (\<lambda>g. (of_nat g :: u64) < of_nat b) [a..<b] = [a..<b]" using lt by (auto simp: filter_id_conv)
  then show "filter (\<lambda>g. g < of_nat b) (map of_nat [a..<Suc b]) = (map of_nat [a..<b] :: u64 list)"
    using assms(1) by (simp add: filter_map o_def)
  have "filter (\<lambda>g. (of_nat b :: u64) \<le> of_nat g) [a..<b] = []" using lt by (auto simp: filter_empty_conv not_le [symmetric])
  then show "filter (\<lambda>g. g \<ge> of_nat b) (map of_nat [a..<Suc b]) = [of_nat b :: u64]"
    using assms(1) by (simp add: filter_map o_def)
qed

lemma supported_snapshotted:
  assumes "run_fs s log lev pos c a b" "a < b" "snap_ready s log pos b sn"
  shows "supported s log lev pos (snapshotted c a b sn, b, b)"
proof -
  have sup: "supported s log lev pos (c, a, b)" using assms(1) by (simp add: run_fs_def good_def)
  note d = set_okD [OF supported_set_ok [OF sup]]
  note sn = assms(3) [unfolded snap_ready_def]
  have inj: "(of_nat g :: u64) \<noteq> of_nat b" if "g < b" for g
    using of_nat_u64_inject [OF _ d(4), of g] that d(4) by simp
  have "length (cu_logs c) \<le> MAX_GENERATIONS" "(of_nat a :: u64) \<noteq> 0" using d(1,5) by (simp_all add: current_valid_def)
  then have "b - a < MAX_GENERATIONS" "(of_nat b :: u64) \<noteq> 0"
    using d(2,3,4) assms(2) of_nat_u64_inject [OF d(4), of 0] by (simp_all split: if_splits)
  then have "current_valid (snapshotted c a b sn)"
    unfolding current_valid_def snapshotted_def using sn inj assms(2) by (auto simp: list_ex_iff)
  then have set': "set_ok log pos (snapshotted c a b sn) b b"
    unfolding set_ok_def using d(4,9,10) sn by (simp add: snapshotted_def)
  show ?thesis
    using sup
  proof (rule supportedE)
    fix content f
    assume h: "fs_live s (JournalFile (of_nat b)) = Some f" "fs_old s (JournalFile (of_nat b)) = {}" "\<And>i. i \<in> fo_images f \<Longrightarrow> tail_img log lev (pos b) i"
    from sn obtain content' where "stable s (SnapshotFile (of_nat b)) content'" "sn_bytes sn = of_nat (length content')"
      "snap_ok log (pos b) content' (sn_records sn)" by blast
    then show ?thesis using set' h by (intro supportedI [where content = content' and f = f]) (simp_all add: snapshotted_def)
  qed
qed

lemma publish_snapshot_safe:
  assumes "run_fs s log lev pos (dk_current d) a b" "a < b" "cu_garbage (dk_current d) = []" "snap_ready s log pos b sn"
    "publish_snapshot xxh d sn = (ops, rd)"
  shows "safe (\<lambda>x. \<exists>K. fs_at x log lev pos b K) ops s" "JournalFile (of_nat b) \<notin> ops_names ops"
    and "\<exists>c. rd = Inr (d\<lparr>dk_current := c\<rparr>) \<and> cu_garbage c = [] \<and> run_fs (exec ops s) log lev pos c b b"
proof -
  let ?c = "dk_current d" and ?c1 = "snapshotted (dk_current d) a b sn"
  let ?gs = "(True, of_nat a) # map (\<lambda>g. (False, of_nat g)) [a..<b]"
  let ?rm = "map (\<lambda>(s, g). Remove (stream_path s g)) ?gs @ [SyncDir]" and ?n = "JournalFile (of_nat b)"
  let ?p1 = "publish_ops (current_file xxh ?c1)" and ?p2 = "publish_ops (current_file xxh (cleared ?c1))"
  have sup: "supported s log lev pos (?c1, b, b)" by (rule supported_snapshotted [OF assms(1,2,4)])
  have sup0: "supported s log lev pos (?c, a, b)" using assms(1) by (simp add: run_fs_def good_def)
  note d = set_okD [OF supported_set_ok [OF sup0]] and v = set_okD(1) [OF supported_set_ok [OF sup]]
  have inj: "(of_nat g :: u64) \<noteq> of_nat b" if "g < b" for g using of_nat_u64_inject [OF _ d(4), of g] that d(4) by simp
  have gen: "sn_generation sn = of_nat b" using assms(4) by (simp add: snap_ready_def)
  have gs: "cu_garbage ?c @ [(True, cu_snapshot ?c)] @ map (Pair False) (filter (\<lambda>g. g < sn_generation sn) (cu_logs ?c)) = ?gs"
    unfolding gen d(2,5) generations_split [OF d(3,4)] assms(3) by simp
  have c1: "?c\<lparr>cu_snapshot := sn_generation sn, cu_lsn := sn_lsn sn, cu_bytes := sn_bytes sn, cu_records := sn_records sn,
     cu_logs := filter (\<lambda>g. g \<ge> sn_generation sn) (cu_logs ?c), cu_garbage := ?gs, cu_pending := 0\<rparr> = ?c1"
    unfolding snapshotted_def gen d(2) generations_split [OF d(3,4)] ..
  have c2: "?c1\<lparr>cu_garbage := []\<rparr> = cleared ?c1" by (simp add: cleared_def snapshotted_def)
  have plan: "ops = ?p1 @ ?rm @ ?p2" "rd = Inr (d\<lparr>dk_current := cleared ?c1\<rparr>)"
    using assms(5) [unfolded publish_snapshot_def Let_def gs c1 c2 publish_ok [OF v] publish_ok [OF current_valid_cleared [OF v]] prod.case sum.case]
    by simp_all
  define s1 where "s1 = exec ?p1 s"
  define s2 where "s2 = exec ?rm s1"
  have run1: "run_fs s1 log lev pos ?c1 b b" unfolding s1_def by (rule run_fs_publish(2) [OF assms(1) sup])
  have rm: "safe (\<lambda>x. run_fs x log lev pos ?c1 b b) ?rm s1"
    using assms(2) by (intro run_fs_ops [OF run1]) (auto simp: ops_names_def stream_path_def files_def inj inj [THEN not_sym])
  have run2: "run_fs s2 log lev pos ?c1 b b" unfolding s2_def by (rule safe_end [OF rm])
  have sup2: "supported s2 log lev pos (cleared ?c1, b, b)" using run2 supported_cleared by (simp add: run_fs_def good_def)
  have "safe (\<lambda>x. \<exists>K. fs_at x log lev pos b K) ?rm s1" using rm by (rule safe_mono) (blast intro: run_fs_at)
  then show "safe (\<lambda>x. \<exists>K. fs_at x log lev pos b K) ops s"
    unfolding plan(1) safe_append s1_def [symmetric] s2_def [symmetric]
    using run_fs_publish_at [OF assms(1) sup] run_fs_publish_at [OF run2 sup2] by blast
  show "?n \<notin> ops_names ops" unfolding plan(1) by (auto simp: publish_ops_def ops_names_def stream_path_def inj inj [THEN not_sym])
  have "exec ops s = exec ?p2 s2" unfolding plan(1) s1_def s2_def by (simp only: exec_simps)
  then have "run_fs (exec ops s) log lev pos (cleared ?c1) b b" using run_fs_publish(2) [OF run2 sup2] by simp
  then show "\<exists>c. rd = Inr (d\<lparr>dk_current := c\<rparr>) \<and> cu_garbage c = [] \<and> run_fs (exec ops s) log lev pos c b b"
    unfolding plan(2) by (intro exI [of _ "cleared ?c1"]) (simp add: cleared_def)
qed

end

end
