(* ===== verification/Journal_Stream.thy ===== *)
theory Journal_Stream
  imports Journal_Safety
begin

text \<open>
  The invariant of a journal stream holds in every state its runs (\<open>stream_run\<close>) can reach: the writer of
  \<open>crates/talon-journal/src/writer.rs\<close> with every interleaving of the operations in flight, the requests and the
  crashes. It implies that recovery succeeds from every image a crash may leave, with all acknowledged records.
\<close>

declare batch_loop.simps [simp del]

context journal_machine
begin

subsection \<open>The invariant of a writer\<close>

text \<open>The first \<open>n\<close> records of the log are applied to the machine.\<close>

definition pending_ok :: "nat \<Rightarrow> 'r pending list \<Rightarrow> bool" where
  "pending_ok n ps \<longleftrightarrow>
     map pd_lsn ps = map fst (number n (map pd_bytes ps)) \<and> list_all (\<lambda>p. mc_valid M (pd_record p) \<and> mc_encode M (pd_record p) = Inr (pd_bytes p)) ps"

definition applied :: "byte list list \<Rightarrow> nat \<Rightarrow> ('m, 'r) writer \<Rightarrow> bool" where
  "applied log n w \<longleftrightarrow> n \<le> length log \<and> dk_lsn (wr_disk w) = of_nat n \<and> ok (wr_machine w) \<and>
     (\<exists>mk. replay M 0 (take n log) m0 = Inr mk \<and> sim mk (wr_machine w))"

definition flight ::
  "byte list list \<Rightarrow> (nat \<Rightarrow> nat) \<Rightarrow> nat \<Rightarrow> nat \<Rightarrow> 'm \<Rightarrow> ('r pending list \<times> byte list \<times> u64 \<times> bool) option \<Rightarrow> u64 \<Rightarrow> u64 \<Rightarrow> bool" where
  "flight log pos b n m wr next_lsn off \<longleftrightarrow>
     (case wr of
        None \<Rightarrow> n = length log \<and> next_lsn = of_nat n \<and> off = of_nat (length (whole_log log pos b))
      | Some (ps, bytes, offset, effected) \<Rightarrow>
          pending_ok n ps \<and> next_lsn = of_nat (n + length ps) \<and> n + length ps < 2 ^ 64 \<and>
          (if effected then drop n log = map pd_bytes ps \<and> accepts M m ps \<and> off = of_nat (length (whole_log log pos b))
           else n = length log \<and> list_all (\<lambda>p. length (pd_bytes p) \<le> MAX_RECORD) ps \<and> bytes = log_frames xxh n (map pd_bytes ps) \<and>
             offset = of_nat (length (whole_log log pos b)) \<and> length (whole_log log pos b) + length bytes < 2 ^ 64 \<and>
             off = of_nat (length (whole_log log pos b) + length bytes)))"

definition syncs :: "nat \<Rightarrow> nat \<Rightarrow> ('m, 'r) writer \<Rightarrow> bool" where
  "syncs lev n w \<longleftrightarrow> (\<forall>l \<in> set (wr_durable w). unat l \<le> n) \<and>
     (\<forall>lsns e. wr_sync w = Some (lsns, e) \<longrightarrow> (\<forall>l \<in> set lsns. unat l \<le> (if e then lev else n)))"

definition queue_ok :: "'r command list \<Rightarrow> bool" where
  "queue_ok q \<longleftrightarrow> (\<forall>r bytes a. Append r bytes a \<in> set q \<longrightarrow> mc_valid M r \<and> mc_encode M r = Inr bytes)"

definition ckpt_ok :: "fs \<Rightarrow> byte list list \<Rightarrow> (nat \<Rightarrow> nat) \<Rightarrow> nat \<Rightarrow> ('m, 'r) writer \<Rightarrow> bool" where
  "ckpt_ok s log pos b w \<longleftrightarrow>
     (\<forall>ops r. wr_checkpoint w = Some (ops, r) \<longrightarrow> ops_names ops \<subseteq> {SnapshotTmp, SnapshotFile (of_nat b)} \<and>
        (\<forall>sn. r = Inr sn \<longrightarrow> snap_ready (exec ops s) log pos b sn))"

definition running :: "fs \<Rightarrow> byte list list \<Rightarrow> nat \<Rightarrow> (nat \<Rightarrow> nat) \<Rightarrow> nat \<Rightarrow> ('m, 'r) writer \<Rightarrow> bool" where
  "running s log lev pos b w \<longleftrightarrow>
     (\<exists>a. run_fs s log lev pos (dk_current (wr_disk w)) a b \<and> (wr_checkpoint w \<noteq> None \<longrightarrow> a < b)) \<and> cu_garbage (dk_current (wr_disk w)) = []"

definition quiet :: "('m, 'r) writer \<Rightarrow> bool" where
  "quiet w \<longleftrightarrow> wr_write w = None \<and> wr_sync w = None \<and> wr_checkpoint w = None"

text \<open>What the loop waits for: the rest of the operations keeps the stream recoverable, and its result is right.\<close>

definition rotating :: "fs \<Rightarrow> byte list list \<Rightarrow> nat \<Rightarrow> (nat \<Rightarrow> nat) \<Rightarrow> nat \<Rightarrow> disk \<Rightarrow> fs_op list \<Rightarrow> io_error + (disk \<times> u64) \<Rightarrow> bool" where
  "rotating s log lev pos b d ops r \<longleftrightarrow> safe (some_good log lev pos) ops s \<and>
     (\<forall>d' g. r = Inr (d', g) \<longrightarrow> pos (Suc b) = length log \<and> g = of_nat (Suc b) \<and>
        (\<exists>c a. d' = d\<lparr>dk_current := c, dk_offset := 0\<rparr> \<and> cu_garbage c = [] \<and> a \<le> b \<and> run_fs (exec ops s) log lev pos c a (Suc b)))"

definition publishing :: "fs \<Rightarrow> byte list list \<Rightarrow> nat \<Rightarrow> (nat \<Rightarrow> nat) \<Rightarrow> nat \<Rightarrow> disk \<Rightarrow> fs_op list \<Rightarrow> io_error + disk \<Rightarrow> bool" where
  "publishing s log lev pos b d ops rd \<longleftrightarrow> safe (\<lambda>x. \<exists>K. fs_at x log lev pos b K) ops s \<and> JournalFile (of_nat b) \<notin> ops_names ops \<and>
     (\<exists>c. rd = Inr (d\<lparr>dk_current := c\<rparr>) \<and> cu_garbage c = [] \<and> run_fs (exec ops s) log lev pos c b b)"

definition at_inv :: "fs \<Rightarrow> byte list list \<Rightarrow> nat \<Rightarrow> (nat \<Rightarrow> nat) \<Rightarrow> nat \<Rightarrow> ('m, 'r) writer \<Rightarrow> bool" where
  "at_inv s log lev pos b w \<longleftrightarrow>
     (case wr_at w of
        Top \<Rightarrow> running s log lev pos b w
      | Select \<Rightarrow> running s log lev pos b w
      | AwaitQuery ops \<Rightarrow> running s log lev pos b w \<and> (ops = [] \<or> ops = [SyncFile (JournalFile (of_nat b))])
      | AwaitRotate ops r items \<Rightarrow> quiet w \<and> mc_snapshot M (wr_machine w) = Inr items \<and> rotating s log lev pos b (wr_disk w) ops r
      | AwaitPublish ops rd \<Rightarrow> wr_checkpoint w = None \<and> publishing s log lev pos b (wr_disk w) ops rd
      | Stopped \<Rightarrow> running s log lev pos b w \<or> (quiet w \<and> some_good log lev pos s))"

definition core :: "fs \<Rightarrow> byte list list \<Rightarrow> nat \<Rightarrow> (nat \<Rightarrow> nat) \<Rightarrow> nat \<Rightarrow> nat \<Rightarrow> ('m, 'r) writer \<Rightarrow> bool" where
  "core s log lev pos b n w \<longleftrightarrow> last (cu_logs (dk_current (wr_disk w))) = of_nat b \<and> applied log n w \<and>
     flight log pos b n (wr_machine w) (wr_write w) (wr_next_lsn w) (dk_offset (wr_disk w)) \<and>
     syncs lev n w \<and> queue_ok (wr_queue w) \<and> ckpt_ok s log pos b w \<and> at_inv s log lev pos b w"

definition writer_inv :: "fs \<Rightarrow> byte list list \<Rightarrow> nat \<Rightarrow> (nat \<Rightarrow> nat) \<Rightarrow> ('m, 'r) writer \<Rightarrow> bool" where
  "writer_inv s log lev pos w \<longleftrightarrow> (\<exists>b n. core s log lev pos b n w)"

definition opening_inv :: "fs \<Rightarrow> byte list list \<Rightarrow> nat \<Rightarrow> (nat \<Rightarrow> nat) \<Rightarrow> fs_op list \<Rightarrow> disk \<Rightarrow> 'm \<Rightarrow> bool" where
  "opening_inv s log lev pos ops d m \<longleftrightarrow> safe (some_good log lev pos) ops s \<and> dk_lsn d = of_nat (length log) \<and> cu_garbage (dk_current d) = [] \<and>
     ok m \<and> (\<exists>mk. replay M 0 log m0 = Inr mk \<and> sim mk m) \<and>
     (\<exists>a b. run_fs (exec ops s) log lev pos (dk_current d) a b \<and> dk_offset d = of_nat (length (whole_log log pos b)))"

definition stream_inv :: "('m, 'r) stream \<Rightarrow> bool" where
  "stream_inv s \<longleftrightarrow> (\<exists>pos lev. st_acked s \<le> lev \<and>
     (case st_proc s of
        Closed \<Rightarrow> some_good (st_log s) lev pos (st_fs s)
      | Opening ops d m \<Rightarrow> opening_inv (st_fs s) (st_log s) lev pos ops d m
      | Running w \<Rightarrow> writer_inv (st_fs s) (st_log s) lev pos w))"

lemmas core_defs = core_def applied_def syncs_def ckpt_ok_def at_inv_def running_def quiet_def

text \<open>Fields the invariant does not depend on.\<close>

lemma core_cong:
  assumes "core s log lev pos b n w" "queue_ok (wr_queue w')" "wr_disk w' = wr_disk w" "wr_machine w' = wr_machine w"
    "wr_next_lsn w' = wr_next_lsn w" "wr_write w' = wr_write w" "wr_sync w' = wr_sync w" "wr_durable w' = wr_durable w"
    "wr_checkpoint w' = wr_checkpoint w" "wr_at w' = wr_at w"
  shows "core s log lev pos b n w'"
  using assms(1,2) unfolding core_defs assms(3-10) by blast

lemma core_fields [simp]:
  assumes "core s log lev pos b n w"
  shows "core s log lev pos b n (w\<lparr>wr_barrier := x\<rparr>)" "core s log lev pos b n (w\<lparr>wr_pending_checkpoint := y\<rparr>)"
    "core s log lev pos b n (w\<lparr>wr_closed := y\<rparr>)" "queue_ok q \<Longrightarrow> core s log lev pos b n (w\<lparr>wr_queue := q\<rparr>)"
proof -
  have q: "queue_ok (wr_queue w)" using assms by (simp add: core_def)
  note c = core_cong [OF assms]
  show "core s log lev pos b n (w\<lparr>wr_barrier := x\<rparr>)" by (rule c) (simp_all add: q)
  show "core s log lev pos b n (w\<lparr>wr_pending_checkpoint := y\<rparr>)" by (rule c) (simp_all add: q)
  show "core s log lev pos b n (w\<lparr>wr_closed := y\<rparr>)" by (rule c) (simp_all add: q)
  show "core s log lev pos b n (w\<lparr>wr_queue := q\<rparr>)" if "queue_ok q" by (rule c) (simp_all add: that)
qed

lemma running_fields [simp]:
  "running s log lev pos b (w\<lparr>wr_barrier := x\<rparr>) = running s log lev pos b w"
  "running s log lev pos b (w\<lparr>wr_pending_checkpoint := y\<rparr>) = running s log lev pos b w"
  "running s log lev pos b (w\<lparr>wr_closed := y\<rparr>) = running s log lev pos b w"
  "running s log lev pos b (w\<lparr>wr_queue := q\<rparr>) = running s log lev pos b w"
  "running s log lev pos b (w\<lparr>wr_at := l\<rparr>) = running s log lev pos b w"
  "running s log lev pos b (w\<lparr>wr_write := v\<rparr>) = running s log lev pos b w"
  "running s log lev pos b (w\<lparr>wr_sync := t\<rparr>) = running s log lev pos b w"
  "running s log lev pos b (w\<lparr>wr_durable := ds\<rparr>) = running s log lev pos b w"
  "running s log lev pos b (w\<lparr>wr_next_lsn := nl\<rparr>) = running s log lev pos b w"
  "running s log lev pos b (w\<lparr>wr_machine := m\<rparr>) = running s log lev pos b w"
  by (simp_all add: running_def)

lemma core_at:
  assumes "core s log lev pos b n w" "running s log lev pos b w" "x \<in> {Top, Select, Stopped}"
  shows "core s log lev pos b n (w\<lparr>wr_at := x\<rparr>)"
  using assms by (auto simp: core_def applied_def syncs_def ckpt_ok_def at_inv_def)

lemma core_running: "core s log lev pos b n w \<Longrightarrow> wr_at w \<in> {Top, Select} \<Longrightarrow> running s log lev pos b w"
  by (auto simp: core_def at_inv_def)

lemma core_good: "core s log lev pos b n w \<Longrightarrow> some_good log lev pos s"
proof -
  assume "core s log lev pos b n w"
  then have "at_inv s log lev pos b w" by (simp add: core_def)
  then show ?thesis
    by (auto simp: at_inv_def running_def rotating_def publishing_def fs_at_def some_good_def split: at.splits dest!: run_fs_good safe_here)
qed

subsection \<open>Effects of the operations in flight\<close>

lemma run_fs_update:
  assumes "\<And>x K. fs_at x log lev pos b K \<Longrightarrow> fs_at (update_file x (JournalFile (of_nat b)) g) log' lev' pos b K" "run_fs s log lev pos c a b"
  shows "run_fs (update_file s (JournalFile (of_nat b)) g) log' lev' pos c a b"
  using assms unfolding run_fs_iff by (simp add: stable_def bindings_def)

lemma at_inv_update:
  assumes "at_inv s log lev pos b w" "\<not> quiet w" "wr_at w' = wr_at w" "wr_disk w' = wr_disk w" "wr_checkpoint w' = wr_checkpoint w"
    and up: "\<And>x K. fs_at x log lev pos b K \<Longrightarrow> fs_at (update_file x (JournalFile (of_nat b)) g) log' lev' pos b K"
  shows "at_inv (update_file s (JournalFile (of_nat b)) g) log' lev' pos b w'"
proof -
  let ?n = "JournalFile (of_nat b)"
  have run: "running s log lev pos b w \<Longrightarrow> running (update_file s ?n g) log' lev' pos b w'"
    unfolding running_def assms(4,5) using run_fs_update [OF up] by blast
  have "publishing s log lev pos b d ops rd \<Longrightarrow> publishing (update_file s ?n g) log' lev' pos b d ops rd" for d ops rd
    unfolding publishing_def using up run_fs_update [OF up]
    by (auto simp: exec_update_commute elim!: safe_update)
  then show ?thesis using assms(1,2) run unfolding at_inv_def assms(3-5) by (auto split: at.splits)
qed

lemma ckpt_ok_update:
  assumes "ckpt_ok s log pos b w" "pos b \<le> length log" "wr_checkpoint w' = wr_checkpoint w"
  shows "ckpt_ok (update_file s (JournalFile (of_nat b)) g) (log @ bs) pos b w'"
proof -
  have "snap_ready x log pos b sn \<Longrightarrow> snap_ready (update_file x (JournalFile (of_nat b)) g) (log @ bs) pos b sn" for x sn
    unfolding snap_ready_def using snap_ok_extend [OF _ assms(2)] by (auto simp: stable_def bindings_def)
  moreover have "exec ops (update_file s (JournalFile (of_nat b)) g) = update_file (exec ops s) (JournalFile (of_nat b)) g"
    if "ops_names ops \<subseteq> {SnapshotTmp, SnapshotFile (of_nat b)}" for ops
    by (rule exec_update_commute) (use that in auto)
  ultimately show ?thesis using assms(1) unfolding ckpt_ok_def assms(3) by auto
qed

text \<open>The facts about the last log that hold wherever a write or a sync may be in flight.\<close>

lemma core_fs_at:
  assumes "core s log lev pos b n w" "\<not> quiet w"
  obtains K where "fs_at s log lev pos b K"
proof -
  have "at_inv s log lev pos b w" using assms(1) by (simp add: core_def)
  then have "\<exists>K. fs_at s log lev pos b K"
    using assms(2) by (auto simp: at_inv_def running_def publishing_def split: at.splits dest: run_fs_at safe_here)
  then show thesis using that by blast
qed

lemma core_log_name: "core s log lev pos b n w \<Longrightarrow> log_name (wr_disk w) = JournalFile (of_nat b)"
  by (simp add: core_def log_name_def stream_path_def)

lemma pending_ok_Cons:
  "pending_ok n (p # ps) \<longleftrightarrow>
     pd_lsn p = of_nat (Suc n) \<and> mc_valid M (pd_record p) \<and> mc_encode M (pd_record p) = Inr (pd_bytes p) \<and> pending_ok (Suc n) ps"
  by (auto simp: pending_ok_def)

lemma accepts_replay:
  assumes "pending_ok n ps" "accepts M m ps" "ok mk" "ok m" "sim mk m"
  shows "\<exists>mk'. replay M n (map pd_bytes ps) mk = Inr mk'"
  using assms
proof (induction ps arbitrary: n m mk)
  case (Cons p ps)
  let ?l = "of_nat (Suc n) :: u64"
  have p: "pd_lsn p = ?l" "mc_encode M (pd_record p) = Inr (pd_bytes p)" "pending_ok (Suc n) ps" "mc_valid M (pd_record p)"
    using Cons.prems(1) unfolding pending_ok_Cons by blast+
  obtain m1 where m1: "mc_apply M m ?l (pd_record p) = Inr m1" "accepts M m1 ps"
    using Cons.prems(2) p(1) by (auto split: sum.splits simp del: of_nat_Suc)
  obtain mk1 where mk1: "mc_apply M mk ?l (pd_record p) = Inr mk1" "sim m1 mk1"
    using sim_apply [OF p(4) Cons.prems(4,3) sim_sym [OF Cons.prems(5)] m1(1)] by blast
  have "mc_decode M (pd_bytes p) = Inr (pd_record p)" by (rule decode_encode [OF Cons.prems(4) p(4) m1(1) p(2)])
  moreover have "ok mk1" "ok m1" using ok_apply [OF _ p(4)] Cons.prems(3,4) mk1(1) m1(1) by blast+
  ultimately show ?case using Cons.IH [OF p(3) m1(2) _ _ sim_sym [OF mk1(2)]] mk1(1) by (simp del: of_nat_Suc)
qed simp

lemma write_effect_core:
  assumes core: "core s log lev pos b n w" and wr: "wr_write w = Some (ps, bytes, offset, False)"
    and acc: "accepts M (wr_machine w) ps"
  shows "core (exec (disk_write (wr_disk w) bytes offset) s) (log @ map pd_bytes ps) lev pos b n (w\<lparr>wr_write := Some (ps, bytes, offset, True)\<rparr>)"
proof -
  let ?bs = "map pd_bytes ps" and ?n = "JournalFile (of_nat b)"
  have nq: "\<not> quiet w" using wr by (simp add: quiet_def)
  obtain K where at: "fs_at s log lev pos b K" by (rule core_fs_at [OF core nq])
  have fl: "flight log pos b n (wr_machine w) (wr_write w) (wr_next_lsn w) (dk_offset (wr_disk w))" using core by (simp add: core_def)
  note f = fl [unfolded wr flight_def, simplified]
  have pb: "pos b \<le> length log" and lok: "log_ok log" using at by (auto simp: fs_at_def good_def)
  have off: "unat offset = length (whole_log log pos b)"
    using f unat_of_nat_u64 [of "length (whole_log log pos b)"] by simp
  have whole: "whole_log (log @ ?bs) pos b = whole_log log pos b @ bytes" using whole_log_append [of pos b, OF pb] f by simp
  have fit: "fits (log @ ?bs) (pos b)" using f unfolding fits_def whole_log_def [symmetric] whole by auto
  have rep: "\<not> isl (replay M 0 (log @ ?bs) m0)"
  proof -
    have "applied log n w" "n = length log" "pending_ok n ps" using core f by (auto simp: core_def)
    then obtain mk where mk: "replay M 0 log m0 = Inr mk" "ok (wr_machine w)" "sim mk (wr_machine w)" by (auto simp: applied_def)
    then show ?thesis using accepts_replay [OF \<open>pending_ok n ps\<close> acc replay_ok [OF mk(1) ok_init] mk(2,3)] \<open>n = length log\<close>
      by (auto simp: replay_append)
  qed
  have lok': "log_ok (log @ ?bs)" using lok f rep unfolding log_ok_def by (auto simp: list_all_iff)
  have ex: "exec (disk_write (wr_disk w) bytes offset) s = update_file s ?n (fo_write (length (whole_log log pos b)) bytes)"
    by (simp add: disk_write_def core_log_name [OF core] off)
  have up: "fs_at (update_file x ?n (fo_write (length (whole_log log pos b)) bytes)) (log @ ?bs) lev pos b K" if "fs_at x log lev pos b K" for x K
    using fs_at_write [OF that lok' fit] f by simp
  have "at_inv (exec (disk_write (wr_disk w) bytes offset) s) (log @ ?bs) lev pos b (w\<lparr>wr_write := Some (ps, bytes, offset, True)\<rparr>)"
    unfolding ex by (rule at_inv_update [OF _ nq _ _ _ up]) (use core in \<open>simp_all add: core_def\<close>)
  moreover have "ckpt_ok (exec (disk_write (wr_disk w) bytes offset) s) (log @ ?bs) pos b (w\<lparr>wr_write := Some (ps, bytes, offset, True)\<rparr>)"
    unfolding ex by (rule ckpt_ok_update [of s log pos b w, OF _ pb]) (use core in \<open>simp_all add: core_def\<close>)
  moreover have "flight (log @ ?bs) pos b n (wr_machine w) (Some (ps, bytes, offset, True)) (wr_next_lsn w) (dk_offset (wr_disk w))"
    using f whole acc by (auto simp: flight_def)
  ultimately show ?thesis using core f by (auto simp: core_def applied_def syncs_def)
qed

lemma sync_effect_core:
  assumes core: "core s log lev pos b n w" and sy: "wr_sync w = Some (lsns, False)"
  shows "core (exec (disk_sync (wr_disk w)) s) log (length log) pos b n (w\<lparr>wr_sync := Some (lsns, True)\<rparr>)"
proof -
  let ?n = "JournalFile (of_nat b)"
  have nq: "\<not> quiet w" using sy by (simp add: quiet_def)
  obtain K where at: "fs_at s log lev pos b K" by (rule core_fs_at [OF core nq])
  have pb: "pos b \<le> length log" using at by (simp add: fs_at_def)
  have ex: "exec (disk_sync (wr_disk w)) s = update_file s ?n (\<lambda>f. synced (fo_content f))"
    by (simp add: disk_sync_def core_log_name [OF core])
  have up: "fs_at (update_file x ?n (\<lambda>f. synced (fo_content f))) log (length log) pos b K" if "fs_at x log lev pos b K" for x K
    using fs_at_sync [OF that order_refl] by simp
  have "at_inv (exec (disk_sync (wr_disk w)) s) log (length log) pos b (w\<lparr>wr_sync := Some (lsns, True)\<rparr>)"
    unfolding ex by (rule at_inv_update [OF _ nq _ _ _ up]) (use core in \<open>simp_all add: core_def\<close>)
  moreover have "ckpt_ok (exec (disk_sync (wr_disk w)) s) log pos b (w\<lparr>wr_sync := Some (lsns, True)\<rparr>)"
    unfolding ex by (rule ckpt_ok_update [of s log pos b w _ _ "[]", OF _ pb, simplified]) (use core in \<open>simp_all add: core_def\<close>)
  moreover have "n \<le> length log" using core by (simp add: core_def applied_def)
  ultimately show ?thesis using core sy by (auto simp: core_def applied_def syncs_def intro: order_trans)
qed

lemma checkpoint_op_core:
  assumes core: "core s log lev pos b n w" and ck: "wr_checkpoint w = Some (op # ops, rs)"
  shows "core (fs_step s op) log lev pos b n (w\<lparr>wr_checkpoint := Some (ops, rs)\<rparr>)"
proof -
  let ?w = "w\<lparr>wr_checkpoint := Some (ops, rs)\<rparr>"
  have ckpt: "op_names op \<union> ops_names ops \<subseteq> {SnapshotTmp, SnapshotFile (of_nat b)}" "\<And>sn. rs = Inr sn \<Longrightarrow> snap_ready (exec ops (fs_step s op)) log pos b sn"
    using core ck by (auto simp: core_def ckpt_ok_def)
  have run: "running (fs_step s op) log lev pos b ?w" if r: "running s log lev pos b w"
  proof -
    obtain a where a: "run_fs s log lev pos (dk_current (wr_disk w)) a b" "a < b" using r ck by (auto simp: running_def)
    have "b < 2 ^ 64" using a(1) set_okD(4) supported_set_ok unfolding run_fs_def good_def by blast
    then have "(of_nat b :: u64) \<noteq> of_nat a" using of_nat_u64_inject [of b a] a(2) by simp
    then have "files a b \<inter> op_names op = {}" "CurrentFile \<notin> op_names op" using ckpt(1) by (auto simp: files_def)
    then show ?thesis using run_fs_step [OF a(1)] a(2) r by (auto simp: running_def)
  qed
  have "at_inv (fs_step s op) log lev pos b ?w" using core ck run by (auto simp: core_def at_inv_def quiet_def split: at.splits)
  moreover have "ckpt_ok (fs_step s op) log pos b ?w" using ckpt by (simp add: ckpt_ok_def)
  ultimately show ?thesis using core by (simp add: core_def applied_def syncs_def)
qed

subsection \<open>The top of the loop and the operations it waits for\<close>

lemma start_sync_core:
  assumes "core s log lev pos b n w" "wr_at w = Top"
  shows "core s log lev pos b n (start_sync w)" "wr_at (start_sync w) = Top"
  using assms by (auto simp: start_sync_def core_def applied_def syncs_def ckpt_ok_def at_inv_def)

lemma coalesce_core:
  assumes "core s log lev pos b n w" "wr_at w = Top"
  shows "core s log lev pos b n (coalesce_checkpoint w)" "wr_at (coalesce_checkpoint w) = Top"
  using assms by (simp_all add: coalesce_checkpoint_def)

lemma finish_top_core:
  assumes "core s log lev pos b n w" "running s log lev pos b w"
  shows "core s log lev pos b n (finish_top w)"
  unfolding finish_top_def using core_at [OF assms] by simp

lemma rotate_core:
  assumes core: "core s log lev pos b n w" and run: "running s log lev pos b w" and q: "quiet w"
    and "mc_snapshot M (wr_machine w) = Inr items" "rotate xxh (wr_disk w) = (ops, r)"
  shows "core s log lev (pos(Suc b := length log)) b n (w\<lparr>wr_at := AwaitRotate ops r items\<rparr>)"
proof -
  let ?pos = "pos(Suc b := length log)"
  obtain a where a: "run_fs s log lev pos (dk_current (wr_disk w)) a b" "cu_garbage (dk_current (wr_disk w)) = []"
    using run by (auto simp: running_def)
  note rot = rotate_safe [OF a assms(5)]
  have ab: "a \<le> b" using a(1) set_okD(3) supported_set_ok unfolding run_fs_def good_def by blast
  have "rotating s log lev ?pos b (wr_disk w) ops r"
    unfolding rotating_def
  proof (intro conjI allI impI)
    fix d' g
    assume "r = Inr (d', g)"
    from rot(2) [OF this] show "g = of_nat (Suc b)"
      "\<exists>c a. d' = (wr_disk w)\<lparr>dk_current := c, dk_offset := 0\<rparr> \<and> cu_garbage c = [] \<and> a \<le> b \<and> run_fs (exec ops s) log lev ?pos c a (Suc b)"
      using a(2) ab by (auto intro!: exI [of _ "rotated (dk_current (wr_disk w)) b"] exI [of _ a] simp: rotated_def)
  qed (use rot(1) in simp_all)
  then have "at_inv s log lev ?pos b (w\<lparr>wr_at := AwaitRotate ops r items\<rparr>)" using q assms(4) by (simp add: at_inv_def quiet_def)
  moreover have "whole_log log ?pos b = whole_log log pos b" by (simp add: whole_log_def)
  ultimately show ?thesis using core q by (auto simp: core_def applied_def syncs_def ckpt_ok_def quiet_def flight_def)
qed

lemma loop_top_core:
  assumes "core s log lev pos b n w" "wr_at w = Top"
  shows "\<exists>pos'. core s log lev pos' b n (loop_top xxh M checkpoint_bytes w)"
proof -
  define v where "v = start_sync (coalesce_checkpoint w)"
  have c: "core s log lev pos b n v" "wr_at v = Top" unfolding v_def
    using start_sync_core [OF coalesce_core [OF assms]] by simp_all
  have run: "running s log lev pos b v" using core_running [OF c(1)] c(2) by simp
  show ?thesis
  proof (cases "wr_write v = None \<and> wr_sync v = None")
    case False
    then show ?thesis using finish_top_core [OF c(1) run] unfolding loop_top_def Let_def v_def by auto
  next
    case nf: True
    consider (query) "wr_barrier v = Some Query"
      | (rotation) "wr_barrier v \<noteq> Some Query" "wr_checkpoint v = None" "wr_pending_checkpoint v \<or> dk_offset (wr_disk v) \<ge> checkpoint_bytes"
      | (idle) "wr_barrier v \<noteq> Some Query" "\<not> (wr_checkpoint v = None \<and> (wr_pending_checkpoint v \<or> dk_offset (wr_disk v) \<ge> checkpoint_bytes))"
      by metis
    then show ?thesis
    proof cases
      case query
      then have "loop_top xxh M checkpoint_bytes w = v\<lparr>wr_at := AwaitQuery (disk_sync (wr_disk v))\<rparr>"
        using nf unfolding loop_top_def Let_def v_def by simp
      moreover have "core s log lev pos b n (v\<lparr>wr_at := AwaitQuery (disk_sync (wr_disk v))\<rparr>)"
        using c run core_log_name [OF c(1)] by (simp add: core_def applied_def syncs_def ckpt_ok_def at_inv_def disk_sync_def)
      ultimately show ?thesis by auto
    next
      case rotation
      obtain ops r where rot: "rotate xxh (wr_disk v) = (ops, r)" by fastforce
      show ?thesis
      proof (cases "mc_snapshot M (wr_machine v)")
        case (Inl e)
        then have "loop_top xxh M checkpoint_bytes w = v\<lparr>wr_at := Stopped\<rparr>"
          using nf rotation unfolding loop_top_def Let_def v_def by auto
        then show ?thesis using core_at [OF c(1) run, of Stopped] by auto
      next
        case (Inr items)
        then have "loop_top xxh M checkpoint_bytes w = v\<lparr>wr_at := AwaitRotate ops r items\<rparr>"
          using nf rotation rot unfolding loop_top_def Let_def v_def by auto
        then show ?thesis using rotate_core [OF c(1) run _ Inr rot] nf rotation(2) by (auto simp: quiet_def)
      qed
    next
      case idle
      then have "loop_top xxh M checkpoint_bytes w = finish_top v"
        using nf unfolding loop_top_def Let_def v_def by auto
      then show ?thesis using finish_top_core [OF c(1) run] by auto
    qed
  qed
qed

lemma query_op_core:
  assumes "core s log lev pos b n w" "wr_at w = AwaitQuery (op # ops)"
  shows "core (fs_step s op) log lev pos b n (w\<lparr>wr_at := AwaitQuery ops\<rparr>)"
proof -
  let ?n = "JournalFile (of_nat b)"
  have op: "op = SyncFile ?n" "ops = []" and run: "running s log lev pos b w" and ck: "ckpt_ok s log pos b w"
    using assms by (simp_all add: core_def at_inv_def)
  obtain a where a: "run_fs s log lev pos (dk_current (wr_disk w)) a b" "wr_checkpoint w \<noteq> None \<longrightarrow> a < b"
    using run by (auto simp: running_def)
  have "lev \<le> length log" "pos b \<le> length log" using run_fs_at [OF a(1)] by (simp_all add: fs_at_def good_def)
  then have "running (fs_step s op) log lev pos b w" "ckpt_ok (fs_step s op) log pos b w"
    using run_fs_sync [OF a(1)] a(2) run ckpt_ok_update [OF ck, of "w" _ "[]"] unfolding op running_def by auto
  then show ?thesis using assms(1) op(2) by (simp add: core_def applied_def syncs_def ckpt_ok_def at_inv_def)
qed

lemma rotate_op_core:
  assumes "core s log lev pos b n w" "wr_at w = AwaitRotate (op # ops) r items"
  shows "core (fs_step s op) log lev pos b n (w\<lparr>wr_at := AwaitRotate ops r items\<rparr>)"
  using assms by (auto simp: core_def applied_def syncs_def ckpt_ok_def at_inv_def quiet_def rotating_def)

lemma publish_op_core:
  assumes "core s log lev pos b n w" "wr_at w = AwaitPublish (op # ops) rd"
  shows "core (fs_step s op) log lev pos b n (w\<lparr>wr_at := AwaitPublish ops rd\<rparr>)"
  using assms by (auto simp: core_def applied_def syncs_def ckpt_ok_def at_inv_def publishing_def)

lemma last_of_run: "run_fs s log lev pos c a b \<Longrightarrow> last (cu_logs c) = of_nat b"
  using last_logs supported_set_ok unfolding run_fs_def good_def by blast

lemma rotated_core:
  assumes core: "core s log lev pos b n w" and at: "wr_at w = AwaitRotate [] (Inr (d, g)) items"
  shows "core s log lev pos (Suc b) n (w\<lparr>wr_disk := d, wr_at := Stopped\<rparr>)"
    and "disk_snapshot xxh g (dk_lsn d) items = Some (ops, r) \<Longrightarrow>
      core s log lev pos (Suc b) n (finish_top (w\<lparr>wr_disk := d, wr_checkpoint := Some (ops, r), wr_pending_checkpoint := False\<rparr>))"
proof -
  have c: "applied log n w" "flight log pos b n (wr_machine w) (wr_write w) (wr_next_lsn w) (dk_offset (wr_disk w))" "syncs lev n w"
    "queue_ok (wr_queue w)" "quiet w" "mc_snapshot M (wr_machine w) = Inr items" "rotating s log lev pos b (wr_disk w) [] (Inr (d, g))"
    using core at by (simp_all add: core_def at_inv_def)
  obtain c' a where r: "pos (Suc b) = length log" "g = of_nat (Suc b)" "d = (wr_disk w)\<lparr>dk_current := c', dk_offset := 0\<rparr>"
    "cu_garbage c' = []" "a \<le> b" "run_fs s log lev pos c' a (Suc b)"
    using c(7) by (auto simp: rotating_def)
  have n: "n = length log" "wr_next_lsn w = of_nat n" using c(2,5) by (simp_all add: flight_def quiet_def)
  have dl: "dk_lsn d = of_nat (pos (Suc b))" using c(1) r(1,3) n by (simp add: applied_def)
  let ?w = "w\<lparr>wr_disk := d\<rparr>"
  have base: "last (cu_logs (dk_current d)) = of_nat (Suc b)" "applied log n ?w"
    "flight log pos (Suc b) n (wr_machine w) (wr_write ?w) (wr_next_lsn ?w) (dk_offset d)" "syncs lev n ?w"
    using c(1,3,5) r(1,3) n last_of_run [OF r(6)] by (simp_all add: applied_def flight_def syncs_def quiet_def whole_log_def slice_def del: of_nat_Suc)
  show "core s log lev pos (Suc b) n (w\<lparr>wr_disk := d, wr_at := Stopped\<rparr>)"
    using base c(4,5) r(3,4,6)
    by (auto simp: core_def applied_def syncs_def ckpt_ok_def at_inv_def running_def quiet_def simp del: of_nat_Suc)
  assume sn: "disk_snapshot xxh g (dk_lsn d) items = Some (ops, r)"
  let ?v = "w\<lparr>wr_disk := d, wr_checkpoint := Some (ops, r), wr_pending_checkpoint := False\<rparr>"
  obtain mk where mk: "replay M 0 (take (pos (Suc b)) log) m0 = Inr mk" "sim mk (wr_machine w)" "ok (wr_machine w)"
    using c(1) n r(1) by (auto simp: applied_def)
  note snap = disk_snapshot_ready [where b = "Suc b" and pos = pos, OF sn [unfolded r(2) dl] c(6) mk(3,1,2)]
  have "ckpt_ok s log pos (Suc b) ?v" using snap by (auto simp: ckpt_ok_def simp del: of_nat_Suc)
  moreover have run: "running s log lev pos (Suc b) ?v" using r(3-6) by (auto simp: running_def simp del: of_nat_Suc)
  ultimately have "core s log lev pos (Suc b) n (?v\<lparr>wr_at := x\<rparr>)" if "x \<in> {Select, Stopped}" for x
    using that base c(4) by (auto simp: core_def applied_def syncs_def ckpt_ok_def at_inv_def simp del: of_nat_Suc)
  then show "core s log lev pos (Suc b) n (finish_top ?v)" unfolding finish_top_def by simp
qed

lemma after_await_core:
  assumes core: "core s log lev pos b n w" and at: "wr_at w \<in> {AwaitQuery [], AwaitRotate [] r items, AwaitPublish [] rd}"
  shows "\<exists>b'. core s log lev pos b' n (after_await xxh w)"
proof -
  consider "wr_at w = AwaitQuery []" | e where "wr_at w = AwaitRotate [] r items" "r = Inl e"
    | d g where "wr_at w = AwaitRotate [] r items" "r = Inr (d, g)" | "wr_at w = AwaitPublish [] rd"
    using at by (cases r) auto
  then show ?thesis
  proof cases
    case 1
    let ?w = "w\<lparr>wr_barrier := None\<rparr>"
    have run: "running s log lev pos b w" using core 1 by (simp add: core_def at_inv_def)
    then have "core s log lev pos b n (finish_top ?w)" using finish_top_core [OF core_fields(1) [OF core]] by simp
    then show ?thesis using 1 by (auto simp: after_await_def)
  next
    case 2
    have "quiet w" "some_good log lev pos s" using core 2 by (simp_all add: core_def at_inv_def rotating_def)
    then have "core s log lev pos b n (w\<lparr>wr_at := Stopped\<rparr>)"
      using core by (simp add: core_def applied_def syncs_def ckpt_ok_def at_inv_def quiet_def)
    then show ?thesis using 2 by (auto simp: after_await_def)
  next
    case 3
    note rc = rotated_core [OF core 3(1) [unfolded 3(2)]]
    show ?thesis
    proof (cases "disk_snapshot xxh g (dk_lsn d) items")
      case None
      then show ?thesis using 3 rc(1) by (auto simp: after_await_def)
    next
      case (Some c)
      then show ?thesis using 3 rc(2) [of "fst c" "snd c"] by (auto simp: after_await_def)
    qed
  next
    case 4
    obtain c where c: "rd = Inr ((wr_disk w)\<lparr>dk_current := c\<rparr>)" "cu_garbage c = []" "run_fs s log lev pos c b b" "wr_checkpoint w = None"
      using core 4 by (auto simp: core_def at_inv_def publishing_def)
    then have "core s log lev pos b n (w\<lparr>wr_disk := (wr_disk w)\<lparr>dk_current := c\<rparr>, wr_at := Top\<rparr>)"
      using core last_of_run [OF c(3)] by (auto simp: core_def applied_def syncs_def ckpt_ok_def at_inv_def running_def)
    then show ?thesis using 4 c(1) by (auto simp: after_await_def)
  qed
qed

subsection \<open>The branches of the selection\<close>

lemma sync_done_core:
  assumes "core s log lev pos b n w" "wr_at w = Select" "wr_sync w = Some (lsns, True)"
  shows "core s log lev pos b n (w\<lparr>wr_sync := None, wr_at := Top\<rparr>)" "\<forall>l \<in> set lsns. unat l \<le> lev"
  using assms by (auto simp: core_def applied_def syncs_def ckpt_ok_def at_inv_def)

lemma checkpoint_failed_core:
  assumes "core s log lev pos b n w" "wr_at w = Select"
  shows "core s log lev pos b n (w\<lparr>wr_checkpoint := None, wr_at := Stopped\<rparr>)"
  using assms by (auto simp: core_def applied_def syncs_def ckpt_ok_def at_inv_def running_def)

lemma checkpoint_done_core:
  assumes core: "core s log lev pos b n w" and at: "wr_at w = Select" and ck: "wr_checkpoint w = Some ([], Inr sn)"
    and pub: "publish_snapshot xxh (wr_disk w) sn = (ops, rd)"
  shows "core s log lev pos b n (w\<lparr>wr_checkpoint := None, wr_at := AwaitPublish ops rd\<rparr>)"
proof -
  obtain a where a: "run_fs s log lev pos (dk_current (wr_disk w)) a b" "a < b" "cu_garbage (dk_current (wr_disk w)) = []"
    using core at ck by (auto simp: core_def at_inv_def running_def)
  have "snap_ready s log pos b sn" using core ck by (simp add: core_def ckpt_ok_def)
  note p = publish_snapshot_safe [OF a this pub]
  have "publishing s log lev pos b (wr_disk w) ops rd" unfolding publishing_def using p by blast
  then show ?thesis using core by (simp add: core_def applied_def syncs_def ckpt_ok_def at_inv_def)
qed

lemma pending_ok_snoc:
  "pending_ok n (ps @ [p]) \<longleftrightarrow>
     pending_ok n ps \<and> pd_lsn p = of_nat (n + length (ps @ [p])) \<and> mc_valid M (pd_record p) \<and> mc_encode M (pd_record p) = Inr (pd_bytes p)"
  by (auto simp: pending_ok_def number_append)

lemma apply_pending_ok:
  assumes "pending_ok n ps" "accepts M (wr_machine w) ps" "replay M n (map pd_bytes ps) mk = Inr mk'" "ok mk" "ok (wr_machine w)" "sim mk (wr_machine w)"
    "n + length ps < 2 ^ 64" "dk_lsn (wr_disk w) = of_nat n"
  shows "\<exists>m' ds. apply_pending M ps w = w\<lparr>wr_machine := m', wr_disk := (wr_disk w)\<lparr>dk_lsn := of_nat (n + length ps)\<rparr>,
      wr_durable := wr_durable w @ ds, wr_at := Top\<rparr> \<and> ok m' \<and> sim mk' m' \<and> (\<forall>l \<in> set ds. unat l \<le> n + length ps)"
  using assms
proof (induction ps arbitrary: n mk w)
  case Nil
  then show ?case by (intro exI [of _ "wr_machine w"] exI [of _ "[]"]) (cases w; cases "wr_disk w"; simp)
next
  case (Cons p ps)
  let ?l = "of_nat (Suc n) :: u64"
  have p: "pd_lsn p = ?l" "mc_encode M (pd_record p) = Inr (pd_bytes p)" "pending_ok (Suc n) ps" "mc_valid M (pd_record p)"
    using Cons.prems(1) unfolding pending_ok_Cons by blast+
  obtain m1 where m1: "mc_apply M (wr_machine w) ?l (pd_record p) = Inr m1" "accepts M m1 ps"
    using Cons.prems(2) p(1) by (auto split: sum.splits simp del: of_nat_Suc)
  have "mc_decode M (pd_bytes p) = Inr (pd_record p)" by (rule decode_encode [OF Cons.prems(5) p(4) m1(1) p(2)])
  then obtain mk1 where r: "mc_apply M mk ?l (pd_record p) = Inr mk1" "replay M (Suc n) (map pd_bytes ps) mk1 = Inr mk'"
    using Cons.prems(3) by (auto split: sum.splits simp del: of_nat_Suc)
  have sim1: "sim mk1 m1" using sim_apply [OF p(4) Cons.prems(4,5,6) r(1)] m1(1) by auto
  have oks: "ok mk1" "ok m1" using ok_apply [OF _ p(4)] Cons.prems(4,5) r(1) m1(1) by blast+
  let ?ds = "if pd_ack p = Durable then [?l] else []"
  let ?w = "w\<lparr>wr_machine := m1, wr_disk := (wr_disk w)\<lparr>dk_lsn := ?l\<rparr>, wr_durable := wr_durable w @ ?ds\<rparr>"
  from Cons.IH [OF p(3) _ r(2) oks(1), of ?w] obtain m' ds where
    ih: "apply_pending M ps ?w = ?w\<lparr>wr_machine := m', wr_disk := (wr_disk ?w)\<lparr>dk_lsn := of_nat (Suc n + length ps)\<rparr>,
      wr_durable := wr_durable ?w @ ds, wr_at := Top\<rparr>" "ok m'" "sim mk' m'" "\<forall>l \<in> set ds. unat l \<le> Suc n + length ps"
    using oks m1(2) sim1 Cons.prems(7) by (auto simp del: of_nat_Suc)
  have "apply_pending M (p # ps) w = apply_pending M ps ?w"
    unfolding apply_pending.simps p(1) m1(1) sum.case ..
  moreover have "unat ?l = Suc n" using Cons.prems(7) by (intro unat_of_nat_u64) simp
  ultimately show ?case using ih
    by (intro exI [of _ m'] exI [of _ "?ds @ ds"]) (auto simp del: of_nat_Suc apply_pending.simps)
qed

lemma write_done_core:
  assumes core: "core s log lev pos b n w" and at: "wr_at w = Select" and wr: "wr_write w = Some (ps, bytes, offset, True)"
  shows "core s log lev pos b (length log) (apply_pending M ps (w\<lparr>wr_write := None\<rparr>))"
proof -
  have c: "applied log n w" "flight log pos b n (wr_machine w) (wr_write w) (wr_next_lsn w) (dk_offset (wr_disk w))" "syncs lev n w"
    "running s log lev pos b w" using core at by (simp_all add: core_def at_inv_def)
  have f: "pending_ok n ps" "wr_next_lsn w = of_nat (n + length ps)" "n + length ps < 2 ^ 64" "drop n log = map pd_bytes ps" "accepts M (wr_machine w) ps"
    "dk_offset (wr_disk w) = of_nat (length (whole_log log pos b))" using c(2) wr by (simp_all add: flight_def)
  have n: "n \<le> length log" "dk_lsn (wr_disk w) = of_nat n" using c(1) by (simp_all add: applied_def)
  have len: "n + length ps = length log" using arg_cong [OF f(4), of length] n(1) by simp
  obtain mk where mk: "replay M 0 (take n log) m0 = Inr mk" "sim mk (wr_machine w)" "ok (wr_machine w)" using c(1) by (auto simp: applied_def)
  have "log_ok log" using c(4) by (auto simp: running_def run_fs_def good_def)
  then obtain mk' where mk': "replay M 0 log m0 = Inr mk'" by (cases "replay M 0 log m0") (simp_all add: log_ok_def)
  then have "replay M n (map pd_bytes ps) mk = Inr mk'"
    using replay_append_Inr [of M 0 "take n log" "drop n log" m0 mk', unfolded append_take_drop_id] mk(1) n(1) f(4) by simp
  from apply_pending_ok [OF f(1) _ this replay_ok [OF mk(1) ok_init], of "w\<lparr>wr_write := None\<rparr>"] mk(2,3) f(3,5) n(2) obtain m' ds where
    a: "apply_pending M ps (w\<lparr>wr_write := None\<rparr>) = w\<lparr>wr_write := None, wr_machine := m',
      wr_disk := (wr_disk w)\<lparr>dk_lsn := of_nat (length log)\<rparr>, wr_durable := wr_durable w @ ds, wr_at := Top\<rparr>"
    "ok m'" "sim mk' m'" "\<forall>l \<in> set ds. unat l \<le> length log" by (auto simp: len)
  let ?w = "w\<lparr>wr_write := None, wr_machine := m', wr_disk := (wr_disk w)\<lparr>dk_lsn := of_nat (length log)\<rparr>, wr_durable := wr_durable w @ ds, wr_at := Top\<rparr>"
  have "unat l \<le> n \<Longrightarrow> unat l \<le> length log" for l :: u64 using n(1) by simp
  then have "syncs lev (length log) ?w" using c(3) a(4) by (auto simp: syncs_def)
  moreover have "at_inv s log lev pos b ?w" using c(4) by (simp add: at_inv_def running_def)
  moreover have "flight log pos b (length log) m' None (wr_next_lsn w) (dk_offset (wr_disk w))" using f(2,6) len by (simp add: flight_def)
  ultimately show ?thesis unfolding a(1) using core a(2,3) mk' by (simp add: core_def applied_def ckpt_ok_def)
qed

definition batch_ok :: "nat \<Rightarrow> 'r pending list \<Rightarrow> byte list \<Rightarrow> bool" where
  "batch_ok n ps bytes \<longleftrightarrow> pending_ok n ps \<and> bytes = log_frames xxh n (map pd_bytes ps) \<and>
     list_all (\<lambda>p. length (pd_bytes p) \<le> MAX_RECORD) ps \<and> n + length ps < 2 ^ 64"

lemma batch_step:
  assumes "batch_loop xxh rc body ak queue (of_nat (n + length ps)) bytes ps = Inr out" "mc_valid M rc \<and> mc_encode M rc = Inr body" "batch_ok n ps bytes"
  obtains ps1 bytes1 where "batch_ok n ps1 bytes1"
    "out = (of_nat (n + length ps1), bytes1, ps1, queue, None) \<or>
     (case queue of [] \<Rightarrow> False | Append r c k # q \<Rightarrow> batch_loop xxh r c k q (of_nat (n + length ps1)) bytes1 ps1 = Inr out
      | cmd # q \<Rightarrow> out = (of_nat (n + length ps1), bytes1, ps1, q, Some cmd))"
proof -
  let ?k = "n + length ps"
  have lt: "Suc ?k < 2 ^ 64"
  proof (rule ccontr)
    assume "\<not> Suc ?k < 2 ^ 64"
    moreover have "unat (of_nat ?k :: u64) = ?k" using assms(3) by (intro unat_of_nat_u64) (simp add: batch_ok_def)
    ultimately have "checked_add (of_nat ?k :: u64) 1 = None" by (simp add: checked_add_def)
    then show False using assms(1) by (simp add: batch_loop.simps)
  qed
  let ?l = "of_nat (Suc ?k) :: u64" and ?f = "frame_bytes xxh (of_nat (Suc ?k), body)"
  let ?ps = "ps @ [\<lparr>pd_lsn = ?l, pd_record = rc, pd_bytes = body, pd_ack = ak\<rparr>]"
  note step = assms(1) [unfolded batch_loop.simps [of _ _ _ _ queue] checked_add_of_nat [OF lt] option.case frame_encode_bytes]
  have len: "length body \<le> MAX_RECORD" using step by (simp split: if_splits)
  have ok: "batch_ok n ?ps (bytes @ ?f)"
    using assms(2,3) lt len unfolding batch_ok_def pending_ok_snoc by (simp add: log_frames_append log_frames_Cons)
  note step' = step [unfolded if_P [OF len] sum.case Let_def]
  have l: "n + length ?ps = Suc ?k" by simp
  show thesis
  proof (rule that [OF ok, unfolded l], cases "256 \<le> length ?ps \<or> 262144 \<le> length (bytes @ ?f)")
    case True
    then show "out = (?l, bytes @ ?f, ?ps, queue, None) \<or>
      (case queue of [] \<Rightarrow> False | Append r c k # q \<Rightarrow> batch_loop xxh r c k q ?l (bytes @ ?f) ?ps = Inr out
       | cmd # q \<Rightarrow> out = (?l, bytes @ ?f, ?ps, q, Some cmd))"
      using step' [unfolded if_P [OF True]] by (intro disjI1) (rule sym, rule sum.inject(2) [THEN iffD1])
  next
    case False
    note st = step' [unfolded if_not_P [OF False]]
    then show "out = (?l, bytes @ ?f, ?ps, queue, None) \<or>
      (case queue of [] \<Rightarrow> False | Append r c k # q \<Rightarrow> batch_loop xxh r c k q ?l (bytes @ ?f) ?ps = Inr out
       | cmd # q \<Rightarrow> out = (?l, bytes @ ?f, ?ps, q, Some cmd))"
    proof (cases queue)
      case (Cons cmd q)
      show ?thesis using st unfolding Cons list.case by (cases cmd) (simp_all only: command.case sum.inject, auto)
    qed (use st in auto)
  qed
qed

lemma batch_loop_ok:
  assumes "batch_loop xxh rc body ak queue (of_nat (n + length ps)) bytes ps = Inr (lsn, bytes', ps', queue', barrier)"
    "mc_valid M rc \<and> mc_encode M rc = Inr body" "queue_ok queue" "batch_ok n ps bytes"
  shows "lsn = of_nat (n + length ps') \<and> batch_ok n ps' bytes' \<and> queue_ok queue'"
  using assms
proof (induction queue arbitrary: rc body ak ps bytes)
  case (Nil rc body ak ps bytes)
  show ?case by (rule batch_step [OF Nil.prems(1,2,4)]) (simp add: queue_ok_def)
next
  case (Cons cmd queue rc body ak ps bytes)
  let ?out = "(lsn, bytes', ps', queue', barrier)"
  have q: "queue_ok queue" "\<And>r c k. cmd = Append r c k \<Longrightarrow> mc_valid M r \<and> mc_encode M r = Inr c" using Cons.prems(3) by (auto simp: queue_ok_def)
  show ?case
  proof (rule batch_step [OF Cons.prems(1,2,4)])
    fix ps1 :: "'r pending list" and bytes1
    let ?l = "of_nat (n + length ps1)"
    assume b: "batch_ok n ps1 bytes1"
      "?out = (?l, bytes1, ps1, cmd # queue, None) \<or>
       (case cmd # queue of [] \<Rightarrow> False | Append r c k # q \<Rightarrow> batch_loop xxh r c k q ?l bytes1 ps1 = Inr ?out
        | cmd # q \<Rightarrow> ?out = (?l, bytes1, ps1, q, Some cmd))"
    then consider "?out = (?l, bytes1, ps1, cmd # queue, None)"
      | r c k where "cmd = Append r c k" "batch_loop xxh r c k queue ?l bytes1 ps1 = Inr ?out"
      | "?out = (?l, bytes1, ps1, queue, Some cmd)"
      unfolding list.case by (cases cmd) (simp_all only: command.case, blast+)
    then show ?case
    proof cases
      case 2
      then show ?thesis using Cons.IH [OF _ q(2) q(1) b(1)] by blast
    qed (use b(1) q(1) Cons.prems(3) in simp_all)
  qed
qed

lemma receive_core:
  assumes core: "core s log lev pos b n w" and at: "wr_at w = Select" and wr: "wr_write w = None"
  shows "core s log lev pos b n (receive xxh w)"
proof -
  have c: "applied log n w" "flight log pos b n (wr_machine w) (wr_write w) (wr_next_lsn w) (dk_offset (wr_disk w))" "syncs lev n w" "queue_ok (wr_queue w)"
    "running s log lev pos b w" using core at by (simp_all add: core_def at_inv_def)
  have f: "n = length log" "wr_next_lsn w = of_nat n" "dk_offset (wr_disk w) = of_nat (length (whole_log log pos b))"
    using c(2) wr by (simp_all add: flight_def)
  obtain a where a: "run_fs s log lev pos (dk_current (wr_disk w)) a b" using c(5) by (auto simp: running_def)
  have sup: "supported s log lev pos (dk_current (wr_disk w), a, b)" and lok: "log_ok log" using a by (simp_all add: run_fs_def good_def)
  have fit: "length (whole_log log pos b) < 2 ^ 64" using set_okD(10) [OF supported_set_ok [OF sup]] by (simp add: fits_def whole_log_def)
  have stop: "core s log lev pos b n (w\<lparr>wr_at := Stopped\<rparr>)" by (rule core_at [OF core c(5)]) simp
  show ?thesis
  proof (cases "wr_queue w")
    case Nil
    then show ?thesis using core_at [OF core_fields(3) [OF core], of _ Top] c(5) by (simp add: receive_def)
  next
    case (Cons cmd q)
    have q: "queue_ok q" "\<And>r body k. cmd = Append r body k \<Longrightarrow> mc_valid M r \<and> mc_encode M r = Inr body" using c(4) Cons by (auto simp: queue_ok_def)
    have barrier: "core s log lev pos b n (w\<lparr>wr_queue := q, wr_barrier := Some cmd, wr_at := Top\<rparr>)"
      using core_at [OF core_fields(1) [OF core_fields(4) [OF core q(1)]], of "Some cmd" Top] c(5) by simp
    show ?thesis
    proof (cases "\<exists>r body k. cmd = Append r body k")
      case False
      then show ?thesis using Cons barrier by (cases cmd) (simp_all add: receive_def)
    next
      case True
      then obtain r body k where cmd: "cmd = Append r body k" by blast
      have b0: "batch_ok n [] []" using lok f(1) by (simp add: batch_ok_def pending_ok_def log_ok_def)
      show ?thesis
      proof (cases "batch_loop xxh r body k q (wr_next_lsn w) [] []")
        case (Inl e)
        then show ?thesis using Cons cmd stop by (simp add: receive_def)
      next
        case (Inr out)
        obtain lsn bytes ps q' bar where out: "out = (lsn, bytes, ps, q', bar)" by (cases out)
        have "batch_loop xxh r body k q (of_nat (n + length [])) [] [] = Inr (lsn, bytes, ps, q', bar)" using Inr f(2) out by simp
        from batch_loop_ok [OF this q(2) [OF cmd] q(1) b0] have b: "lsn = of_nat (n + length ps)" "batch_ok n ps bytes" "queue_ok q'" by blast+
        let ?o = "if length bytes < 2 ^ 64 then checked_add (dk_offset (wr_disk w)) (of_nat (length bytes)) else None"
        show ?thesis
        proof (cases ?o)
          case None
          then show ?thesis using Cons cmd stop Inr out by (simp add: receive_def)
        next
          case (Some off)
          have "unat (dk_offset (wr_disk w)) = length (whole_log log pos b)" unfolding f(3) by (rule unat_of_nat_u64 [OF fit])
          moreover have "length bytes < 2 ^ 64" using Some by (simp split: if_splits)
          moreover from this have "unat (of_nat (length bytes) :: u64) = length bytes" by (rule unat_of_nat_u64)
          ultimately have off: "length (whole_log log pos b) + length bytes < 2 ^ 64" "off = of_nat (length (whole_log log pos b) + length bytes)"
            using Some f(3) by (simp_all add: checked_add_def split: if_splits)
          let ?w = "w\<lparr>wr_next_lsn := lsn, wr_queue := q', wr_barrier := bar, wr_disk := (wr_disk w)\<lparr>dk_offset := off\<rparr>,
            wr_write := Some (ps, bytes, dk_offset (wr_disk w), False), wr_at := Top\<rparr>"
          have "flight log pos b n (wr_machine w) (Some (ps, bytes, dk_offset (wr_disk w), False)) lsn off"
            unfolding flight_def using b f(1,3) off by (simp add: batch_ok_def)
          then have "core s log lev pos b n ?w"
            using core c(5) b(3) by (auto simp: core_def applied_def syncs_def ckpt_ok_def at_inv_def running_def)
          then show ?thesis using Cons cmd Inr out Some by (simp add: receive_def Let_def)
        qed
      qed
    qed
  qed
qed

subsection \<open>The invariant of a stream\<close>

lemma opened_core:
  assumes "opening_inv s log lev pos [] d m"
  shows "writer_inv s log lev pos (writer_open d m)"
proof -
  obtain a b where r: "run_fs s log lev pos (dk_current d) a b" "dk_offset d = of_nat (length (whole_log log pos b))"
    using assms by (auto simp: opening_inv_def)
  have "core s log lev pos b (length log) (writer_open d m)"
    using assms r last_of_run [OF r(1)] unfolding opening_inv_def
    by (auto simp: core_def applied_def flight_def syncs_def queue_ok_def ckpt_ok_def at_inv_def running_def writer_open_def)
  then show ?thesis by (auto simp: writer_inv_def)
qed

lemma open_op_core: "opening_inv s log lev pos (op # ops) d m \<Longrightarrow> opening_inv (fs_step s op) log lev pos ops d m"
  by (auto simp: opening_inv_def)

lemma recovered_opening:
  assumes "recovered threads s log lev k" "k \<le> length log" "length log < 2 ^ 64" "journal_recover xxh M threads s m0 = Some (ops, Inr (d, m))"
  shows "unat (dk_lsn d) = k" "\<exists>pos. opening_inv s (take k log) lev pos ops d m"
proof -
  obtain ops' d' m' mk pos a b where r: "journal_recover xxh M threads s m0 = Some (ops', Inr (d', m'))" "dk_lsn d' = of_nat k"
    "replay M 0 (take k log) m0 = Inr mk" "ok m'" "sim mk m'" "safe (some_good (take k log) lev pos) ops' s"
    "run_fs (exec ops' s) (take k log) lev pos (dk_current d') a b" "cu_garbage (dk_current d') = []"
    "dk_offset d' = of_nat (length (log_frames xxh (pos b) (slice (pos b) k log)))"
    using assms(1) unfolding recovered_def by blast
  have e: "ops' = ops" "d' = d" "m' = m" using r(1) assms(4) by simp_all
  show "unat (dk_lsn d) = k" using r(2) assms(2,3) unat_of_nat_u64 [of k] by (simp add: e)
  have "whole_log (take k log) pos b = log_frames xxh (pos b) (slice (pos b) k log)"
    using assms(2) by (simp add: whole_log_def slice_take min_def)
  then have off: "dk_offset d = of_nat (length (whole_log (take k log) pos b))" using r(9) by (simp add: e)
  have "dk_lsn d = of_nat (length (take k log))" using assms(2) r(2) by (simp add: e min_def)
  then have "opening_inv s (take k log) lev pos ops d m"
    unfolding opening_inv_def using r(3-8) off unfolding e by blast
  then show "\<exists>pos. opening_inv s (take k log) lev pos ops d m" by blast
qed

lemma stream_inv_good:
  assumes "stream_inv s"
  obtains pos lev K where "st_acked s \<le> lev" "good (st_fs s) (st_log s) lev pos K"
proof -
  obtain pos lev where "st_acked s \<le> lev" "some_good (st_log s) lev pos (st_fs s)"
    using assms safe_here core_good unfolding stream_inv_def
    by (cases "st_proc s") (fastforce simp: opening_inv_def writer_inv_def)+
  then show thesis using that by (auto simp: some_good_def)
qed

lemma stream_inv_running:
  assumes "stream_inv s" "st_proc s = Running w"
  obtains pos lev b n where "st_acked s \<le> lev" "core (st_fs s) (st_log s) lev pos b n w"
  using assms by (auto simp: stream_inv_def writer_inv_def)

lemma stream_invI:
  "core (st_fs s) (st_log s) lev pos b n w \<Longrightarrow> st_proc s = Running w \<Longrightarrow> st_acked s \<le> lev \<Longrightarrow> stream_inv s"
  by (auto simp: stream_inv_def writer_inv_def)

lemma core_queue: "core s log lev pos b n w \<Longrightarrow> queue_ok (wr_queue w)"
  by (simp add: core_def)

lemma handle_append_encodes:
  "handle_append M max_record max_bytes r a = Inr cmd \<Longrightarrow> \<exists>bytes. cmd = Append r bytes a \<and> mc_encode M r = Inr bytes"
  by (auto simp: handle_append_def split: sum.splits if_splits)

lemma stream_inv_init: "stream_inv stream_init"
proof -
  have "good (st_fs stream_init) [] 0 (\<lambda>_. 0) {}"
    by (simp add: good_def covers_def log_ok_def bindings_def fs_of_image_def stream_init_def)
  then show ?thesis unfolding stream_inv_def by (auto simp: stream_init_def some_good_def)
qed

lemma stream_inv_step:
  assumes "stream_step xxh M m0 threads checkpoint_bytes s s'" "stream_inv s" "clients_ok M s"
  shows "stream_inv s'"
  using assms
proof (induction rule: stream_step.induct)
  case (reopen s img ops d m)
  obtain pos lev K where g: "st_acked s \<le> lev" "good (st_fs s) (st_log s) lev pos K" using reopen.prems(1) by (rule stream_inv_good)
  obtain k where k: "lev \<le> k" "k \<le> length (st_log s)" "recovered threads (fs_of_image img) (st_log s) lev k"
    using recover_ok [OF g(2) reopen.hyps(1)] by blast
  have "length (st_log s) < 2 ^ 64" using g(2) by (simp add: good_def log_ok_def)
  note o = recovered_opening [OF k(3,2) this reopen.hyps(2)]
  then show ?case using g(1) by (auto simp: stream_inv_def)
next
  case (open_op s op ops d m)
  then show ?case unfolding stream_inv_def by (auto dest: open_op_core)
next
  case (opened s d m)
  then show ?case unfolding stream_inv_def by (auto dest: opened_core)
next
  case (submit s w max_record max_bytes r a cmd)
  obtain pos lev b n where c: "st_acked s \<le> lev" "core (st_fs s) (st_log s) lev pos b n w"
    using submit.prems(1) submit.hyps(1) by (rule stream_inv_running)
  have "queue_ok (wr_queue w @ [cmd])"
    using core_queue [OF c(2)] submit.hyps(2) handle_append_encodes by (fastforce simp: queue_ok_def)
  from core_fields(4) [OF c(2) this] show ?case using c(1) by (intro stream_invI [where lev = lev]) simp_all
next
  case (poison s w)
  obtain pos lev b n where c: "st_acked s \<le> lev" "core (st_fs s) (st_log s) lev pos b n w"
    using poison.prems(1) poison.hyps(1) by (rule stream_inv_running)
  have "core (st_fs s) (st_log s) lev pos b n (w\<lparr>wr_at := Stopped\<rparr>)"
    using core_at [OF c(2) core_running [OF c(2)]] poison.hyps(2) by simp
  then show ?case using c(1) by (intro stream_invI [where lev = lev]) simp_all
next
  case (top s w)
  obtain pos lev b n where c: "st_acked s \<le> lev" "core (st_fs s) (st_log s) lev pos b n w"
    using top.prems(1) top.hyps(1) by (rule stream_inv_running)
  obtain pos' where "core (st_fs s) (st_log s) lev pos' b n (loop_top xxh M checkpoint_bytes w)" using loop_top_core [OF c(2) top.hyps(2)] by blast
  then show ?case using c(1) by (intro stream_invI [where lev = lev]) simp_all
next
  case (query_op s w op ops)
  obtain pos lev b n where c: "st_acked s \<le> lev" "core (st_fs s) (st_log s) lev pos b n w"
    using query_op.prems(1) query_op.hyps(1) by (rule stream_inv_running)
  from query_op_core [OF c(2) query_op.hyps(2)] show ?case using c(1) by (intro stream_invI [where lev = lev]) simp_all
next
  case (rotate_op s w op ops r items)
  obtain pos lev b n where c: "st_acked s \<le> lev" "core (st_fs s) (st_log s) lev pos b n w"
    using rotate_op.prems(1) rotate_op.hyps(1) by (rule stream_inv_running)
  from rotate_op_core [OF c(2) rotate_op.hyps(2)] show ?case using c(1) by (intro stream_invI [where lev = lev]) simp_all
next
  case (publish_op s w op ops rd)
  obtain pos lev b n where c: "st_acked s \<le> lev" "core (st_fs s) (st_log s) lev pos b n w"
    using publish_op.prems(1) publish_op.hyps(1) by (rule stream_inv_running)
  from publish_op_core [OF c(2) publish_op.hyps(2)] show ?case using c(1) by (intro stream_invI [where lev = lev]) simp_all
next
  case (awaited s w r items rd)
  obtain pos lev b n where c: "st_acked s \<le> lev" "core (st_fs s) (st_log s) lev pos b n w"
    using awaited.prems(1) awaited.hyps(1) by (rule stream_inv_running)
  obtain b' where "core (st_fs s) (st_log s) lev pos b' n (after_await xxh w)" using after_await_core [OF c(2) awaited.hyps(2)] by blast
  then show ?case using c(1) by (intro stream_invI [where lev = lev]) simp_all
next
  case (write_effect s w ps bytes offset)
  obtain pos lev b n where c: "st_acked s \<le> lev" "core (st_fs s) (st_log s) lev pos b n w"
    using write_effect.prems(1) write_effect.hyps(1) by (rule stream_inv_running)
  have "accepts M (wr_machine w) ps" using write_effect.prems(2) write_effect.hyps by (simp add: clients_ok_def)
  from write_effect_core [OF c(2) write_effect.hyps(2) this] show ?case using c(1) by (intro stream_invI [where lev = lev]) simp_all
next
  case (sync_effect s w lsns)
  obtain pos lev b n where c: "st_acked s \<le> lev" "core (st_fs s) (st_log s) lev pos b n w"
    using sync_effect.prems(1) sync_effect.hyps(1) by (rule stream_inv_running)
  obtain pos' K where "good (st_fs s) (st_log s) lev pos' K" using core_good [OF c(2)] by (auto simp: some_good_def)
  then have "st_acked s \<le> length (st_log s)" using c(1) by (simp add: good_def)
  with sync_effect_core [OF c(2) sync_effect.hyps(2)] show ?case by (intro stream_invI [where lev = "length (st_log s)"]) simp_all
next
  case (checkpoint_op s w op ops rs)
  obtain pos lev b n where c: "st_acked s \<le> lev" "core (st_fs s) (st_log s) lev pos b n w"
    using checkpoint_op.prems(1) checkpoint_op.hyps(1) by (rule stream_inv_running)
  from checkpoint_op_core [OF c(2) checkpoint_op.hyps(2)] show ?case using c(1) by (intro stream_invI [where lev = lev]) simp_all
next
  case (sync_done s w lsns)
  obtain pos lev b n where c: "st_acked s \<le> lev" "core (st_fs s) (st_log s) lev pos b n w"
    using sync_done.prems(1) sync_done.hyps(1) by (rule stream_inv_running)
  note d = sync_done_core [OF c(2) sync_done.hyps(2,3)]
  have "Max (insert (st_acked s) (unat ` set lsns)) \<le> lev" using c(1) d(2) by simp
  with d(1) show ?case by (intro stream_invI [where lev = lev]) simp_all
next
  case (checkpoint_failed s w e)
  obtain pos lev b n where c: "st_acked s \<le> lev" "core (st_fs s) (st_log s) lev pos b n w"
    using checkpoint_failed.prems(1) checkpoint_failed.hyps(1) by (rule stream_inv_running)
  from checkpoint_failed_core [OF c(2) checkpoint_failed.hyps(2)] show ?case using c(1) by (intro stream_invI [where lev = lev]) simp_all
next
  case (checkpoint_done s w sn ops rd)
  obtain pos lev b n where c: "st_acked s \<le> lev" "core (st_fs s) (st_log s) lev pos b n w"
    using checkpoint_done.prems(1) checkpoint_done.hyps(1) by (rule stream_inv_running)
  from checkpoint_done_core [OF c(2) checkpoint_done.hyps(2-4)] show ?case using c(1) by (intro stream_invI [where lev = lev]) simp_all
next
  case (write_done s w ps bytes offset)
  obtain pos lev b n where c: "st_acked s \<le> lev" "core (st_fs s) (st_log s) lev pos b n w"
    using write_done.prems(1) write_done.hyps(1) by (rule stream_inv_running)
  from write_done_core [OF c(2) write_done.hyps(2,3)] show ?case using c(1) by (intro stream_invI [where lev = lev]) simp_all
next
  case (received s w)
  obtain pos lev b n where c: "st_acked s \<le> lev" "core (st_fs s) (st_log s) lev pos b n w"
    using received.prems(1) received.hyps(1) by (rule stream_inv_running)
  from receive_core [OF c(2) received.hyps(2,4)] show ?case using c(1) by (intro stream_invI [where lev = lev]) simp_all
qed

lemma stream_inv_reachable: "stream_reachable xxh M m0 threads checkpoint_bytes s \<Longrightarrow> stream_inv s"
  by (induction rule: stream_reachable_induct) (auto intro: stream_inv_init stream_inv_step)

text \<open>Recovery succeeds in every reachable state, with all acknowledged records and a machine that holds exactly a prefix of the log.\<close>

lemma reachable_recovers:
  assumes "stream_reachable xxh M m0 threads checkpoint_bytes s" "crash_image (st_fs s) img"
  shows "\<exists>ops d m mk k. journal_recover xxh M threads (fs_of_image img) m0 = Some (ops, Inr (d, m)) \<and> dk_lsn d = of_nat k \<and>
    st_acked s \<le> k \<and> k \<le> length (st_log s) \<and> replay M 0 (take k (st_log s)) m0 = Inr mk \<and> sim mk m"
proof -
  obtain pos lev K where g: "st_acked s \<le> lev" "good (st_fs s) (st_log s) lev pos K"
    using stream_inv_good [OF stream_inv_reachable [OF assms(1)]] .
  obtain k where "lev \<le> k" "k \<le> length (st_log s)" "recovered threads (fs_of_image img) (st_log s) lev k"
    using recover_ok [OF g(2) assms(2)] by blast
  then show ?thesis using g(1) unfolding recovered_def by (meson order_trans)
qed

end

end
