(* ===== verification/Journal_Live.thy ===== *)
theory Journal_Live
  imports Journal_Stream
begin

text \<open>
  Runs of a journal stream (\<open>crates/talon-journal/src/writer.rs\<close>): a recovered stream becomes a running writer, and a
  writer with nothing in flight takes a durable append through its write, its application and its sync to the
  acknowledgement.
\<close>

definition idle :: "u64 \<Rightarrow> ('m, 'r) writer \<Rightarrow> bool" where
  "idle checkpoint_bytes w \<longleftrightarrow>
     wr_at w = Top \<and> wr_queue w = [] \<and> wr_write w = None \<and> wr_sync w = None \<and> wr_durable w = [] \<and> wr_barrier w = None \<and>
     wr_checkpoint w = None \<and> \<not> wr_pending_checkpoint w \<and> \<not> wr_closed w \<and> dk_offset (wr_disk w) < checkpoint_bytes"

lemma run_opens:
  "st_proc s = Opening ops d m \<Longrightarrow>
    stream_run xxh M m0 threads cb s (s\<lparr>st_fs := exec ops (st_fs s), st_proc := Running (writer_open d m)\<rparr>)"
proof (induction ops arbitrary: s)
  case Nil
  show ?case using stream_run_step [OF stream_run_refl opened [OF Nil], of M xxh m0 threads cb] by (simp add: clients_ok_def writer_open_def)
next
  case (Cons op ops)
  let ?s = "s\<lparr>st_fs := fs_step (st_fs s) op, st_proc := Opening ops d m\<rparr>"
  have "stream_run xxh M m0 threads cb s ?s" by (rule stream_run_step [OF stream_run_refl open_op [OF Cons.prems]]) (simp add: clients_ok_def)
  from stream_run_trans [OF this Cons.IH [of ?s]] show ?case by simp
qed

lemma reachable_wf_fs: "stream_reachable xxh M m0 threads cb s \<Longrightarrow> wf_fs (st_fs s)"
proof (induction rule: stream_reachable_induct)
  case init
  show ?case by (simp add: stream_init_def wf_fs_of_image)
next
  case (step s s')
  show ?case using step(3,5) by (induction rule: stream_step.induct) (auto simp: wf_fs_of_image wf_fs_step wf_fs_exec)
qed

lemma idle_selects:
  assumes "idle cb w"
  shows "loop_top xxh M cb (w\<lparr>wr_queue := q\<rparr>) = w\<lparr>wr_queue := q, wr_at := Select\<rparr>"
proof -
  have "\<not> cb \<le> dk_offset (wr_disk w)" using assms by (auto simp: idle_def)
  then show ?thesis using assms by (simp add: idle_def loop_top_def Let_def coalesce_checkpoint_def start_sync_def finish_top_def)
qed

text \<open>A durable append of an idle writer: submitted, taken up, written, applied, synced and acknowledged.\<close>

lemma idle_append:
  assumes w: "st_proc s = Running w" "idle cb w"
    and r: "mc_valid M r" "handle_append M max_record max_bytes r Durable = Inr (Append r body Durable)"
    and lsn: "checked_add (wr_next_lsn w) 1 = Some lsn" and enc: "frame_encode xxh lsn body = Inr bytes"
    and off: "length bytes < 2 ^ 64" "checked_add (dk_offset (wr_disk w)) (of_nat (length bytes)) = Some off'"
    and app: "mc_apply M (wr_machine w) lsn r = Inr m'"
  shows "\<exists>s' w'. stream_run xxh M m0 threads cb s s' \<and> st_proc s' = Running w' \<and> wr_machine w' = m' \<and>
    st_log s' = st_log s @ [body] \<and> st_acked s' = max (st_acked s) (unat lsn)"
proof -
  let ?run = "stream_run xxh M m0 threads cb s"
  let ?p = "\<lparr>pd_lsn = lsn, pd_record = r, pd_bytes = body, pd_ack = Durable\<rparr>"
  let ?offset = "dk_offset (wr_disk w)"
  define w1 where "w1 = w\<lparr>wr_queue := [Append r body Durable]\<rparr>"
  have f: "wr_at w = Top" "wr_queue w = []" "wr_write w = None" "wr_sync w = None" "wr_durable w = []" "wr_barrier w = None"
      "wr_checkpoint w = None" "\<not> wr_pending_checkpoint w" "\<not> wr_closed w" "?offset < cb"
    using w(2) by (simp_all add: idle_def)
  define s1 where "s1 = s\<lparr>st_proc := Running w1\<rparr>"
  have "stream_step xxh M m0 threads cb s s1" unfolding s1_def w1_def
    by (rule submit [of s w M r max_record max_bytes Durable "Append r body Durable", unfolded f(2) append_Nil, OF w(1)]) (use r in blast)
  then have r1: "?run s1" by (rule stream_run_step [OF stream_run_refl]) (simp add: clients_ok_def s1_def w1_def f)
  define w2 where "w2 = w1\<lparr>wr_at := Select\<rparr>"
  have l1: "loop_top xxh M cb w1 = w2" unfolding w2_def w1_def by (rule idle_selects [OF w(2)])
  define s2 where "s2 = s1\<lparr>st_proc := Running w2\<rparr>"
  have "stream_step xxh M m0 threads cb s1 s2" unfolding s2_def l1 [symmetric]
    by (rule top) (simp_all add: s1_def w1_def f(1))
  then have r2: "?run s2" by (rule stream_run_step [OF r1]) (simp add: clients_ok_def s2_def w2_def w1_def f)
  have batch: "batch_loop xxh r body Durable [] (wr_next_lsn w) [] [] = Inr (lsn, bytes, [?p], [], None)"
    using lsn enc by (simp add: batch_loop.simps Let_def)
  define w3 where "w3 = w\<lparr>wr_next_lsn := lsn, wr_queue := [], wr_barrier := None, wr_disk := (wr_disk w)\<lparr>dk_offset := off'\<rparr>,
      wr_write := Some ([?p], bytes, ?offset, False), wr_at := Top\<rparr>"
  have rc: "receive xxh w2 = w3" using batch off by (cases w) (simp add: receive_def w2_def w1_def w3_def Let_def)
  define s3 where "s3 = s2\<lparr>st_proc := Running w3\<rparr>"
  have "stream_step xxh M m0 threads cb s2 s3" unfolding s3_def rc [symmetric]
    by (rule received) (simp_all add: s2_def w2_def w1_def f)
  then have r3: "?run s3" by (rule stream_run_step [OF r2]) (simp add: clients_ok_def s3_def w3_def app)
  define w4 where "w4 = w3\<lparr>wr_at := Select\<rparr>"
  have l3: "loop_top xxh M cb w3 = w4"
    using f by (simp add: loop_top_def Let_def coalesce_checkpoint_def start_sync_def finish_top_def w3_def w4_def)
  define s4 where "s4 = s3\<lparr>st_proc := Running w4\<rparr>"
  have "stream_step xxh M m0 threads cb s3 s4" unfolding s4_def l3 [symmetric] by (rule top) (simp_all add: s3_def w3_def)
  then have r4: "?run s4" by (rule stream_run_step [OF r3]) (simp add: clients_ok_def s4_def w4_def w3_def app)
  define w5 where "w5 = w4\<lparr>wr_write := Some ([?p], bytes, ?offset, True)\<rparr>"
  define s5 where "s5 = s4\<lparr>st_fs := exec (disk_write (wr_disk w4) bytes ?offset) (st_fs s4), st_proc := Running w5, st_log := st_log s4 @ map pd_bytes [?p]\<rparr>"
  have "stream_step xxh M m0 threads cb s4 s5" unfolding s5_def w5_def
    by (rule write_effect) (use app in \<open>simp_all add: s4_def w4_def w3_def\<close>)
  then have r5: "?run s5" by (rule stream_run_step [OF r4]) (simp add: clients_ok_def s5_def w5_def w4_def w3_def app)
  define w6 where "w6 = apply_pending M [?p] (w5\<lparr>wr_write := None\<rparr>)"
  have w6: "wr_at w6 = Top" "wr_machine w6 = m'" "wr_durable w6 = [lsn]" "wr_write w6 = None" "wr_sync w6 = None" "wr_barrier w6 = None" "\<not> wr_closed w6"
    using app f by (simp_all add: w6_def w5_def w4_def w3_def)
  define s6 where "s6 = s5\<lparr>st_proc := Running w6\<rparr>"
  have "stream_step xxh M m0 threads cb s5 s6" unfolding s6_def w6_def by (rule write_done) (simp_all add: s5_def w5_def w4_def)
  then have r6: "?run s6" by (rule stream_run_step [OF r5]) (simp add: clients_ok_def s6_def w6)
  define w7 where "w7 = w6\<lparr>wr_sync := Some ([lsn], False), wr_durable := [], wr_at := Select\<rparr>"
  have l6: "loop_top xxh M cb w6 = w7"
    using w6 by (simp add: loop_top_def Let_def coalesce_checkpoint_def start_sync_def finish_top_def w7_def)
  define s7 where "s7 = s6\<lparr>st_proc := Running w7\<rparr>"
  have "stream_step xxh M m0 threads cb s6 s7" unfolding s7_def l6 [symmetric] by (rule top) (simp_all add: s6_def w6)
  then have r7: "?run s7" by (rule stream_run_step [OF r6]) (simp add: clients_ok_def s7_def w7_def w6)
  define w8 where "w8 = w7\<lparr>wr_sync := Some ([lsn], True)\<rparr>"
  define s8 where "s8 = s7\<lparr>st_fs := exec (disk_sync (wr_disk w7)) (st_fs s7), st_proc := Running w8\<rparr>"
  have "stream_step xxh M m0 threads cb s7 s8" unfolding s8_def w8_def by (rule sync_effect) (simp_all add: s7_def w7_def)
  then have r8: "?run s8" by (rule stream_run_step [OF r7]) (simp add: clients_ok_def s8_def w8_def w7_def w6)
  define w9 where "w9 = w8\<lparr>wr_sync := None, wr_at := Top\<rparr>"
  define s9 where "s9 = s8\<lparr>st_proc := Running w9, st_acked := Max (insert (st_acked s8) (unat ` set [lsn]))\<rparr>"
  have "stream_step xxh M m0 threads cb s8 s9" unfolding s9_def w9_def by (rule sync_done) (simp_all add: s8_def w8_def w7_def)
  then have "?run s9" by (rule stream_run_step [OF r8]) (simp add: clients_ok_def s9_def w9_def w8_def w7_def w6)
  moreover have "st_proc s9 = Running w9" "wr_machine w9 = m'" using w6(2) by (simp_all add: s9_def w9_def w8_def w7_def)
  moreover have "st_log s9 = st_log s @ [body]" "st_acked s9 = max (st_acked s) (unat lsn)"
    by (simp_all add: s9_def s8_def s7_def s6_def s5_def s4_def s3_def s2_def s1_def)
  ultimately show ?thesis by blast
qed

context journal_machine
begin

lemma idle_state:
  assumes "stream_reachable xxh M m0 threads cb s" "st_proc s = Running w" "idle cb w"
  shows "wr_next_lsn w = of_nat (length (st_log s))" "ok (wr_machine w)" "st_acked s \<le> length (st_log s)"
proof -
  obtain pos lev b n where "st_acked s \<le> lev" and c: "core (st_fs s) (st_log s) lev pos b n w"
    by (rule stream_inv_running [OF stream_inv_reachable [OF assms(1)] assms(2)])
  have none: "wr_write w = None" using assms(3) by (simp add: idle_def)
  have fl: "flight (st_log s) pos b n (wr_machine w) (wr_write w) (wr_next_lsn w) (dk_offset (wr_disk w))" and ap: "applied (st_log s) n w"
    using c unfolding core_def by blast+
  show "wr_next_lsn w = of_nat (length (st_log s))" using fl unfolding flight_def none by simp
  show "ok (wr_machine w)" using ap unfolding applied_def by blast
  have "crash_image (st_fs s) (live_image (st_fs s))" by (rule live_is_crash_image [OF reachable_wf_fs [OF assms(1)]])
  from reachable_recovers [OF assms(1) this] show "st_acked s \<le> length (st_log s)" by auto
qed

text \<open>A new stream opens.\<close>

lemma opens_idle:
  assumes "0 < cb"
  shows "\<exists>s w. stream_reachable xxh M m0 threads cb s \<and> st_proc s = Running w \<and> idle cb w \<and> st_log s = [] \<and> st_acked s = 0 \<and>
    dk_offset (wr_disk w) = 0 \<and> sim m0 (wr_machine w)"
proof -
  let ?img = "\<lambda>_. None"
  have start: "stream_reachable xxh M m0 threads cb stream_init" by (simp add: stream_reachable_def stream_run_refl)
  have img: "crash_image (st_fs (stream_init :: ('m, 'r) stream)) ?img" by (simp add: crash_image_def stream_init_def bindings_def fs_of_image_def)
  obtain ops d m where r: "journal_recover xxh M threads (fs_of_image ?img) m0 = Some (ops, Inr (d, m))"
    using reachable_recovers [OF start img] by blast
  define s :: "('m, 'r) stream" where "s = stream_init\<lparr>st_fs := fs_of_image ?img, st_proc := Opening ops d m, st_log := take (unat (dk_lsn d)) (st_log (stream_init :: ('m, 'r) stream))\<rparr>"
  have s: "stream_reachable xxh M m0 threads cb s" unfolding s_def
    by (rule stream_reachable_run [OF start stream_run_step [OF stream_run_refl reopen [OF img r]]]) (simp add: clients_ok_def)
  have f: "st_proc s = Opening ops d m" "st_log s = []" "st_acked s = 0" by (simp_all add: s_def stream_init_def)
  obtain pos lev where o: "opening_inv (st_fs s) [] lev pos ops d m"
    using stream_inv_reachable [OF s] f by (auto simp: stream_inv_def)
  then have d: "sim m0 m" "dk_offset d = 0" by (auto simp: opening_inv_def whole_log_def slice_def)
  let ?s = "s\<lparr>st_fs := exec ops (st_fs s), st_proc := Running (writer_open d m)\<rparr>"
  have "stream_reachable xxh M m0 threads cb ?s" by (rule stream_reachable_run [OF s run_opens [OF f(1)]])
  moreover have "idle cb (writer_open d m)" using d(2) assms by (simp add: idle_def writer_open_def)
  ultimately show ?thesis using f(2,3) d by (intro exI [of _ ?s] exI [of _ "writer_open d m"]) (simp add: writer_open_def)
qed

end

end
