(* ===== verification/Small_Format.thy ===== *)
theory Small_Format
  imports Journal_Frame Core_Key
begin

text \<open>
  Keys of the small-object store and their two encodings: the on-disk form of
  \<open>crates/talon-worker/src/small_store/format.rs\<close>, with the identities of \<open>small_store/key.rs\<close>, and the compact
  form of \<open>small_store/key_codec.rs\<close> that the resident key table uses. Both are shown to be faithful: the on-disk
  decoder accepts exactly the encodings, the compact decoder gives back every key.
\<close>

subsection \<open>UTF-8\<close>

text \<open>\<open>std::str::from_utf8\<close>: the well-formed byte sequences of the Unicode standard.\<close>

definition utf8_cont :: "byte \<Rightarrow> bool" where
  "utf8_cont b \<longleftrightarrow> 0x80 \<le> b \<and> b \<le> 0xBF"

function utf8 :: "byte list \<Rightarrow> bool" where
  "utf8 [] \<longleftrightarrow> True"
| "utf8 (b # bs) \<longleftrightarrow>
     (if b < 0x80 then utf8 bs
      else if 0xC2 \<le> b \<and> b \<le> 0xDF then length bs \<ge> 1 \<and> utf8_cont (bs ! 0) \<and> utf8 (drop 1 bs)
      else if 0xE0 \<le> b \<and> b \<le> 0xEF then
        length bs \<ge> 2 \<and> utf8_cont (bs ! 0) \<and> utf8_cont (bs ! 1) \<and> (b = 0xE0 \<longrightarrow> bs ! 0 \<ge> 0xA0) \<and> (b = 0xED \<longrightarrow> bs ! 0 \<le> 0x9F) \<and>
        utf8 (drop 2 bs)
      else if 0xF0 \<le> b \<and> b \<le> 0xF4 then
        length bs \<ge> 3 \<and> utf8_cont (bs ! 0) \<and> utf8_cont (bs ! 1) \<and> utf8_cont (bs ! 2) \<and> (b = 0xF0 \<longrightarrow> bs ! 0 \<ge> 0x90) \<and>
        (b = 0xF4 \<longrightarrow> bs ! 0 \<le> 0x8F) \<and> utf8 (drop 3 bs)
      else False)"
  by pat_completeness auto
termination by (relation "measure length") auto

definition str_of :: "byte list \<Rightarrow> string" where
  "str_of bs = map (\<lambda>b. char_of (unat b)) bs"

definition from_utf8 :: "byte list \<Rightarrow> string option" where
  "from_utf8 bs = (if utf8 bs then Some (str_of bs) else None)"

subsection \<open>Identities\<close>

datatype unit_kind = UnitWhole | UnitExactRange | UnitPage u32

record small_key =
  sk_block :: block_id
  sk_kind :: unit_kind

definition MAX_EXACT_READ_LEN :: u64 where "MAX_EXACT_READ_LEN = 0x100000"

definition valid_extent :: "small_key \<Rightarrow> u64 \<Rightarrow> bool" where
  "valid_extent k len \<longleftrightarrow>
     (case sk_kind k of
        UnitWhole \<Rightarrow> blk_offset (sk_block k) = 0 \<and> len > 0 \<and> len < ucast (blk_size (sk_block k))
      | UnitExactRange \<Rightarrow> len > 0 \<and> len \<le> MAX_EXACT_READ_LEN \<and> len = ucast (blk_size (sk_block k)) \<and>
          checked_add (blk_offset (sk_block k)) len \<noteq> None
      | UnitPage _ \<Rightarrow> False)"

subsection \<open>The on-disk form\<close>

definition MAX_KEY :: nat where "MAX_KEY = 64 * 1024"

abbreviation key_bucket :: "small_key \<Rightarrow> string" where "key_bucket k \<equiv> obj_bucket (blk_object (sk_block k))"
abbreviation key_path :: "small_key \<Rightarrow> string" where "key_path k \<equiv> object_path (blk_object (sk_block k))"
abbreviation key_version :: "small_key \<Rightarrow> string" where "key_version k \<equiv> blk_version (sk_block k)"

definition key_len :: "small_key \<Rightarrow> nat" where
  "key_len k = 25 + length (key_bucket k) + length (key_path k) + length (key_version k)"

definition validate_key :: "small_key \<Rightarrow> io_error + unit" where
  "validate_key k =
     (case sk_kind k of UnitPage _ \<Rightarrow> Inl (InvalidData ''page is not a small-store key'')
      | _ \<Rightarrow> if key_len k > MAX_KEY then Inl (InvalidData ''small object key too long'') else Inr ())"

definition backend_code :: "backend \<Rightarrow> byte" where
  "backend_code b = (case b of S3 \<Rightarrow> 0 | Gcs \<Rightarrow> 1 | Azure \<Rightarrow> 2)"

definition string_bytes :: "string \<Rightarrow> byte list" where
  "string_bytes s = u32_le (of_nat (length s)) @ as_bytes s"

definition encode_key :: "small_key \<Rightarrow> io_error + byte list" where
  "encode_key k =
     (case validate_key k of Inl e \<Rightarrow> Inl e
      | Inr _ \<Rightarrow>
        let tag = (if sk_kind k = UnitExactRange then 0x80 else 0) in
        Inr ((tag OR backend_code (obj_backend (blk_object (sk_block k)))) # u64_le (blk_offset (sk_block k)) @
          u32_le (blk_size (sk_block k)) @ string_bytes (key_bucket k) @ string_bytes (key_path k) @ string_bytes (key_version k)))"

definition unexpected_eof :: io_error where
  "unexpected_eof = IoOther ''failed to fill whole buffer''"

definition fmt_u32 :: "byte list \<Rightarrow> io_error + (u32 \<times> byte list)" where
  "fmt_u32 b = (if length b < 4 then Inl unexpected_eof else Inr (u32_of_le (take 4 b), drop 4 b))"

definition fmt_u64 :: "byte list \<Rightarrow> io_error + (u64 \<times> byte list)" where
  "fmt_u64 b = (if length b < 8 then Inl unexpected_eof else Inr (u64_of_le (take 8 b), drop 8 b))"

definition view_string :: "byte list \<Rightarrow> io_error + (string \<times> byte list)" where
  "view_string b =
     (case fmt_u32 b of Inl e \<Rightarrow> Inl e
      | Inr (n, b) \<Rightarrow>
        if unat n > length b then Inl (InvalidData ''small object key length'')
        else
          (case from_utf8 (take (unat n) b) of None \<Rightarrow> Inl (InvalidData ''small object key UTF-8'')
           | Some s \<Rightarrow> Inr (s, drop (unat n) b)))"

definition backend_of_code :: "byte \<Rightarrow> backend option" where
  "backend_of_code c = (if c = 0 then Some S3 else if c = 1 then Some Gcs else if c = 2 then Some Azure else None)"

definition small_view :: "byte list \<Rightarrow> io_error + small_key" where
  "small_view bytes =
     (if length bytes > MAX_KEY then Inl (InvalidData ''small object key too long'')
      else
        (case bytes of [] \<Rightarrow> Inl unexpected_eof
         | tag # b \<Rightarrow>
           (case backend_of_code (tag AND 0x7f) of None \<Rightarrow> Inl (InvalidData ''small object backend'')
            | Some backend \<Rightarrow>
              (case fmt_u64 b of Inl e \<Rightarrow> Inl e
               | Inr (offset, b) \<Rightarrow>
              (case fmt_u32 b of Inl e \<Rightarrow> Inl e
               | Inr (bsize, b) \<Rightarrow>
              (case view_string b of Inl e \<Rightarrow> Inl e
               | Inr (bucket, b) \<Rightarrow>
              (case view_string b of Inl e \<Rightarrow> Inl e
               | Inr (path, b) \<Rightarrow>
              (case view_string b of Inl e \<Rightarrow> Inl e
               | Inr (version, b) \<Rightarrow>
                 if b \<noteq> [] then Inl (InvalidData ''small object key trailing bytes'')
                 else Inr \<lparr>sk_block = \<lparr>blk_object = \<lparr>obj_backend = backend, obj_bucket = bucket, object_path = path\<rparr>,
                              blk_offset = offset, blk_size = bsize, blk_version = version\<rparr>,
                            sk_kind = (if tag AND 0x80 \<noteq> 0 then UnitExactRange else UnitWhole)\<rparr>))))))))"

text \<open>Checksummed frames of the metadata files.\<close>

definition metadata_frame :: "(byte list \<Rightarrow> u64) \<Rightarrow> byte list \<Rightarrow> byte list" where
  "metadata_frame xxh body = u32_le (of_nat (length body)) @ u64_le (xxh body) @ body"

function metadata_frames :: "(byte list \<Rightarrow> u64) \<Rightarrow> byte list \<Rightarrow> io_error + byte list list" where
  "metadata_frames xxh bytes =
     (if bytes = [] then Inr []
      else
        (case fmt_u32 bytes of Inl e \<Rightarrow> Inl e
         | Inr (n, b1) \<Rightarrow>
        (case fmt_u64 b1 of Inl e \<Rightarrow> Inl e
         | Inr (checksum, b2) \<Rightarrow>
           if unat n > MAX_KEY + 32 \<or> unat n > length b2 then Inl (InvalidData ''small object metadata length'')
           else if xxh (take (unat n) b2) \<noteq> checksum then Inl (InvalidData ''small object metadata checksum'')
           else (case metadata_frames xxh (drop (unat n) b2) of Inl e \<Rightarrow> Inl e | Inr out \<Rightarrow> Inr (take (unat n) b2 # out)))))"
  by pat_completeness auto
termination
  by (relation "measure (\<lambda>(xxh, b). length b)") (auto simp: fmt_u32_def fmt_u64_def split: if_splits)

declare metadata_frames.simps [simp del]

text \<open>The records of the access log (\<open>access.rs\<close>) are such frames: a time and a key.\<close>

definition access_encode :: "(byte list \<Rightarrow> u64) \<Rightarrow> byte list \<Rightarrow> small_key \<Rightarrow> u64 \<Rightarrow> io_error + byte list" where
  "access_encode xxh bytes key last_access =
     (case encode_key key of Inl e \<Rightarrow> Inl e | Inr b \<Rightarrow> Inr (bytes @ metadata_frame xxh (u64_le last_access @ b)))"

subsection \<open>The compact form\<close>

text \<open>Strings are terminated by two zero bytes; a zero byte of the string is escaped.\<close>

primrec codec_escape :: "byte list \<Rightarrow> byte list" where
  "codec_escape [] = []"
| "codec_escape (b # bs) = (if b = 0 then [0, 255] else [b]) @ codec_escape bs"

definition codec_field :: "byte list \<Rightarrow> byte list" where
  "codec_field bs = codec_escape bs @ [0, 0]"

fun codec_unfield :: "byte list \<Rightarrow> byte list \<Rightarrow> (byte list \<times> byte list) option" where
  "codec_unfield [] out = Some (out, [])"
| "codec_unfield (b # input) out =
     (if b = 0 then
        (case input of [] \<Rightarrow> None
         | tag # input' \<Rightarrow> if tag = 0 then Some (out, input') else codec_unfield input' (out @ [b]))
      else codec_unfield input (out @ [b]))"

definition is_hex_digit :: "byte \<Rightarrow> bool" where
  "is_hex_digit b \<longleftrightarrow> (0x30 \<le> b \<and> b \<le> 0x39) \<or> (0x61 \<le> b \<and> b \<le> 0x66)"

definition hex_digit :: "byte \<Rightarrow> byte" where
  "hex_digit b = (if b \<le> 0x39 then b - 0x30 else b - 0x61 + 10)"

fun hex_pack :: "byte list \<Rightarrow> byte list" where
  "hex_pack (x # y # r) = (hex_digit x * 16 + hex_digit y) # hex_pack r"
| "hex_pack _ = []"

definition HEX :: "byte list" where "HEX = as_bytes ''0123456789abcdef''"

definition hex_unpack :: "byte list \<Rightarrow> byte list" where
  "hex_unpack bs = concat (map (\<lambda>b. [HEX ! unat (b div 16), HEX ! unat (b mod 16)]) bs)"

definition codec_hex :: "byte list \<Rightarrow> bool" where
  "codec_hex version \<longleftrightarrow> even (length version) \<and> list_all is_hex_digit version"

definition codec_tag :: "small_key \<Rightarrow> byte" where
  "codec_tag k =
     backend_code (obj_backend (blk_object (sk_block k))) OR (if sk_kind k = UnitExactRange then 0x80 else 0) OR
     (if blk_offset (sk_block k) \<noteq> 0 then 0x40 else 0) OR (if codec_hex (as_bytes (key_version k)) then 0x20 else 0)"

definition codec_encode :: "small_key \<Rightarrow> byte list" where
  "codec_encode k =
     (let version = as_bytes (key_version k) in
      codec_field (as_bytes (key_bucket k)) @ codec_field (as_bytes (key_path k)) @ [codec_tag k] @ u32_le (blk_size (sk_block k)) @
      (if blk_offset (sk_block k) \<noteq> 0 then u64_le (blk_offset (sk_block k)) else []) @
      (if codec_hex version then hex_pack version else version))"

text \<open>The decoder runs on bytes the table itself holds; \<open>None\<close> is a panic.\<close>

definition codec_decode :: "byte list \<Rightarrow> small_key option" where
  "codec_decode input =
     (case codec_unfield input [] of None \<Rightarrow> None
      | Some (b1, input) \<Rightarrow>
     (case from_utf8 b1 of None \<Rightarrow> None
      | Some bucket \<Rightarrow>
     (case codec_unfield input [] of None \<Rightarrow> None
      | Some (b2, input) \<Rightarrow>
     (case from_utf8 b2 of None \<Rightarrow> None
      | Some path \<Rightarrow>
        if length input < 5 then None
        else
          let tag = hd input in
          (case backend_of_code (tag AND 0x1f) of None \<Rightarrow> None
           | Some backend \<Rightarrow>
             let bsize = u32_of_le (take 4 (drop 1 input)); input = drop 5 input in
             if tag AND 0x40 \<noteq> 0 \<and> length input < 8 then None
             else
               let offset = (if tag AND 0x40 \<noteq> 0 then u64_of_le (take 8 input) else 0);
                   input = (if tag AND 0x40 \<noteq> 0 then drop 8 input else input);
                   version = (if tag AND 0x20 \<noteq> 0 then hex_unpack input else input)
               in map_option (\<lambda>v. \<lparr>sk_block = \<lparr>blk_object = \<lparr>obj_backend = backend, obj_bucket = bucket, object_path = path\<rparr>,
                      blk_offset = offset, blk_size = bsize, blk_version = v\<rparr>,
                    sk_kind = (if tag AND 0x80 \<noteq> 0 then UnitExactRange else UnitWhole)\<rparr>) (from_utf8 version))))))"

subsection \<open>Lemmas on strings and bytes\<close>

lemma str_of_length [simp]: "length (str_of bs) = length bs"
  by (simp add: str_of_def)

lemma as_bytes_str_of [simp]: "as_bytes (str_of bs) = bs"
proof (induction bs)
  case (Cons b bs)
  have "(of_char (char_of (unat b) :: char) :: nat) = unat b" using unat_u8_less [of b] by simp
  then have "(of_nat (of_char (char_of (unat b) :: char)) :: byte) = of_nat (unat b)" by (simp only:)
  then have "(of_char (char_of (unat b) :: char) :: byte) = b" by (simp only: of_nat_of_char) simp
  then show ?case using Cons by (simp add: as_bytes_def str_of_def)
qed (simp add: as_bytes_def str_of_def)

lemma str_of_as_bytes [simp]: "str_of (as_bytes s) = s"
  by (metis as_bytes_inject as_bytes_str_of)

lemma from_utf8_Some: "from_utf8 bs = Some s \<longleftrightarrow> utf8 (as_bytes s) \<and> bs = as_bytes s"
  by (auto simp: from_utf8_def)

subsection \<open>The on-disk form is faithful\<close>

definition key_utf8 :: "small_key \<Rightarrow> bool" where
  "key_utf8 k \<longleftrightarrow> utf8 (as_bytes (key_bucket k)) \<and> utf8 (as_bytes (key_path k)) \<and> utf8 (as_bytes (key_version k))"

lemma fmt_u32_iff: "fmt_u32 b = Inr (n, r) \<longleftrightarrow> b = u32_le n @ r"
proof
  assume "fmt_u32 b = Inr (n, r)"
  then have "length b \<ge> 4" "n = u32_of_le (take 4 b)" "r = drop 4 b" by (auto simp: fmt_u32_def split: if_splits)
  moreover from this have "u32_le n = take 4 b"
    using of_le_bound [of "take 4 b"] by (simp add: u32_le_def u32_of_le_def unat_of_nat le_bytes_of_le)
  ultimately show "b = u32_le n @ r" by simp
qed (simp add: fmt_u32_def)

lemma fmt_u64_iff: "fmt_u64 b = Inr (n, r) \<longleftrightarrow> b = u64_le n @ r"
proof
  assume "fmt_u64 b = Inr (n, r)"
  then have "length b \<ge> 8" "n = u64_of_le (take 8 b)" "r = drop 8 b" by (auto simp: fmt_u64_def split: if_splits)
  moreover from this have "u64_le n = take 8 b"
    using of_le_bound [of "take 8 b"] by (simp add: u64_le_def u64_of_le_def unat_of_nat le_bytes_of_le)
  ultimately show "b = u64_le n @ r" by simp
qed (simp add: fmt_u64_def)

lemma view_string_iff:
  "view_string b = Inr (s, r) \<longleftrightarrow> b = string_bytes s @ r \<and> utf8 (as_bytes s) \<and> length s < 2 ^ 32"
proof
  assume v: "view_string b = Inr (s, r)"
  then obtain n c where n: "fmt_u32 b = Inr (n, c)" by (auto simp: view_string_def split: sum.splits)
  then have "unat n \<le> length c" "from_utf8 (take (unat n) c) = Some s" "r = drop (unat n) c"
    using v by (auto simp: view_string_def split: if_splits option.splits)
  moreover from this have t: "take (unat n) c = as_bytes s" "utf8 (as_bytes s)" by (auto simp: from_utf8_Some)
  moreover have "length s = length (take (unat n) c)" unfolding t(1) by simp
  moreover from this have "length s = unat n" using calculation(1) by (simp only: length_take min.absorb2)
  moreover from this have "of_nat (length s) = n" by simp
  ultimately show "b = string_bytes s @ r \<and> utf8 (as_bytes s) \<and> length s < 2 ^ 32"
    using n unat_u32_less [of n] append_take_drop_id [of "unat n" c] by (simp add: fmt_u32_iff string_bytes_def)
next
  assume a: "b = string_bytes s @ r \<and> utf8 (as_bytes s) \<and> length s < 2 ^ 32"
  have "fmt_u32 b = Inr (of_nat (length s), as_bytes s @ r)" using a by (simp add: fmt_u32_iff string_bytes_def)
  moreover have "unat (of_nat (length s) :: u32) = length s" using a by (simp add: unat_of_nat)
  ultimately show "view_string b = Inr (s, r)" using a by (simp add: view_string_def from_utf8_def)
qed

lemma bit_0x80: "bit (0x80 :: byte) n \<longleftrightarrow> n = 7"
proof -
  have "bit (2 ^ 7 :: byte) n \<longleftrightarrow> n = 7" unfolding bit_exp_iff by auto
  then show ?thesis by simp
qed

lemma bit_0x7f: "bit (0x7f :: byte) n \<longleftrightarrow> n < 7"
proof -
  have "bit (mask 7 :: byte) n \<longleftrightarrow> n < 7" unfolding bit_mask_iff by auto
  then show ?thesis by (simp add: mask_eq_exp_minus_1)
qed

lemma and_0x80: "(b :: byte) AND 0x80 = (if bit b 7 then 0x80 else 0)"
proof (rule bit_word_eqI)
  fix n
  show "bit (b AND 0x80) n = bit (if bit b 7 then 0x80 else 0 :: byte) n"
    using bit_0x80 [of n] by (cases "bit b 7") (auto simp: bit_and_iff)
qed

lemma tag_split: "(b :: byte) = (if b AND 0x80 \<noteq> 0 then 0x80 else 0) OR (b AND 0x7f)"
proof -
  have "b = (b AND 0x80) OR (b AND 0x7f)"
  proof (rule bit_word_eqI)
    fix n
    assume "n < LENGTH(8)"
    then show "bit b n = bit ((b AND 0x80) OR (b AND 0x7f)) n"
      unfolding bit_or_iff bit_and_iff bit_0x80 bit_0x7f by auto
  qed
  then show ?thesis using and_0x80 [of b] by (simp split: if_splits)
qed

lemma tag_code:
  "(((if e then 0x80 else 0) OR backend_code k) AND 0x7f :: byte) = backend_code k"
  "(((if e then 0x80 else 0) OR backend_code k) AND 0x80 \<noteq> (0 :: byte)) = e"
  by (cases k; simp add: backend_code_def)+

lemma backend_of_code_iff: "backend_of_code c = Some k \<longleftrightarrow> c = backend_code k"
  by (cases k) (auto simp: backend_of_code_def backend_code_def)

lemma encode_key_Inr:
  "encode_key k = Inr b \<longleftrightarrow> (\<forall>p. sk_kind k \<noteq> UnitPage p) \<and> key_len k \<le> MAX_KEY \<and>
     b = ((if sk_kind k = UnitExactRange then 0x80 else 0) OR backend_code (obj_backend (blk_object (sk_block k)))) # u64_le (blk_offset (sk_block k)) @
       u32_le (blk_size (sk_block k)) @ string_bytes (key_bucket k) @ string_bytes (key_path k) @ string_bytes (key_version k)"
  by (auto simp: encode_key_def validate_key_def Let_def split: unit_kind.splits if_splits)

lemma encode_key_length: "encode_key k = Inr b \<Longrightarrow> length b = key_len k"
  by (simp add: encode_key_Inr key_len_def string_bytes_def)

lemma small_view_iff: "small_view b = Inr k \<longleftrightarrow> key_utf8 k \<and> encode_key k = Inr b"
proof
  assume v: "small_view b = Inr k"
  obtain tag c where b: "b = tag # c" "length b \<le> MAX_KEY" using v by (cases b) (auto simp: small_view_def split: if_splits)
  obtain be off c1 bsize c2 bucket c3 path c4 version where
    p: "backend_of_code (tag AND 0x7f) = Some be" "fmt_u64 c = Inr (off, c1)" "fmt_u32 c1 = Inr (bsize, c2)"
      "view_string c2 = Inr (bucket, c3)" "view_string c3 = Inr (path, c4)" "view_string c4 = Inr (version, [])"
      "k = \<lparr>sk_block = \<lparr>blk_object = \<lparr>obj_backend = be, obj_bucket = bucket, object_path = path\<rparr>,
            blk_offset = off, blk_size = bsize, blk_version = version\<rparr>,
          sk_kind = (if tag AND 0x80 \<noteq> 0 then UnitExactRange else UnitWhole)\<rparr>"
    using v b by (auto simp: small_view_def split: option.splits sum.splits if_splits)
  have tag: "tag = (if sk_kind k = UnitExactRange then 0x80 else 0) OR backend_code be"
  proof -
    have c: "tag AND 0x7f = backend_code be" using p(1) by (simp add: backend_of_code_iff)
    have e: "(sk_kind k = UnitExactRange) = (tag AND 0x80 \<noteq> 0)" using p(7) by simp
    show ?thesis unfolding e c [symmetric] by (rule tag_split)
  qed
  note q = p(2) [unfolded fmt_u64_iff] p(3) [unfolded fmt_u32_iff] p(4-6) [unfolded view_string_iff]
  have bytes: "b = tag # u64_le off @ u32_le bsize @ string_bytes bucket @ string_bytes path @ string_bytes version"
    unfolding b(1) using q by simp
  have "length b = key_len k" unfolding bytes p(7) by (simp add: key_len_def string_bytes_def)
  then have "key_len k \<le> MAX_KEY" using b(2) by simp
  moreover have "key_utf8 k" unfolding p(7) key_utf8_def using q by simp
  moreover have "\<forall>pg. sk_kind k \<noteq> UnitPage pg" unfolding p(7) by simp
  moreover have "b = ((if sk_kind k = UnitExactRange then 0x80 else 0) OR backend_code (obj_backend (blk_object (sk_block k)))) # u64_le (blk_offset (sk_block k)) @
       u32_le (blk_size (sk_block k)) @ string_bytes (key_bucket k) @ string_bytes (key_path k) @ string_bytes (key_version k)"
    using tag unfolding bytes by (simp add: p(7))
  ultimately show "key_utf8 k \<and> encode_key k = Inr b" unfolding encode_key_Inr by blast
next
  assume a: "key_utf8 k \<and> encode_key k = Inr b"
  let ?t = "(if sk_kind k = UnitExactRange then 0x80 else 0) OR backend_code (obj_backend (blk_object (sk_block k)))"
  let ?c = "string_bytes (key_bucket k) @ string_bytes (key_path k) @ string_bytes (key_version k)"
  have e: "(\<forall>p. sk_kind k \<noteq> UnitPage p)" "key_len k \<le> MAX_KEY" "b = ?t # u64_le (blk_offset (sk_block k)) @ u32_le (blk_size (sk_block k)) @ ?c"
    using a by (simp_all add: encode_key_Inr)
  have len: "length (key_bucket k) < 2 ^ 32" "length (key_path k) < 2 ^ 32" "length (key_version k) < 2 ^ 32" "length b \<le> MAX_KEY"
    using e(2) a encode_key_length [of k b] by (simp_all add: key_len_def MAX_KEY_def)
  have vs: "view_string ?c = Inr (key_bucket k, string_bytes (key_path k) @ string_bytes (key_version k))"
    "view_string (string_bytes (key_path k) @ string_bytes (key_version k)) = Inr (key_path k, string_bytes (key_version k))"
    "view_string (string_bytes (key_version k)) = Inr (key_version k, [])"
    using a len by (simp_all add: view_string_iff key_utf8_def)
  have fm: "fmt_u64 (u64_le x @ r) = Inr (x, r)" "fmt_u32 (u32_le y @ r) = Inr (y, r)" for x y r by (simp_all add: fmt_u64_iff fmt_u32_iff)
  have kind: "(if ?t AND 0x80 \<noteq> 0 then UnitExactRange else UnitWhole) = sk_kind k"
    using e(1) unfolding tag_code(2) by (cases "sk_kind k") simp_all
  have be: "backend_of_code (?t AND 0x7f) = Some (obj_backend (blk_object (sk_block k)))"
    unfolding tag_code(1) by (simp add: backend_of_code_iff)
  show "small_view b = Inr k"
    using len(4) unfolding e(3) small_view_def list.case be option.case fm sum.case prod.case vs kind by simp
qed

text \<open>C38. The on-disk decoder of a small-object key accepts exactly the encodings of well-formed keys: a byte string decodes
  to a key if and only if the key's strings are valid UTF-8 and the byte string is the key's encoding.\<close>

theorem small_view_exact: "small_view b = Inr k \<longleftrightarrow> key_utf8 k \<and> encode_key k = Inr b"
  by (rule small_view_iff)

subsection \<open>Metadata frames\<close>

lemma metadata_frames_step:
  assumes "length b < 2 ^ 32"
  shows "metadata_frames xxh (metadata_frame xxh b @ r) =
    (if length b > MAX_KEY + 32 then Inl (InvalidData ''small object metadata length'')
     else case metadata_frames xxh r of Inl e \<Rightarrow> Inl e | Inr out \<Rightarrow> Inr (b # out))"
proof -
  let ?n = "of_nat (length b) :: u32"
  have n: "unat ?n = length b" using assms by (simp add: unat_of_nat)
  have f: "fmt_u32 (metadata_frame xxh b @ r) = Inr (?n, u64_le (xxh b) @ b @ r)" "fmt_u64 (u64_le (xxh b) @ b @ r) = Inr (xxh b, b @ r)"
    by (simp_all add: fmt_u32_iff fmt_u64_iff metadata_frame_def)
  have "length (metadata_frame xxh b @ r) \<noteq> 0" by (simp add: metadata_frame_def)
  then have ne: "(metadata_frame xxh b @ r = []) = False" by auto
  have t: "take (length b) (b @ r) = b" "drop (length b) (b @ r) = r" by simp_all
  show ?thesis
    unfolding metadata_frames.simps [of _ "metadata_frame xxh b @ r"] ne f sum.case prod.case n t by simp
qed

lemma metadata_frames_complete:
  "list_all (\<lambda>b. length b \<le> MAX_KEY + 32) bodies \<Longrightarrow> metadata_frames xxh (concat (map (metadata_frame xxh) bodies)) = Inr bodies"
proof (induction bodies)
  case Nil
  then show ?case by (simp add: metadata_frames.simps)
next
  case (Cons b bs)
  then have "length b < 2 ^ 32" by (simp add: MAX_KEY_def)
  from metadata_frames_step [OF this] show ?case using Cons by simp
qed

lemma metadata_frames_sound:
  "metadata_frames xxh bytes = Inr bodies \<Longrightarrow>
    bytes = concat (map (metadata_frame xxh) bodies) \<and> list_all (\<lambda>b. length b \<le> MAX_KEY + 32) bodies"
proof (induction xxh bytes arbitrary: bodies rule: metadata_frames.induct)
  case (1 xxh bytes)
  show ?case
  proof (cases "bytes = []")
    case True
    then show ?thesis using 1(2) by (simp add: metadata_frames.simps)
  next
    case False
    obtain n b1 where u: "fmt_u32 bytes = Inr (n, b1)" using 1(2) False by (subst (asm) metadata_frames.simps) (auto split: sum.splits)
    obtain sum b2 where v: "fmt_u64 b1 = Inr (sum, b2)" using 1(2) False u by (subst (asm) metadata_frames.simps) (auto split: sum.splits)
    let ?b = "take (unat n) b2"
    obtain out where w: "\<not> (unat n > MAX_KEY + 32 \<or> unat n > length b2)" "xxh ?b = sum" "metadata_frames xxh (drop (unat n) b2) = Inr out" "bodies = ?b # out"
      using 1(2) False u v by (subst (asm) metadata_frames.simps) (auto split: sum.splits if_splits)
    have ih: "drop (unat n) b2 = concat (map (metadata_frame xxh) out)" "list_all (\<lambda>b. length b \<le> MAX_KEY + 32) out"
      using 1(1) [OF False u refl v refl w(1) _ w(3)] w(2) by simp_all
    have len: "length ?b = unat n" using w(1) by simp
    have "bytes = u32_le n @ u64_le sum @ b2" using u v by (simp add: fmt_u32_iff fmt_u64_iff)
    also have "\<dots> = metadata_frame xxh ?b @ drop (unat n) b2" unfolding metadata_frame_def len by (simp add: w(2))
    finally show ?thesis using ih w(1,4) len by simp
  qed
qed

text \<open>C39. The reader of metadata frames accepts exactly the concatenations of frames whose bodies have at most \<open>MAX_KEY + 32\<close>
  bytes, and returns the bodies. The writer does not check that limit, and the reader refuses a file at a frame with a
  longer body (below 4 GiB, where the length field does not wrap). The records of the access log, a time and a key
  that could be encoded, are within the limit: appending one to a file that reads as \<open>bodies\<close> gives a file that reads as
  \<open>bodies\<close> and the record.\<close>

theorem metadata_frames_exact:
  "(metadata_frames xxh bytes = Inr bodies \<longleftrightarrow>
      bytes = concat (map (metadata_frame xxh) bodies) \<and> list_all (\<lambda>b. length b \<le> MAX_KEY + 32) bodies) \<and>
   (MAX_KEY + 32 < length b \<and> length b < 2 ^ 32 \<longrightarrow>
      metadata_frames xxh (metadata_frame xxh b @ rest) = Inl (InvalidData ''small object metadata length'')) \<and>
   (metadata_frames xxh bytes = Inr bodies \<and> access_encode xxh bytes k t = Inr bytes' \<longrightarrow>
      (\<exists>kb. encode_key k = Inr kb \<and> metadata_frames xxh bytes' = Inr (bodies @ [u64_le t @ kb])))"
proof (intro conjI impI)
  show iff: "metadata_frames xxh bytes = Inr bodies \<longleftrightarrow>
      bytes = concat (map (metadata_frame xxh) bodies) \<and> list_all (\<lambda>b. length b \<le> MAX_KEY + 32) bodies"
    using metadata_frames_sound metadata_frames_complete by blast
  show "metadata_frames xxh (metadata_frame xxh b @ rest) = Inl (InvalidData ''small object metadata length'')"
    if "MAX_KEY + 32 < length b \<and> length b < 2 ^ 32" using that by (simp add: metadata_frames_step)
  assume a: "metadata_frames xxh bytes = Inr bodies \<and> access_encode xxh bytes k t = Inr bytes'"
  then obtain kb where kb: "encode_key k = Inr kb" "bytes' = bytes @ metadata_frame xxh (u64_le t @ kb)"
    by (auto simp: access_encode_def split: sum.splits)
  have "length kb \<le> MAX_KEY" using kb(1) encode_key_length [OF kb(1)] by (simp add: encode_key_Inr)
  then show "\<exists>kb. encode_key k = Inr kb \<and> metadata_frames xxh bytes' = Inr (bodies @ [u64_le t @ kb])"
    using kb a iff metadata_frames_complete [of "bodies @ [u64_le t @ kb]" xxh] by simp
qed

theorem metadata_frames_exact_witness:
  "metadata_frames (\<lambda>_. 7) (metadata_frame (\<lambda>_. 7) [1, 2] @ metadata_frame (\<lambda>_. 7) []) = Inr [[1, 2], []] \<and>
   metadata_frames (\<lambda>_. 7) (metadata_frame (\<lambda>_. 7) (replicate 65569 0)) = Inl (InvalidData ''small object metadata length'') \<and>
   (\<exists>kb bytes'. access_encode (\<lambda>_. 7) [] \<lparr>sk_block = \<lparr>blk_object = \<lparr>obj_backend = S3, obj_bucket = ''b'', object_path = ''p''\<rparr>,
        blk_offset = 0, blk_size = 4, blk_version = ''v''\<rparr>, sk_kind = UnitWhole\<rparr> 5 = Inr bytes' \<and>
      metadata_frames (\<lambda>_. 7) bytes' = Inr [u64_le 5 @ kb])"
proof -
  let ?k = "\<lparr>sk_block = \<lparr>blk_object = \<lparr>obj_backend = S3, obj_bucket = ''b'', object_path = ''p''\<rparr>, blk_offset = 0, blk_size = 4, blk_version = ''v''\<rparr>,
      sk_kind = UnitWhole\<rparr> :: small_key"
  have 1: "metadata_frames (\<lambda>_. 7) (metadata_frame (\<lambda>_. 7) [1, 2] @ metadata_frame (\<lambda>_. 7) []) = Inr [[1, 2], []]"
    using metadata_frames_exact [of "\<lambda>_. 7" "metadata_frame (\<lambda>_. 7) [1, 2] @ metadata_frame (\<lambda>_. 7) []" "[[1, 2], []]"] by (simp add: MAX_KEY_def)
  have 2: "metadata_frames (\<lambda>_. 7) (metadata_frame (\<lambda>_. 7) (replicate 65569 0)) = Inl (InvalidData ''small object metadata length'')"
    using metadata_frames_exact [of "\<lambda>_. 7" _ _ "replicate 65569 0" "[]"] by (simp add: MAX_KEY_def)
  obtain kb where "encode_key ?k = Inr kb" by (auto simp: encode_key_Inr key_len_def MAX_KEY_def)
  then obtain bytes' where e: "access_encode (\<lambda>_. 7) [] ?k 5 = Inr bytes'" by (simp add: access_encode_def)
  moreover have "metadata_frames (\<lambda>_. 7) [] = Inr []" by (simp add: metadata_frames.simps)
  ultimately show ?thesis using 1 2 metadata_frames_exact [of "\<lambda>_. 7" "[]" "[]" _ _ ?k 5 bytes'] by auto
qed

subsection \<open>The compact form is faithful\<close>

lemma codec_unfield_escape:
  "codec_unfield (codec_escape bs @ 0 # 0 # rest) out = Some (out @ bs, rest)"
  by (induction bs arbitrary: out) auto

lemma codec_unfield_field: "codec_unfield (codec_field bs @ rest) [] = Some (bs, rest)"
  by (simp add: codec_field_def codec_unfield_escape)

lemma hex_digit_char:
  assumes "is_hex_digit b"
  shows "unat (hex_digit b) < 16" "HEX ! unat (hex_digit b) = b"
proof -
  have "unat b \<in> {48..57} \<union> {97..102}" using assms by (auto simp: is_hex_digit_def word_le_nat_alt)
  then have "unat b \<in> {48, 49, 50, 51, 52, 53, 54, 55, 56, 57, 97, 98, 99, 100, 101, 102}" by simp presburger
  moreover have "b = of_nat (unat b)" by simp
  ultimately have b: "b \<in> {48, 49, 50, 51, 52, 53, 54, 55, 56, 57, 97, 98, 99, 100, 101, 102}" by fastforce
  then show "unat (hex_digit b) < 16" by (auto simp: hex_digit_def)
  show "HEX ! unat (hex_digit b) = b" using b by (auto simp: hex_digit_def HEX_def as_bytes_def)
qed

lemma hex_unpack_pack: "codec_hex v \<Longrightarrow> hex_unpack (hex_pack v) = v"
proof (induction v rule: hex_pack.induct)
  case (1 x y r)
  have h: "is_hex_digit x" "is_hex_digit y" "codec_hex r" using 1 by (auto simp: codec_hex_def)
  let ?b = "hex_digit x * 16 + hex_digit y"
  have "unat (hex_digit x * 16) = unat (hex_digit x) * 16"
    using hex_digit_char(1) [OF h(1)] by (subst unat_mult_exact) simp_all
  then have b: "unat ?b = unat (hex_digit x) * 16 + unat (hex_digit y)"
    using hex_digit_char(1) [OF h(1)] hex_digit_char(1) [OF h(2)] by (subst unat_add_exact) simp_all
  then have "unat (?b div 16) = unat (hex_digit x)" "unat (?b mod 16) = unat (hex_digit y)"
    using hex_digit_char(1) [OF h(2)] by (simp_all add: unat_div unat_mod)
  then show ?case using 1 h hex_digit_char(2) by (simp add: hex_unpack_def)
qed (simp_all add: codec_hex_def hex_unpack_def)

lemma codec_tag_bits:
  "codec_tag k AND 0x1f = backend_code (obj_backend (blk_object (sk_block k)))"
  "codec_tag k AND 0x80 \<noteq> 0 \<longleftrightarrow> sk_kind k = UnitExactRange"
  "codec_tag k AND 0x40 \<noteq> 0 \<longleftrightarrow> blk_offset (sk_block k) \<noteq> 0"
  "codec_tag k AND 0x20 \<noteq> 0 \<longleftrightarrow> codec_hex (as_bytes (key_version k))"
  by (cases "obj_backend (blk_object (sk_block k))"; simp add: codec_tag_def backend_code_def)+

lemma codec_roundtrip:
  assumes "key_utf8 k" "\<And>p. sk_kind k \<noteq> UnitPage p"
  shows "codec_decode (codec_encode k) = Some k"
proof -
  let ?v = "as_bytes (key_version k)"
  let ?w = "if codec_hex ?v then hex_pack ?v else ?v" and ?o = "if blk_offset (sk_block k) \<noteq> 0 then u64_le (blk_offset (sk_block k)) else []"
  let ?tl = "codec_tag k # u32_le (blk_size (sk_block k)) @ ?o @ ?w"
  have u: "codec_unfield (codec_encode k) [] = Some (as_bytes (key_bucket k), codec_field (as_bytes (key_path k)) @ ?tl)"
    "codec_unfield (codec_field (as_bytes (key_path k)) @ ?tl) [] = Some (as_bytes (key_path k), ?tl)"
    unfolding codec_encode_def Let_def by (simp_all only: codec_unfield_field append.simps)
  have f: "from_utf8 (as_bytes (key_bucket k)) = Some (key_bucket k)" "from_utf8 (as_bytes (key_path k)) = Some (key_path k)"
    "from_utf8 ?v = Some (key_version k)"
    using assms(1) by (simp_all add: from_utf8_Some key_utf8_def)
  have k: "\<lparr>sk_block = \<lparr>blk_object = \<lparr>obj_backend = obj_backend (blk_object (sk_block k)), obj_bucket = key_bucket k, object_path = key_path k\<rparr>,
      blk_offset = blk_offset (sk_block k), blk_size = blk_size (sk_block k), blk_version = key_version k\<rparr>, sk_kind = sk_kind k\<rparr> = k"
    by simp
  have be: "backend_of_code (codec_tag k AND 0x1f) = Some (obj_backend (blk_object (sk_block k)))"
    unfolding codec_tag_bits(1) by (simp add: backend_of_code_iff)
  have kind: "(if sk_kind k = UnitExactRange then UnitExactRange else UnitWhole) = sk_kind k"
    using assms(2) by (metis unit_kind.exhaust)
  show ?thesis
    unfolding codec_decode_def u option.case prod.case f(1,2) list.sel Let_def be codec_tag_bits(2-4) kind
    using f(3) k by (cases "blk_offset (sk_block k) = 0"; cases "codec_hex ?v") (simp_all add: hex_unpack_pack)
qed

text \<open>C40. Every key of the store is recovered from its compact form, with the escaped strings, the packed hexadecimal version and
  the optional offset; so the compact form determines the key.\<close>

theorem compact_keys_faithful:
  assumes "key_utf8 k" "sk_kind k \<in> {UnitWhole, UnitExactRange}" "key_utf8 k'" "sk_kind k' \<in> {UnitWhole, UnitExactRange}"
  shows "codec_decode (codec_encode k) = Some k \<and> (codec_encode k = codec_encode k' \<longleftrightarrow> k = k')"
proof -
  have "codec_decode (codec_encode k) = Some k" "codec_decode (codec_encode k') = Some k'"
    using assms by (auto intro!: codec_roundtrip)
  then show ?thesis by (metis option.inject)
qed

theorem compact_keys_faithful_witness:
  defines "k \<equiv> \<lparr>sk_block = \<lparr>blk_object = \<lparr>obj_backend = Azure, obj_bucket = ''b'', object_path = [CHR 0x00]\<rparr>, blk_offset = 0,
      blk_size = 4, blk_version = ''00abcdef''\<rparr>, sk_kind = UnitExactRange\<rparr>"
  shows "codec_decode (codec_encode k) = Some k \<and> (codec_encode k = codec_encode k \<longleftrightarrow> k = k)"
  by (rule compact_keys_faithful) (simp_all add: k_def key_utf8_def as_bytes_def)

end
