(* ===== verification/Small_Keys.thy ===== *)
theory Small_Keys
  imports Small_Format
begin

text \<open>
  The key table of the small-object store (\<open>crates/talon-worker/src/small_store/keys.rs\<close>): keys are spans of one byte
  buffer; sealing sorts them, groups them by common prefixes so that the sum of all bytes is small, and stores suffixes
  by offsets only. A table represents the list of its keys (\<open>table\<close> of Small_Table), and every operation refines the operation on
  that list. A panic is \<open>None\<close>; \<open>shrink_to_fit\<close> and capacities have no effect.
\<close>

subsection \<open>Spans\<close>

record span =
  sp_offset :: u32
  sp_len :: u32

definition span_default :: span where
  "span_default = \<lparr>sp_offset = 0, sp_len = 0\<rparr>"

definition span_get :: "span \<Rightarrow> byte list \<Rightarrow> byte list option" where
  "span_get sp bytes =
     (if unat (sp_offset sp) + unat (sp_len sp) \<le> length bytes
      then Some (take (unat (sp_len sp)) (drop (unat (sp_offset sp)) bytes)) else None)"

definition U32_MAX :: nat where "U32_MAX = 4294967295"

definition span_append :: "byte list \<Rightarrow> byte list \<Rightarrow> io_error + (span \<times> byte list)" where
  "span_append bytes key =
     (if length bytes + length key > U32_MAX then Inl (IoOther ''small-object key buffer overflow'')
      else Inr (\<lparr>sp_offset = of_nat (length bytes), sp_len = of_nat (length key)\<rparr>, bytes @ key))"

subsection \<open>The table\<close>

record keys =
  ks_rows :: "span list"
  ks_offsets :: "u32 list"
  ks_suffixes :: "byte list"
  ks_prefix_ids :: "u32 list"
  ks_prefixes :: "span list"
  ks_prefix_bytes :: "byte list"
  ks_garbage :: nat

definition keys_default :: keys where
  "keys_default = \<lparr>ks_rows = [], ks_offsets = [], ks_suffixes = [], ks_prefix_ids = [], ks_prefixes = [], ks_prefix_bytes = [], ks_garbage = 0\<rparr>"

definition row_span :: "keys \<Rightarrow> nat \<Rightarrow> span option" where
  "row_span K row =
     (if ks_offsets K = [] then vec_get (ks_rows K) row
      else if row + 1 < length (ks_offsets K)
      then Some \<lparr>sp_offset = ks_offsets K ! row, sp_len = ks_offsets K ! (row + 1) - ks_offsets K ! row\<rparr>
      else None)"

definition row_prefix :: "keys \<Rightarrow> nat \<Rightarrow> byte list option" where
  "row_prefix K row =
     (case vec_get (ks_prefix_ids K) row of None \<Rightarrow> Some []
      | Some pid \<Rightarrow> (case vec_get (ks_prefixes K) (unat pid) of None \<Rightarrow> Some [] | Some sp \<Rightarrow> span_get sp (ks_prefix_bytes K)))"

definition keys_get :: "keys \<Rightarrow> nat \<Rightarrow> (byte list \<times> byte list) option option" where
  "keys_get K row =
     (case row_span K row of None \<Rightarrow> Some None
      | Some sp \<Rightarrow>
        (case span_get sp (ks_suffixes K) of None \<Rightarrow> None
         | Some sfx \<Rightarrow> (case row_prefix K row of None \<Rightarrow> None | Some p \<Rightarrow> Some (Some (p, sfx)))))"

fun windows_spans :: "u32 list \<Rightarrow> span list" where
  "windows_spans (a # b # r) = \<lparr>sp_offset = a, sp_len = b - a\<rparr> # windows_spans (b # r)"
| "windows_spans _ = []"

definition keys_thaw :: "keys \<Rightarrow> keys" where
  "keys_thaw K = (if ks_offsets K \<noteq> [] then K\<lparr>ks_rows := windows_spans (ks_offsets K), ks_offsets := []\<rparr> else K)"

primrec freeze_loop :: "byte list \<Rightarrow> span list \<Rightarrow> u32 list \<Rightarrow> byte list \<Rightarrow> (u32 list \<times> byte list) option" where
  "freeze_loop old [] offsets sfxs = Some (offsets @ [of_nat (length sfxs)], sfxs)"
| "freeze_loop old (row # rows) offsets sfxs =
     (case span_get row old of None \<Rightarrow> None
      | Some b \<Rightarrow> freeze_loop old rows (offsets @ [of_nat (length sfxs)]) (sfxs @ b))"

definition keys_freeze :: "keys \<Rightarrow> keys option" where
  "keys_freeze K =
     (case freeze_loop (ks_suffixes K) (ks_rows K) [] [] of None \<Rightarrow> None
      | Some (offsets, sfxs) \<Rightarrow> Some (K\<lparr>ks_offsets := offsets, ks_rows := [], ks_suffixes := sfxs, ks_garbage := 0\<rparr>))"

text \<open>The loop of \<open>retain\<close>: the new table and the new numbers of the prefixes already copied.\<close>

definition NO_PREFIX :: u32 where "NO_PREFIX = - 1"

definition retain_prefix :: "keys \<Rightarrow> nat \<Rightarrow> byte list \<Rightarrow> keys \<times> u32 list \<Rightarrow> (keys \<times> u32 list) option" where
  "retain_prefix K row pfx st =
     (let (nx, ids) = st in
      case vec_get (ks_prefix_ids K) row of None \<Rightarrow> None
      | Some old \<Rightarrow>
        if old = NO_PREFIX then Some (nx\<lparr>ks_prefix_ids := ks_prefix_ids nx @ [NO_PREFIX]\<rparr>, ids)
        else
          (case vec_get ids (unat old) of None \<Rightarrow> None
           | Some pid \<Rightarrow>
             if pid = NO_PREFIX then
               (case span_append (ks_prefix_bytes nx) pfx of Inl e \<Rightarrow> None
                | Inr (sp, bytes) \<Rightarrow>
                  let pid' = of_nat (length (ks_prefixes nx)) in
                  Some (nx\<lparr>ks_prefixes := ks_prefixes nx @ [sp], ks_prefix_bytes := bytes, ks_prefix_ids := ks_prefix_ids nx @ [pid']\<rparr>,
                    ids[unat old := pid']))
             else Some (nx\<lparr>ks_prefix_ids := ks_prefix_ids nx @ [pid]\<rparr>, ids)))"

primrec retain_loop :: "keys \<Rightarrow> (nat \<Rightarrow> bool) \<Rightarrow> nat list \<Rightarrow> keys \<times> u32 list \<Rightarrow> (keys \<times> u32 list) option" where
  "retain_loop K keep [] st = Some st"
| "retain_loop K keep (row # rows) st =
     (if \<not> keep row then retain_loop K keep rows st
      else
        (case keys_get K row of
           Some (Some (pfx, sfx)) \<Rightarrow>
             (case span_append (ks_suffixes (fst st)) sfx of Inl e \<Rightarrow> None
              | Inr (sp, sfxs) \<Rightarrow>
                let nx = (fst st)\<lparr>ks_rows := ks_rows (fst st) @ [sp], ks_suffixes := sfxs\<rparr> in
                (case (if ks_prefix_ids K \<noteq> [] then retain_prefix K row pfx (nx, snd st) else Some (nx, snd st)) of
                   None \<Rightarrow> None
                 | Some st' \<Rightarrow> retain_loop K keep rows st'))
         | _ \<Rightarrow> None))"

definition keys_slots :: "keys \<Rightarrow> nat" where
  "keys_slots K = (if ks_offsets K \<noteq> [] then length (ks_offsets K) - 1 else length (ks_rows K))"

definition keys_retain :: "keys \<Rightarrow> (nat \<Rightarrow> bool) \<Rightarrow> keys option" where
  "keys_retain K keep =
     (case retain_loop K keep [0..<keys_slots K] (keys_default, replicate (length (ks_prefixes K)) NO_PREFIX) of
        None \<Rightarrow> None
      | Some (nx, ids) \<Rightarrow> if ks_offsets K \<noteq> [] then keys_freeze nx else Some nx)"

definition keys_insert :: "keys \<Rightarrow> nat \<Rightarrow> byte list \<Rightarrow> bool \<Rightarrow> (io_error + keys) option" where
  "keys_insert K0 row key replace =
     (let K1 = keys_thaw K0 in
      case (if ks_garbage K1 > length (ks_suffixes K1) div 2 \<or> length (ks_suffixes K1) + length key > U32_MAX
            then keys_retain K1 (\<lambda>_. True) else Some K1) of
        None \<Rightarrow> None
      | Some K \<Rightarrow>
        (case span_append (ks_suffixes K) key of Inl e \<Rightarrow> Some (Inl e)
         | Inr (sp, sfxs) \<Rightarrow>
           let K = K\<lparr>ks_suffixes := sfxs\<rparr> in
           if replace then
             if row \<ge> length (ks_rows K) \<or> (ks_prefix_ids K \<noteq> [] \<and> row \<ge> length (ks_prefix_ids K)) then None
             else Some (Inr (K\<lparr>ks_garbage := ks_garbage K + unat (sp_len (ks_rows K ! row)), ks_rows := (ks_rows K)[row := sp],
                    ks_prefix_ids := (if ks_prefix_ids K \<noteq> [] then (ks_prefix_ids K)[row := NO_PREFIX] else [])\<rparr>))
           else
             if row > length (ks_rows K) \<or> (ks_prefix_ids K \<noteq> [] \<and> row > length (ks_prefix_ids K)) then None
             else Some (Inr (K\<lparr>ks_rows := take row (ks_rows K) @ sp # drop row (ks_rows K),
                    ks_prefix_ids := (if ks_prefix_ids K \<noteq> [] then take row (ks_prefix_ids K) @ NO_PREFIX # drop row (ks_prefix_ids K) else [])\<rparr>))))"

definition keys_remove :: "keys \<Rightarrow> nat \<Rightarrow> keys option" where
  "keys_remove K row =
     (if ks_offsets K \<noteq> [] then Some K
      else if row \<ge> length (ks_rows K) \<or> (ks_prefix_ids K \<noteq> [] \<and> row \<ge> length (ks_prefix_ids K)) then None
      else Some (K\<lparr>ks_garbage := ks_garbage K + unat (sp_len (ks_rows K ! row)), ks_rows := (ks_rows K)[row := span_default],
             ks_prefix_ids := (if ks_prefix_ids K \<noteq> [] then (ks_prefix_ids K)[row := NO_PREFIX] else [])\<rparr>))"

subsection \<open>Grouping by common prefixes\<close>

record key_group =
  gr_start :: nat
  gr_end :: nat
  gr_prefix :: nat

datatype work = Visit nat nat | Finish key_group nat nat nat

definition common_prefix :: "byte list \<Rightarrow> byte list \<Rightarrow> nat" where
  "common_prefix a b = length (takeWhile (\<lambda>(x, y). x = y) (zip a b))"

function run_end :: "(nat \<Rightarrow> 'a) \<Rightarrow> 'a \<Rightarrow> nat \<Rightarrow> nat \<Rightarrow> nat" where
  "run_end f x j e = (if j < e \<and> f j = x then run_end f x (j + 1) e else j)"
  by pat_completeness auto
termination by (relation "measure (\<lambda>(f, x, j, e). e - j)") auto

declare run_end.simps [simp del]

lemma run_end_ge: "run_end f x j e \<ge> j"
proof (induction f x j e rule: run_end.induct)
  case (1 f x j e)
  then show ?case using Suc_leD by (auto simp: run_end.simps [of f x j e])
qed

function key_runs :: "(nat \<Rightarrow> 'a) \<Rightarrow> nat \<Rightarrow> nat \<Rightarrow> (nat \<times> nat) list" where
  "key_runs f i e = (if i < e then let j = run_end f (f i) (i + 1) e in (i, j) # key_runs f j e else [])"
  by pat_completeness auto
termination
  by (relation "measure (\<lambda>(f, i, e). e - i)")
    (use run_end_ge [of "_ + 1"] in \<open>auto simp: Suc_le_eq intro!: diff_less_mono2\<close>)

declare key_runs.simps [simp del]

text \<open>Consecutive non-empty ranges from \<open>i\<close> to \<open>e\<close>.\<close>

primrec tiles :: "nat \<Rightarrow> nat \<Rightarrow> (nat \<times> nat) list \<Rightarrow> bool" where
  "tiles i e [] \<longleftrightarrow> i = e"
| "tiles i e (v # vs) \<longleftrightarrow> fst v = i \<and> i < snd v \<and> tiles (snd v) e vs"

lemma run_end_le: "j \<le> e \<Longrightarrow> run_end f x j e \<le> e"
proof (induction f x j e rule: run_end.induct)
  case (1 f x j e)
  then show ?case by (simp add: run_end.simps [of f x j e])
qed

lemma run_end_stops: "j \<le> i \<Longrightarrow> i < e \<Longrightarrow> f i \<noteq> x \<Longrightarrow> run_end f x j e \<le> i"
proof (induction f x j e rule: run_end.induct)
  case (1 f x j e)
  show ?case
  proof (cases "j = i")
    case True
    then show ?thesis using 1 by (simp add: run_end.simps [of f x i e])
  next
    case False
    then show ?thesis using 1 by (simp add: run_end.simps [of f x j e])
  qed
qed

lemma key_runs_tiles: "i \<le> e \<Longrightarrow> tiles i e (key_runs f i e)"
proof (induction f i e rule: key_runs.induct)
  case (1 f i e)
  show ?case
  proof (cases "i < e")
    case True
    let ?j = "run_end f (f i) (i + 1) e"
    have "i < ?j" "?j \<le> e" using run_end_ge [of "i + 1" f "f i" e] run_end_le [of "i + 1" e f "f i"] True by simp_all
    then show ?thesis using 1 True by (simp add: key_runs.simps [of f i e] Let_def)
  qed (use 1 in \<open>simp add: key_runs.simps [of f e e]\<close>)
qed

lemma key_runs_two:
  assumes "i < e" "f i \<noteq> f (e - 1)"
  shows "2 \<le> length (key_runs f i e)"
proof -
  let ?j = "run_end f (f i) (i + 1) e"
  have "i \<noteq> e - 1" using assms(2) by auto
  then have "?j \<le> e - 1" using assms by (intro run_end_stops) auto
  then have "?j < e" using assms(1) by simp
  then show ?thesis using assms(1) by (simp add: key_runs.simps [of f i e] key_runs.simps [of f "run_end f (f i) (Suc i) e" e] Let_def)
qed

lemma tiles_sum: "tiles i e vs \<Longrightarrow> (\<Sum>v \<leftarrow> vs. 4 * (snd v - fst v) - 2) + 2 * length vs = 4 * (e - i)"
proof (induction vs arbitrary: i)
  case (Cons v vs)
  have "snd v \<le> e" if "tiles (snd v) e vs" using that
  proof (induction vs arbitrary: v)
    case (Cons u us)
    then show ?case by fastforce
  qed simp
  then show ?case using Cons by fastforce
qed simp

lemma tiles_bounds: "tiles i e vs \<Longrightarrow> v \<in> set vs \<Longrightarrow> i \<le> fst v \<and> fst v < snd v \<and> snd v \<le> e"
proof (induction vs arbitrary: i)
  case (Cons u us)
  have le: "tiles i e vs \<Longrightarrow> i \<le> e" for i vs by (induction vs arbitrary: i) fastforce+
  show ?case using Cons le [of "snd u" us] by fastforce
qed simp

lemma tiles_smaller:
  assumes "tiles i e vs" "2 \<le> length vs" "v \<in> set vs"
  shows "snd v - fst v < e - i"
proof -
  obtain a b r where vs: "vs = a # b # r" using assms(2) by (cases vs rule: remdups_adj.cases) auto
  have b: "i < snd a" "tiles (snd a) e (b # r)" "fst a = i" using assms(1) by (simp_all add: vs)
  have "snd a < e" using tiles_bounds [OF b(2), of b] by simp
  then show ?thesis using tiles_bounds [OF b(2), of v] assms(3) b(1,3) unfolding vs by auto
qed

definition key_symbol :: "byte list list \<Rightarrow> nat \<Rightarrow> nat \<Rightarrow> byte option" where
  "key_symbol ks p i = vec_get (ks ! i) p"

lemma common_prefix_split:
  "common_prefix a b \<le> length a \<and> common_prefix a b \<le> length b \<and> take (common_prefix a b) a = take (common_prefix a b) b \<and>
     (a \<noteq> b \<longrightarrow> vec_get a (common_prefix a b) \<noteq> vec_get b (common_prefix a b))"
proof (induction a arbitrary: b)
  case Nil
  show ?case by (cases b) (simp_all add: common_prefix_def vec_get_def)
next
  case (Cons x a)
  note IH = Cons.IH
  show ?case
  proof (cases b)
    case Nil
    then show ?thesis by (simp add: common_prefix_def vec_get_def)
  next
    case (Cons y c)
    show ?thesis
    proof (cases "x = y")
      case True
      have c: "common_prefix (x # a) b = Suc (common_prefix a c)" using True Cons by (simp add: common_prefix_def)
      show ?thesis unfolding c using IH [of c] Cons True by (auto simp: vec_get_def)
    next
      case False
      then show ?thesis using Cons by (simp add: common_prefix_def vec_get_def)
    qed
  qed
qed

definition work_weight :: "work \<Rightarrow> nat" where
  "work_weight w = (case w of Visit s e \<Rightarrow> if s < e then 4 * (e - s) - 2 else 2 | Finish _ _ _ _ \<Rightarrow> 1)"

lemma visits_weight:
  assumes "s < e" "ks ! s \<noteq> ks ! (e - 1)"
  shows "(\<Sum>v \<leftarrow> key_runs (key_symbol ks (common_prefix (ks ! s) (ks ! (e - 1)))) s e. work_weight (Visit (fst v) (snd v))) + 1 < 4 * (e - s) - 2"
proof -
  let ?f = "key_symbol ks (common_prefix (ks ! s) (ks ! (e - 1)))"
  let ?r = "key_runs ?f s e"
  have t: "tiles s e ?r" using assms(1) by (intro key_runs_tiles) simp
  have "?f s \<noteq> ?f (e - 1)" using common_prefix_split [of "ks ! s" "ks ! (e - 1)"] assms(2) by (simp add: key_symbol_def)
  then have two: "2 \<le> length ?r" by (rule key_runs_two [OF assms(1)])
  have "(\<Sum>v \<leftarrow> ?r. work_weight (Visit (fst v) (snd v))) = (\<Sum>v \<leftarrow> ?r. 4 * (snd v - fst v) - 2)"
    using tiles_bounds [OF t] by (intro arg_cong [of _ _ sum_list] map_cong) (auto simp: work_weight_def)
  then show ?thesis using tiles_sum [OF t] two by linarith
qed

text \<open>
  The stack machine of \<open>groups\<close>, the top of the stack first. The costs are those of the representation: a shared prefix
  costs its bytes and a span of 8 bytes.
\<close>

function groups_loop :: "byte list list \<Rightarrow> work list \<Rightarrow> key_group list \<Rightarrow> nat list \<Rightarrow> key_group list" where
  "groups_loop ks [] groups costs = groups"
| "groups_loop ks (Finish g mark cost_mark whole # work) groups costs =
     (let children = sum_list (drop cost_mark costs);
          groups = (if whole \<le> children then take mark groups @ [g] else groups)
      in groups_loop ks work groups (take cost_mark costs @ [min whole children]))"
| "groups_loop ks (Visit start fin # work) groups costs =
     (let first = ks ! start; final = ks ! (fin - 1); pfx = common_prefix first final;
          total = sum_list (map length (take (fin - start) (drop start ks)));
          shared = pfx + 8 + total - (fin - start) * pfx
      in
      if fin - start = 1 \<or> first = final then
        groups_loop ks work (groups @ [\<lparr>gr_start = start, gr_end = fin, gr_prefix = (if shared < total then pfx else 0)\<rparr>])
          (costs @ [min shared total])
      else
        groups_loop ks
          (map (\<lambda>v. Visit (fst v) (snd v)) (rev (key_runs (key_symbol ks pfx) start fin)) @
           Finish \<lparr>gr_start = start, gr_end = fin, gr_prefix = pfx\<rparr> (length groups) (length costs) (if pfx = 0 then total else shared) # work)
          groups costs)"
  by pat_completeness auto
termination
proof (relation "measure (\<lambda>(ks, work, groups, costs). sum_list (map work_weight work))", goal_cases)
  case (4 ks start fin work groups costs first final pfx total shared)
  show ?case
  proof (cases "start < fin")
    case True
    then show ?thesis
      using visits_weight [OF True, of ks] 4 by (simp add: work_weight_def rev_map [symmetric] sum_list_rev o_def)
  next
    case False
    then show ?thesis by (simp add: work_weight_def key_runs.simps)
  qed
qed (auto simp: work_weight_def)

definition key_groups :: "byte list list \<Rightarrow> key_group list" where
  "key_groups ks = groups_loop ks [Visit 0 (length ks)] [] []"

subsection \<open>Compression and sealing\<close>

primrec compress_rows :: "byte list list \<Rightarrow> nat \<Rightarrow> u32 \<Rightarrow> nat list \<Rightarrow> keys \<Rightarrow> keys option" where
  "compress_rows S pfx pid [] nx = Some nx"
| "compress_rows S pfx pid (row # rows) nx =
     (case span_append (ks_suffixes nx) (drop pfx (S ! row)) of Inl e \<Rightarrow> None
      | Inr (sp, sfxs) \<Rightarrow>
        compress_rows S pfx pid rows
          (nx\<lparr>ks_rows := (ks_rows nx)[row := sp], ks_suffixes := sfxs, ks_prefix_ids := (ks_prefix_ids nx)[row := pid]\<rparr>))"

primrec compress_loop :: "byte list list \<Rightarrow> nat list \<Rightarrow> key_group list \<Rightarrow> keys \<Rightarrow> keys option" where
  "compress_loop S order [] nx = Some nx"
| "compress_loop S order (g # gs) nx =
     (let rows = take (gr_end g - gr_start g) (drop (gr_start g) order) in
      if gr_prefix g = 0 then
        (case compress_rows S 0 NO_PREFIX rows nx of None \<Rightarrow> None | Some nx \<Rightarrow> compress_loop S order gs nx)
      else
        (case span_append (ks_prefix_bytes nx) (take (gr_prefix g) (S ! (order ! gr_start g))) of Inl e \<Rightarrow> None
         | Inr (sp, bytes) \<Rightarrow>
           (case compress_rows S (gr_prefix g) (of_nat (length (ks_prefixes nx))) rows
                   (nx\<lparr>ks_prefixes := ks_prefixes nx @ [sp], ks_prefix_bytes := bytes\<rparr>) of
              None \<Rightarrow> None | Some nx \<Rightarrow> compress_loop S order gs nx)))"

definition group_suffixes :: "byte list list \<Rightarrow> nat list \<Rightarrow> key_group \<Rightarrow> nat" where
  "group_suffixes S order g = sum_list (map (\<lambda>r. length (S ! r) - gr_prefix g) (take (gr_end g - gr_start g) (drop (gr_start g) order)))"

text \<open>Rows with equal keys may be sorted in any order; the order only affects where suffixes are stored.\<close>

definition keys_compress :: "keys \<Rightarrow> keys option" where
  "keys_compress K0 =
     (if ks_rows K0 = [] \<or> ks_prefix_ids K0 \<noteq> [] then Some K0
      else
        (case (if ks_garbage K0 \<noteq> 0 then keys_retain K0 (\<lambda>_. True) else Some K0) of None \<Rightarrow> None
         | Some K \<Rightarrow>
           (case those (map (\<lambda>sp. span_get sp (ks_suffixes K)) (ks_rows K)) of None \<Rightarrow> None
            | Some S \<Rightarrow>
              let n = length (ks_rows K); order = sort_key (\<lambda>r. S ! r) [0..<n]; groups = key_groups (map ((!) S) order);
                  prefix_len = sum_list (map gr_prefix groups);
                  prefix_count = length (filter (\<lambda>g. gr_prefix g \<noteq> 0) groups);
                  suffix_len = sum_list (map (group_suffixes S order) groups)
              in
              if prefix_len + prefix_count * 8 + suffix_len + n * 4 \<ge> length (ks_suffixes K) then Some K
              else compress_loop S order groups
                     (keys_default\<lparr>ks_rows := replicate n span_default, ks_prefix_ids := replicate n NO_PREFIX\<rparr>))))"

definition keys_seal :: "keys \<Rightarrow> keys option" where
  "keys_seal K =
     (if ks_offsets K = [] then (case keys_compress K of None \<Rightarrow> None | Some K \<Rightarrow> keys_freeze K) else Some K)"

end
