(* ===== verification/Small_Table.thy ===== *)
theory Small_Table
  imports Small_Keys
begin

text \<open>
  The key table refines a list of keys: \<open>table K\<close> lists the keys of the rows, a table in its invariant \<open>keys_wf\<close> answers
  every lookup, and \<open>insert\<close>, \<open>remove\<close>, \<open>retain\<close> and \<open>seal\<close> act on that list.
\<close>

subsection \<open>Sorted keys and groups\<close>

lemma sorted_between:
  fixes a b c :: "byte list"
  assumes "a \<le> b" "b \<le> c" "take p a = take p c" "p \<le> length a" "p \<le> length c"
  shows "p \<le> length b \<and> take p b = take p a"
  using assms
proof (induction p arbitrary: a b c)
  case (Suc p)
  obtain x a' where a: "a = x # a'" using Suc.prems(4) by (cases a) auto
  obtain c' where c: "c = x # c'" using Suc.prems(3,5) a by (cases c) auto
  obtain b' where b: "b = x # b'" "a' \<le> b'" "b' \<le> c'"
    using Suc.prems(1,2) unfolding a c by (cases b) (auto simp: less_le_not_le)
  show ?case using Suc.IH [of a' b' c'] b Suc.prems unfolding a c by simp
qed simp

definition group_ok :: "byte list list \<Rightarrow> key_group \<Rightarrow> bool" where
  "group_ok ks g \<longleftrightarrow>
     (\<forall>i. gr_start g \<le> i \<longrightarrow> i < gr_end g \<longrightarrow>
        gr_prefix g \<le> length (ks ! i) \<and> take (gr_prefix g) (ks ! i) = take (gr_prefix g) (ks ! gr_start g))"

definition groups_ok :: "byte list list \<Rightarrow> nat \<Rightarrow> nat \<Rightarrow> key_group list \<Rightarrow> bool" where
  "groups_ok ks s e G \<longleftrightarrow> tiles s e (rev (map (\<lambda>g. (gr_start g, gr_end g)) G)) \<and> (\<forall>g \<in> set G. group_ok ks g)"

lemma tiles_append: "tiles a b us \<Longrightarrow> tiles b c vs \<Longrightarrow> tiles a c (us @ vs)"
  by (induction us arbitrary: a) auto

lemma common_group:
  assumes "sorted ks" "e \<le> length ks" "s < e" "p \<in> {0, common_prefix (ks ! s) (ks ! (e - 1))}"
  shows "group_ok ks \<lparr>gr_start = s, gr_end = e, gr_prefix = p\<rparr>"
  unfolding group_ok_def
proof (intro allI impI)
  fix i assume "gr_start \<lparr>gr_start = s, gr_end = e, gr_prefix = p\<rparr> \<le> i" "i < gr_end \<lparr>gr_start = s, gr_end = e, gr_prefix = p\<rparr>"
  then have i: "s \<le> i" "i < e" by simp_all
  have "ks ! s \<le> ks ! i" "ks ! i \<le> ks ! (e - 1)" using assms(1,2) i by (auto intro!: sorted_nth_mono)
  then have "p \<le> length (ks ! i) \<and> take p (ks ! i) = take p (ks ! s)"
    using assms(4) common_prefix_split [of "ks ! s" "ks ! (e - 1)"]
      sorted_between [of "ks ! s" "ks ! i" "ks ! (e - 1)" "common_prefix (ks ! s) (ks ! (e - 1))"] by auto
  then show "gr_prefix \<lparr>gr_start = s, gr_end = e, gr_prefix = p\<rparr> \<le> length (ks ! i) \<and>
      take (gr_prefix \<lparr>gr_start = s, gr_end = e, gr_prefix = p\<rparr>) (ks ! i) =
      take (gr_prefix \<lparr>gr_start = s, gr_end = e, gr_prefix = p\<rparr>) (ks ! gr_start \<lparr>gr_start = s, gr_end = e, gr_prefix = p\<rparr>)"
    by simp
qed

lemma group_visits:
  assumes "\<And>v. v \<in> set vs \<Longrightarrow> \<exists>G c. groups_ok ks (fst v) (snd v) G \<and>
      (\<forall>w gs cs. groups_loop ks (Visit (fst v) (snd v) # w) gs cs = groups_loop ks w (gs @ G) (cs @ [c]))"
    and "tiles s e (rev vs)"
  shows "\<exists>G cs'. groups_ok ks s e G \<and>
      (\<forall>w gs cs. groups_loop ks (map (\<lambda>v. Visit (fst v) (snd v)) vs @ w) gs cs = groups_loop ks w (gs @ G) (cs @ cs'))"
  using assms
proof (induction vs arbitrary: e)
  case Nil
  then show ?case by (intro exI [of _ "[]"]) (simp add: groups_ok_def)
next
  case (Cons v vs)
  have split: "tiles s e (us @ [v]) \<Longrightarrow> tiles s (fst v) us \<and> snd v = e" for us by (induction us arbitrary: s) auto
  have t: "tiles s (fst v) (rev vs)" "snd v = e" using split [of "rev vs"] Cons.prems(2) by simp_all
  obtain G c where G: "groups_ok ks (fst v) e G"
      "\<And>w gs cs. groups_loop ks (Visit (fst v) (snd v) # w) gs cs = groups_loop ks w (gs @ G) (cs @ [c])"
    using Cons.prems(1) [of v] t(2) by auto
  obtain G' cs' where G': "groups_ok ks s (fst v) G'"
      "\<And>w gs cs. groups_loop ks (map (\<lambda>v. Visit (fst v) (snd v)) vs @ w) gs cs = groups_loop ks w (gs @ G') (cs @ cs')"
    using Cons.IH [OF Cons.prems(1) t(1)] by auto
  have "groups_ok ks s e (G @ G')" using G(1) G'(1) by (auto simp: groups_ok_def intro: tiles_append)
  then show ?case using G(2) G'(2) by (intro exI [of _ "G @ G'"] exI [of _ "c # cs'"]) simp
qed

lemma group_visit:
  assumes "sorted ks" "e \<le> length ks" "s < e"
  shows "\<exists>G c. groups_ok ks s e G \<and>
      (\<forall>w gs cs. groups_loop ks (Visit s e # w) gs cs = groups_loop ks w (gs @ G) (cs @ [c]))"
  using assms(2,3)
proof (induction "e - s" arbitrary: s e rule: less_induct)
  case less
  let ?p = "common_prefix (ks ! s) (ks ! (e - 1))"
  let ?total = "sum_list (map length (take (e - s) (drop s ks)))"
  let ?shared = "?p + 8 + ?total - (e - s) * ?p"
  have one: "groups_ok ks s e [\<lparr>gr_start = s, gr_end = e, gr_prefix = p\<rparr>]" if "p \<in> {0, ?p}" for p
    using common_group [OF assms(1) less.prems that] less.prems(2) by (simp add: groups_ok_def)
  show ?case
  proof (cases "e - s = 1 \<or> ks ! s = ks ! (e - 1)")
    case True
    let ?g = "\<lparr>gr_start = s, gr_end = e, gr_prefix = if ?shared < ?total then ?p else 0\<rparr>"
    have "groups_loop ks (Visit s e # w) gs cs = groups_loop ks w (gs @ [?g]) (cs @ [min ?shared ?total])" for w gs cs
      using True by (subst groups_loop.simps(3)) (simp only: Let_def if_True)
    then show ?thesis using one [of "if ?shared < ?total then ?p else 0"]
      by (intro exI [of _ "[?g]"] exI [of _ "min ?shared ?total"]) simp
  next
    case False
    let ?r = "key_runs (key_symbol ks ?p) s e"
    let ?whole = "if ?p = 0 then ?total else ?shared"
    let ?g = "\<lparr>gr_start = s, gr_end = e, gr_prefix = ?p\<rparr>"
    have t: "tiles s e ?r" using less.prems(2) by (intro key_runs_tiles) simp
    have two: "2 \<le> length ?r"
      using False common_prefix_split [of "ks ! s" "ks ! (e - 1)"] less.prems(2)
      by (intro key_runs_two) (simp_all add: key_symbol_def)
    have "\<exists>G c. groups_ok ks (fst v) (snd v) G \<and>
      (\<forall>w gs cs. groups_loop ks (Visit (fst v) (snd v) # w) gs cs = groups_loop ks w (gs @ G) (cs @ [c]))"
      if "v \<in> set (rev ?r)" for v
    proof (rule less.hyps)
      show "snd v - fst v < e - s" using tiles_smaller [OF t two] that by simp
      show "snd v \<le> length ks" "fst v < snd v" using tiles_bounds [OF t] that less.prems by fastforce+
    qed
    then obtain G cs' where G: "groups_ok ks s e G"
        "\<And>w gs cs. groups_loop ks (map (\<lambda>v. Visit (fst v) (snd v)) (rev ?r) @ w) gs cs = groups_loop ks w (gs @ G) (cs @ cs')"
      using group_visits [of "rev ?r" ks s e] t by auto
    have step: "groups_loop ks (Visit s e # w) gs cs =
        groups_loop ks w (if ?whole \<le> sum_list cs' then gs @ [?g] else gs @ G) (cs @ [min ?whole (sum_list cs')])" for w gs cs
    proof -
      have "groups_loop ks (Visit s e # w) gs cs =
          groups_loop ks (map (\<lambda>v. Visit (fst v) (snd v)) (rev ?r) @ Finish ?g (length gs) (length cs) ?whole # w) gs cs"
        using False by (subst groups_loop.simps(3)) (simp only: Let_def if_False)
      also have "\<dots> = groups_loop ks (Finish ?g (length gs) (length cs) ?whole # w) (gs @ G) (cs @ cs')" by (rule G(2))
      also have "\<dots> = groups_loop ks w (if ?whole \<le> sum_list cs' then gs @ [?g] else gs @ G) (cs @ [min ?whole (sum_list cs')])"
        by (simp add: Let_def)
      finally show ?thesis .
    qed
    show ?thesis
      using G(1) one [of ?p] step
      by (intro exI [of _ "if ?whole \<le> sum_list cs' then [?g] else G"] exI [of _ "min ?whole (sum_list cs')"]) simp
  qed
qed

lemma key_groups_ok:
  assumes "sorted ks" "ks \<noteq> []"
  shows "groups_ok ks 0 (length ks) (key_groups ks)"
  using group_visit [OF assms(1) order_refl, of 0] assms(2) unfolding key_groups_def by auto

subsection \<open>The invariant and the list of keys\<close>

definition span_ok :: "byte list \<Rightarrow> span \<Rightarrow> bool" where
  "span_ok bytes sp \<longleftrightarrow> unat (sp_offset sp) + unat (sp_len sp) \<le> length bytes"

definition span_bytes :: "byte list \<Rightarrow> span \<Rightarrow> byte list" where
  "span_bytes bytes sp = take (unat (sp_len sp)) (drop (unat (sp_offset sp)) bytes)"

definition span_lens :: "span list \<Rightarrow> nat" where
  "span_lens sps = sum_list (map (\<lambda>sp. unat (sp_len sp)) sps)"

definition loose_wf :: "keys \<Rightarrow> bool" where
  "loose_wf K \<longleftrightarrow>
     (\<forall>sp \<in> set (ks_rows K). span_ok (ks_suffixes K) sp) \<and>
     span_lens (ks_rows K) + ks_garbage K = length (ks_suffixes K) \<and> length (ks_suffixes K) \<le> U32_MAX \<and>
     (ks_prefix_ids K = [] \<or> length (ks_prefix_ids K) = length (ks_rows K)) \<and>
     (\<forall>i \<in> set (ks_prefix_ids K). i = NO_PREFIX \<or> unat i < length (ks_prefixes K)) \<and>
     (\<forall>sp \<in> set (ks_prefixes K). span_ok (ks_prefix_bytes K) sp) \<and>
     span_lens (ks_prefixes K) = length (ks_prefix_bytes K) \<and> length (ks_prefix_bytes K) \<le> U32_MAX \<and>
     length (ks_prefixes K) < U32_MAX"

definition keys_wf :: "keys \<Rightarrow> bool" where
  "keys_wf K \<longleftrightarrow> loose_wf (keys_thaw K)"

definition prefix_at :: "keys \<Rightarrow> nat \<Rightarrow> byte list" where
  "prefix_at K row =
     (if row < length (ks_prefix_ids K) \<and> ks_prefix_ids K ! row \<noteq> NO_PREFIX
      then span_bytes (ks_prefix_bytes K) (ks_prefixes K ! unat (ks_prefix_ids K ! row)) else [])"

definition suffix_at :: "keys \<Rightarrow> nat \<Rightarrow> byte list" where
  "suffix_at K row = span_bytes (ks_suffixes K) (ks_rows K ! row)"

definition loose_table :: "keys \<Rightarrow> byte list list" where
  "loose_table K = map (\<lambda>row. prefix_at K row @ suffix_at K row) [0..<length (ks_rows K)]"

definition table :: "keys \<Rightarrow> byte list list" where
  "table K = loose_table (keys_thaw K)"

definition table_live :: "keys \<Rightarrow> nat" where
  "table_live K = span_lens (ks_rows (keys_thaw K))"

definition footprint :: "keys \<Rightarrow> nat" where
  "footprint K = length (ks_suffixes K) + length (ks_prefix_bytes K) + 8 * length (ks_prefixes K) + 4 * length (ks_prefix_ids K)"

lemmas loose_defs = loose_wf_def prefix_at_def suffix_at_def

lemma NO_PREFIX_nat [simp]: "unat NO_PREFIX = U32_MAX"
  by (simp add: NO_PREFIX_def U32_MAX_def unsigned_minus_1_eq_mask mask_eq_exp_minus_1)

lemma loose_fields:
  assumes "loose_wf K"
  shows "sp \<in> set (ks_rows K) \<Longrightarrow> span_ok (ks_suffixes K) sp" "length (ks_suffixes K) \<le> U32_MAX"
    "span_lens (ks_rows K) + ks_garbage K = length (ks_suffixes K)"
    "ks_prefix_ids K = [] \<or> length (ks_prefix_ids K) = length (ks_rows K)"
  using assms by (simp_all add: loose_wf_def)

lemma span_get_ok: "span_get sp bytes = (if span_ok bytes sp then Some (span_bytes bytes sp) else None)"
  by (simp add: span_get_def span_ok_def span_bytes_def)

lemma span_bytes_length [simp]: "span_ok bytes sp \<Longrightarrow> length (span_bytes bytes sp) = unat (sp_len sp)"
  by (simp add: span_ok_def span_bytes_def)

lemma span_ok_append: "span_ok b sp \<Longrightarrow> span_ok (b @ c) sp"
  by (simp add: span_ok_def)

lemma span_bytes_append: "span_ok b sp \<Longrightarrow> span_bytes (b @ c) sp = span_bytes b sp"
  by (simp add: span_ok_def span_bytes_def)

lemma span_lens_simps [simp]:
  "span_lens [] = 0" "span_lens (a # r) = unat (sp_len a) + span_lens r" "span_lens (xs @ ys) = span_lens xs + span_lens ys"
  by (simp_all add: span_lens_def)

lemma u32_nat: "n \<le> U32_MAX \<Longrightarrow> unat (of_nat n :: u32) = n"
  by (simp add: U32_MAX_def unsigned_of_nat take_bit_nat_eq_self)

lemma span_append_cases:
  obtains (full) "length b + length k > U32_MAX" "span_append b k = Inl (IoOther ''small-object key buffer overflow'')"
  | (fits) sp where "length b + length k \<le> U32_MAX" "span_append b k = Inr (sp, b @ k)" "span_ok (b @ k) sp"
      "span_bytes (b @ k) sp = k" "unat (sp_len sp) = length k"
proof (cases "length b + length k > U32_MAX")
  case False
  let ?sp = "\<lparr>sp_offset = of_nat (length b), sp_len = of_nat (length k)\<rparr> :: span"
  show ?thesis
  proof (rule fits [of ?sp])
    show "span_append b k = Inr (?sp, b @ k)" using False by (simp add: span_append_def)
  qed (use False in \<open>simp_all add: span_ok_def span_bytes_def u32_nat\<close>)
qed (simp add: span_append_def full)

lemma span_append_Inr:
  assumes "span_append b k = Inr (sp, s)"
  shows "length b + length k \<le> U32_MAX" "s = b @ k" "span_ok s sp" "span_bytes s sp = k" "unat (sp_len sp) = length k"
  by (rule span_append_cases [of b k]; use assms in simp)+

lemma span_append_fits:
  assumes "length b + length k \<le> U32_MAX"
  shows "\<exists>sp. span_append b k = Inr (sp, b @ k)"
  using assms by (simp add: span_append_def)

lemma windows_length: "length (windows_spans os) = length os - 1"
  by (induction os rule: windows_spans.induct) auto

lemma windows_nth: "row + 1 < length os \<Longrightarrow> windows_spans os ! row = \<lparr>sp_offset = os ! row, sp_len = os ! (row + 1) - os ! row\<rparr>"
proof (induction os arbitrary: row rule: windows_spans.induct)
  case (1 a b r)
  then show ?case by (cases row) auto
qed auto

lemma thaw_fields [simp]:
  "ks_suffixes (keys_thaw K) = ks_suffixes K" "ks_offsets (keys_thaw K) = []" "ks_prefix_ids (keys_thaw K) = ks_prefix_ids K"
  "ks_prefixes (keys_thaw K) = ks_prefixes K" "ks_prefix_bytes (keys_thaw K) = ks_prefix_bytes K"
  "ks_garbage (keys_thaw K) = ks_garbage K"
  by (simp_all add: keys_thaw_def)

lemma thaw_thaw [simp]: "keys_thaw (keys_thaw K) = keys_thaw K"
  by (simp add: keys_thaw_def)

lemma thaw_loose: "ks_offsets K = [] \<Longrightarrow> keys_thaw K = K"
  by (simp add: keys_thaw_def)

lemma thaw_slots: "keys_slots K = length (ks_rows (keys_thaw K))"
  by (simp add: keys_slots_def keys_thaw_def windows_length)

lemma thaw_get: "keys_get (keys_thaw K) row = keys_get K row"
proof -
  have "row_span (keys_thaw K) row = row_span K row"
    by (auto simp: row_span_def keys_thaw_def windows_length vec_get_def windows_nth)
  moreover have "row_prefix (keys_thaw K) row = row_prefix K row" unfolding row_prefix_def thaw_fields ..
  ultimately show ?thesis by (simp add: keys_get_def cong: option.case_cong)
qed

lemma loose_prefix:
  assumes "loose_wf K"
  shows "row_prefix K row = Some (prefix_at K row)"
proof (cases "row < length (ks_prefix_ids K)")
  case True
  then have i: "ks_prefix_ids K ! row = NO_PREFIX \<or> unat (ks_prefix_ids K ! row) < length (ks_prefixes K)"
    using assms nth_mem [OF True] unfolding loose_wf_def by blast
  show ?thesis
  proof (cases "ks_prefix_ids K ! row = NO_PREFIX")
    case none: True
    have "vec_get (ks_prefixes K) U32_MAX = None" using assms by (simp add: loose_wf_def vec_get_def)
    then show ?thesis using True none by (simp add: row_prefix_def prefix_at_def)
  next
    case False
    then have "span_ok (ks_prefix_bytes K) (ks_prefixes K ! unat (ks_prefix_ids K ! row))"
      using assms i nth_mem unfolding loose_wf_def by blast
    then show ?thesis using True False i by (simp add: row_prefix_def prefix_at_def span_get_ok)
  qed
qed (simp add: row_prefix_def prefix_at_def vec_get_def)

lemma loose_get:
  assumes "loose_wf K" "ks_offsets K = []"
  shows "keys_get K row = Some (if row < length (ks_rows K) then Some (prefix_at K row, suffix_at K row) else None)"
proof (cases "row < length (ks_rows K)")
  case True
  then have "span_ok (ks_suffixes K) (ks_rows K ! row)" using assms(1) nth_mem unfolding loose_wf_def by blast
  then show ?thesis using True assms loose_prefix [OF assms(1), of row]
    by (simp add: keys_get_def row_span_def span_get_ok suffix_at_def)
qed (simp add: keys_get_def row_span_def assms(2) vec_get_def)

lemma table_length [simp]: "length (table K) = keys_slots K"
  by (simp add: table_def loose_table_def thaw_slots)

lemma keys_get_table:
  assumes "keys_wf K"
  shows "\<exists>p s. keys_get K row = Some (if row < keys_slots K then Some (p, s) else None) \<and> (row < keys_slots K \<longrightarrow> p @ s = table K ! row)"
proof -
  have "keys_get K row = Some (if row < keys_slots K then Some (prefix_at (keys_thaw K) row, suffix_at (keys_thaw K) row) else None)"
    using loose_get [of "keys_thaw K" row] assms by (simp add: keys_wf_def thaw_get thaw_slots)
  then show ?thesis by (auto simp: table_def loose_table_def thaw_slots)
qed

lemma keys_default_ok [simp]: "keys_wf keys_default" "table keys_default = []" "table_live keys_default = 0"
  by (simp_all add: keys_wf_def table_def table_live_def keys_default_def keys_thaw_def loose_wf_def loose_table_def U32_MAX_def)

subsection \<open>Freezing\<close>

lemma freeze_loop_result:
  assumes "\<forall>sp \<in> set rows. span_ok old sp" "length s + span_lens rows \<le> U32_MAX"
  shows "\<exists>os. freeze_loop old rows offs s = Some (offs @ of_nat (length s) # os, s @ concat (map (span_bytes old) rows)) \<and>
      length (windows_spans (of_nat (length s) # os)) = length rows \<and>
      span_lens (windows_spans (of_nat (length s) # os)) = span_lens rows \<and>
      list_all2 (\<lambda>w r. span_ok (s @ concat (map (span_bytes old) rows)) w \<and>
          span_bytes (s @ concat (map (span_bytes old) rows)) w = span_bytes old r)
        (windows_spans (of_nat (length s) # os)) rows"
  using assms
proof (induction rows arbitrary: s offs)
  case (Cons r rows)
  let ?b = "span_bytes old r"
  have r: "span_ok old r" using Cons.prems(1) by simp
  have len: "length (s @ ?b) + span_lens rows \<le> U32_MAX" using Cons.prems r by simp
  obtain os where os: "freeze_loop old rows (offs @ [of_nat (length s)]) (s @ ?b) =
        Some ((offs @ [of_nat (length s)]) @ of_nat (length (s @ ?b)) # os, (s @ ?b) @ concat (map (span_bytes old) rows))"
      "length (windows_spans (of_nat (length (s @ ?b)) # os)) = length rows"
      "span_lens (windows_spans (of_nat (length (s @ ?b)) # os)) = span_lens rows"
      "list_all2 (\<lambda>w r. span_ok ((s @ ?b) @ concat (map (span_bytes old) rows)) w \<and>
          span_bytes ((s @ ?b) @ concat (map (span_bytes old) rows)) w = span_bytes old r)
        (windows_spans (of_nat (length (s @ ?b)) # os)) rows"
    using Cons.IH [of "s @ ?b" "offs @ [of_nat (length s)]"] Cons.prems(1) len by auto
  let ?w = "\<lparr>sp_offset = of_nat (length s), sp_len = of_nat (length (s @ ?b)) - of_nat (length s)\<rparr> :: span"
  have w: "unat (sp_len ?w) = unat (sp_len r)" "unat (sp_offset ?w) = length s" using len r by (simp_all add: u32_nat)
  have "span_ok (s @ ?b @ c) ?w \<and> span_bytes (s @ ?b @ c) ?w = ?b" for c
    unfolding span_ok_def span_bytes_def [of "s @ ?b @ c"] w using r by simp
  then show ?case using os w r
    by (intro exI [of _ "of_nat (length (s @ ?b)) # os"]) (simp add: span_get_ok)
qed simp

lemma loose_table_cong:
  assumes "length (ks_rows K) = length (ks_rows L)"
    and "\<And>row. row < length (ks_rows L) \<Longrightarrow> suffix_at K row = suffix_at L row"
    and "\<And>row. row < length (ks_rows L) \<Longrightarrow> prefix_at K row = prefix_at L row"
  shows "loose_table K = loose_table L"
  using assms by (simp add: loose_table_def)

lemma freeze_ok:
  assumes "loose_wf K"
  shows "\<exists>K'. keys_freeze K = Some K' \<and> keys_wf K' \<and> table K' = loose_table K \<and> table_live K' = span_lens (ks_rows K) \<and>
    ks_offsets K' \<noteq> [] \<and> length (ks_suffixes K') = span_lens (ks_rows K) \<and> ks_prefix_ids K' = ks_prefix_ids K \<and>
    ks_prefixes K' = ks_prefixes K \<and> ks_prefix_bytes K' = ks_prefix_bytes K"
proof -
  let ?s = "concat (map (span_bytes (ks_suffixes K)) (ks_rows K))"
  obtain os where os: "freeze_loop (ks_suffixes K) (ks_rows K) [] [] = Some (0 # os, ?s)"
      "length (windows_spans (0 # os)) = length (ks_rows K)" "span_lens (windows_spans (0 # os)) = span_lens (ks_rows K)"
      "list_all2 (\<lambda>w r. span_ok ?s w \<and> span_bytes ?s w = span_bytes (ks_suffixes K) r) (windows_spans (0 # os)) (ks_rows K)"
    using freeze_loop_result [of "ks_rows K" "ks_suffixes K" "[]" "[]"] assms by (auto simp: loose_wf_def)
  define F where "F = K\<lparr>ks_offsets := 0 # os, ks_rows := [], ks_suffixes := ?s, ks_garbage := 0\<rparr>"
  have thaw: "keys_thaw F = F\<lparr>ks_rows := windows_spans (0 # os), ks_offsets := []\<rparr>" by (simp add: keys_thaw_def F_def)
  have sfx: "ks_suffixes F = ?s" by (simp add: F_def)
  have rows: "ks_rows (keys_thaw F) = windows_spans (0 # os)" by (simp add: thaw)
  have len: "length ?s = span_lens (ks_rows K)" using assms unfolding loose_wf_def
    by (induction "ks_rows K") (simp_all add: length_concat o_def span_lens_def cong: map_cong)
  have ok: "\<forall>sp \<in> set (windows_spans (0 # os)). span_ok ?s sp"
    using os(4) by (auto simp: list_all2_conv_all_nth in_set_conv_nth)
  have wf: "loose_wf (keys_thaw F)" using assms ok os(2,3) len unfolding loose_wf_def rows by (simp add: F_def)
  have "loose_table (keys_thaw F) = loose_table K"
  proof (rule loose_table_cong)
    show "suffix_at (keys_thaw F) row = suffix_at K row" if "row < length (ks_rows K)" for row
      using os(4) that by (simp add: suffix_at_def rows sfx list_all2_conv_all_nth)
    show "prefix_at (keys_thaw F) row = prefix_at K row" for row unfolding prefix_at_def thaw_fields by (simp add: F_def)
  qed (simp add: rows os(2))
  then show ?thesis using wf os(1,3) len
    by (intro exI [of _ F]) (simp add: keys_freeze_def F_def [symmetric] keys_wf_def table_def table_live_def rows, simp add: F_def)
qed

subsection \<open>Retaining rows\<close>

text \<open>
  The loop of \<open>retain\<close> after some rows: the new table holds the keys of the rows kept so far, and an old prefix number is
  mapped to a copy of that prefix or to no number yet. \<open>copied\<close> are the old prefixes already copied.
\<close>

definition copied :: "u32 list \<Rightarrow> nat set" where
  "copied ids = {p. p < length ids \<and> ids ! p \<noteq> NO_PREFIX}"

definition prefix_lens :: "keys \<Rightarrow> nat set \<Rightarrow> nat" where
  "prefix_lens K D = (\<Sum>p \<in> D. unat (sp_len (ks_prefixes K ! p)))"

definition retaining :: "keys \<Rightarrow> nat list \<Rightarrow> keys \<times> u32 list \<Rightarrow> bool" where
  "retaining K rows st \<longleftrightarrow>
     (let nx = fst st; ids = snd st in
      loose_wf nx \<and> ks_offsets nx = [] \<and> ks_garbage nx = 0 \<and>
      loose_table nx = map (\<lambda>row. prefix_at K row @ suffix_at K row) rows \<and>
      span_lens (ks_rows nx) = sum_list (map (\<lambda>row. unat (sp_len (ks_rows K ! row))) rows) \<and>
      (if ks_prefix_ids K = [] then ks_prefix_ids nx = [] else length (ks_prefix_ids nx) = length (ks_rows nx)) \<and>
      length ids = length (ks_prefixes K) \<and>
      length (ks_prefixes nx) = card (copied ids) \<and> length (ks_prefix_bytes nx) = prefix_lens K (copied ids) \<and>
      (\<forall>p \<in> copied ids. unat (ids ! p) < length (ks_prefixes nx) \<and>
         span_bytes (ks_prefix_bytes nx) (ks_prefixes nx ! unat (ids ! p)) = span_bytes (ks_prefix_bytes K) (ks_prefixes K ! p)))"

lemma loose_table_push:
  assumes "loose_wf nx" "span_append (ks_suffixes nx) sfx = Inr (sp, sfxs)"
    and "ks_rows nx' = ks_rows nx @ [sp]" "ks_suffixes nx' = sfxs"
    and "\<And>row. row < length (ks_rows nx) \<Longrightarrow> prefix_at nx' row = prefix_at nx row"
    and "prefix_at nx' (length (ks_rows nx)) = pfx"
  shows "loose_table nx' = loose_table nx @ [pfx @ sfx]"
proof -
  have sp: "sfxs = ks_suffixes nx @ sfx" "span_bytes (ks_suffixes nx @ sfx) sp = sfx"
    using span_append_Inr [OF assms(2)] by simp_all
  have "suffix_at nx' row = suffix_at nx row" if "row < length (ks_rows nx)" for row
    using that assms(1,3,4) sp(1) by (simp add: suffix_at_def nth_append loose_wf_def span_bytes_append)
  moreover have "suffix_at nx' (length (ks_rows nx)) = sfx" using assms(3,4) sp by (simp add: suffix_at_def)
  ultimately show ?thesis using assms(3,5,6) by (simp add: loose_table_def)
qed

lemma prefix_lens_le:
  assumes "loose_wf K" "D \<subseteq> {..<length (ks_prefixes K)}"
  shows "prefix_lens K D \<le> length (ks_prefix_bytes K)"
proof -
  have "prefix_lens K D \<le> prefix_lens K {..<length (ks_prefixes K)}"
    unfolding prefix_lens_def using assms(2) by (intro sum_mono2) auto
  also have "\<dots> = span_lens (ks_prefixes K)"
    by (simp add: prefix_lens_def span_lens_def sum_list_sum_nth atLeast0LessThan)
  finally show ?thesis using assms(1) by (simp add: loose_wf_def)
qed

lemma copied_simps [simp]:
  "copied (replicate n NO_PREFIX) = {}" "finite (copied ids)"
  by (auto simp: copied_def)

lemma copied_update: "p < length ids \<Longrightarrow> v \<noteq> NO_PREFIX \<Longrightarrow> copied (ids[p := v]) = insert p (copied ids)"
  by (auto simp: copied_def nth_list_update)

text \<open>One row: with no prefix, with a prefix already copied, and with a prefix to copy.\<close>

lemma loose_push:
  assumes "loose_wf nx" "ks_garbage nx = 0" "span_append (ks_suffixes nx) sfx = Inr (sp, sfxs)"
    and "ks_prefix_ids nx = [] \<and> ids' = [] \<or> length (ks_prefix_ids nx) = length (ks_rows nx) \<and> ids' = [pid] \<and> (pid = NO_PREFIX \<or> unat pid < length (ks_prefixes nx))"
  shows "loose_wf (nx\<lparr>ks_rows := ks_rows nx @ [sp], ks_suffixes := sfxs, ks_prefix_ids := ks_prefix_ids nx @ ids'\<rparr>)"
  using assms span_append_Inr [OF assms(3)] by (auto simp: loose_wf_def span_ok_append)

lemma loose_add_prefix:
  assumes "loose_wf nx" "span_append (ks_prefix_bytes nx) pfx = Inr (sp, bytes)" "length (ks_prefixes nx) + 1 < U32_MAX"
  shows "loose_wf (nx\<lparr>ks_prefixes := ks_prefixes nx @ [sp], ks_prefix_bytes := bytes\<rparr>)"
    "loose_table (nx\<lparr>ks_prefixes := ks_prefixes nx @ [sp], ks_prefix_bytes := bytes\<rparr>) = loose_table nx"
    "span_bytes bytes ((ks_prefixes nx @ [sp]) ! length (ks_prefixes nx)) = pfx"
    "p < length (ks_prefixes nx) \<Longrightarrow> span_bytes bytes ((ks_prefixes nx @ [sp]) ! p) = span_bytes (ks_prefix_bytes nx) (ks_prefixes nx ! p)"
proof -
  note sp = span_append_Inr [OF assms(2)]
  show "loose_wf (nx\<lparr>ks_prefixes := ks_prefixes nx @ [sp], ks_prefix_bytes := bytes\<rparr>)"
    using assms sp by (auto simp: loose_wf_def span_ok_append)
  show old: "span_bytes bytes ((ks_prefixes nx @ [sp]) ! p) = span_bytes (ks_prefix_bytes nx) (ks_prefixes nx ! p)"
    if "p < length (ks_prefixes nx)" for p
    using that assms(1) sp(2) by (simp add: nth_append loose_wf_def span_bytes_append)
  show "span_bytes bytes ((ks_prefixes nx @ [sp]) ! length (ks_prefixes nx)) = pfx" using sp(4) by simp
  have ids: "unat (ks_prefix_ids nx ! row) < length (ks_prefixes nx)"
    if "row < length (ks_prefix_ids nx)" "ks_prefix_ids nx ! row \<noteq> NO_PREFIX" for row
    using assms(1) nth_mem [OF that(1)] that(2) unfolding loose_wf_def by blast
  show "loose_table (nx\<lparr>ks_prefixes := ks_prefixes nx @ [sp], ks_prefix_bytes := bytes\<rparr>) = loose_table nx"
    by (rule loose_table_cong) (auto simp: suffix_at_def prefix_at_def ids old)
qed

lemma retaining_push:
  assumes r: "retaining K rows (nx, ids)" and a: "span_append (ks_suffixes nx) (suffix_at K row) = Inr (sp, sfxs)"
    and len: "length (suffix_at K row) = unat (sp_len (ks_rows K ! row))"
    and i: "ks_prefix_ids K = [] \<and> ids' = [] \<and> prefix_at K row = [] \<or>
      ks_prefix_ids K \<noteq> [] \<and> ids' = [pid] \<and>
        (pid = NO_PREFIX \<and> prefix_at K row = [] \<or>
         pid \<noteq> NO_PREFIX \<and> unat pid < length (ks_prefixes nx) \<and> span_bytes (ks_prefix_bytes nx) (ks_prefixes nx ! unat pid) = prefix_at K row)"
  shows "retaining K (rows @ [row]) (nx\<lparr>ks_rows := ks_rows nx @ [sp], ks_suffixes := sfxs, ks_prefix_ids := ks_prefix_ids nx @ ids'\<rparr>, ids)"
proof -
  let ?nx = "nx\<lparr>ks_rows := ks_rows nx @ [sp], ks_suffixes := sfxs, ks_prefix_ids := ks_prefix_ids nx @ ids'\<rparr>"
  have nx: "loose_wf nx" "ks_garbage nx = 0" using r by (simp_all add: retaining_def Let_def)
  have c: "if ks_prefix_ids K = [] then ks_prefix_ids nx = [] else length (ks_prefix_ids nx) = length (ks_rows nx)"
    using r by (simp add: retaining_def Let_def)
  have wf: "loose_wf ?nx" using i c by (intro loose_push [OF nx a, of ids' pid]) (auto split: if_splits)
  have old: "prefix_at ?nx j = prefix_at nx j" if "j < length (ks_rows nx)" for j
    using c i that by (auto simp: prefix_at_def nth_append split: if_splits)
  have pushed: "prefix_at ?nx (length (ks_rows nx)) = prefix_at K row"
  proof (cases "ks_prefix_ids K = []")
    case True
    then show ?thesis unfolding prefix_at_def [of ?nx] using c i by simp
  next
    case False
    then show ?thesis unfolding prefix_at_def [of ?nx] using c i by (auto simp: nth_append)
  qed
  have "loose_table ?nx = loose_table nx @ [prefix_at K row @ suffix_at K row]"
    by (rule loose_table_push [OF nx(1) a _ _ old pushed]) simp_all
  then show ?thesis using r wf c i span_append_Inr(5) [OF a] len by (auto simp: retaining_def Let_def)
qed

lemma retaining_copy:
  assumes r: "retaining K rows (nx, ids)" and K: "loose_wf K" and o: "old < length (ks_prefixes K)" "ids ! old = NO_PREFIX"
  shows "\<exists>sp bytes. span_append (ks_prefix_bytes nx) (span_bytes (ks_prefix_bytes K) (ks_prefixes K ! old)) = Inr (sp, bytes) \<and>
     length (ks_prefixes nx) < U32_MAX \<and>
     retaining K rows (nx\<lparr>ks_prefixes := ks_prefixes nx @ [sp], ks_prefix_bytes := bytes\<rparr>, ids[old := of_nat (length (ks_prefixes nx))]) \<and>
     span_bytes bytes ((ks_prefixes nx @ [sp]) ! length (ks_prefixes nx)) = span_bytes (ks_prefix_bytes K) (ks_prefixes K ! old)"
proof -
  let ?D = "copied ids" and ?p = "span_bytes (ks_prefix_bytes K) (ks_prefixes K ! old)"
  have nx: "loose_wf nx" "length ids = length (ks_prefixes K)" "length (ks_prefixes nx) = card ?D"
      "length (ks_prefix_bytes nx) = prefix_lens K ?D" using r by (simp_all add: retaining_def Let_def)
  have D: "?D \<subseteq> {..<length (ks_prefixes K)}" "old \<notin> ?D" using o nx(2) by (auto simp: copied_def)
  have ok: "span_ok (ks_prefix_bytes K) (ks_prefixes K ! old)" using K nth_mem [OF o(1)] unfolding loose_wf_def by blast
  have lens: "prefix_lens K (insert old ?D) = prefix_lens K ?D + length ?p" using D(2) ok by (simp add: prefix_lens_def)
  have "prefix_lens K (insert old ?D) \<le> length (ks_prefix_bytes K)" using D o(1) by (intro prefix_lens_le [OF K]) auto
  then have "prefix_lens K (insert old ?D) \<le> U32_MAX" using K unfolding loose_wf_def by linarith
  then obtain sp where a: "span_append (ks_prefix_bytes nx) ?p = Inr (sp, ks_prefix_bytes nx @ ?p)"
    using span_append_fits [of "ks_prefix_bytes nx" ?p] nx(4) lens by auto
  have "card (insert old ?D) \<le> length (ks_prefixes K)" using card_mono [of "{..<length (ks_prefixes K)}" "insert old ?D"] D o(1) by auto
  then have small: "length (ks_prefixes nx) + 1 < U32_MAX" using D(2) nx(3) K by (simp add: loose_wf_def)
  have v: "unat (of_nat (length (ks_prefixes nx)) :: u32) = length (ks_prefixes nx)" using small by (intro u32_nat) simp
  then have ne: "(of_nat (length (ks_prefixes nx)) :: u32) \<noteq> NO_PREFIX" using small NO_PREFIX_nat by (metis add.commute not_add_less2)
  note add = loose_add_prefix [OF nx(1) a small]
  have cp: "copied (ids[old := of_nat (length (ks_prefixes nx))]) = insert old ?D" using ne o(1) nx(2) by (intro copied_update) simp_all
  have "retaining K rows (nx\<lparr>ks_prefixes := ks_prefixes nx @ [sp], ks_prefix_bytes := ks_prefix_bytes nx @ ?p\<rparr>, ids[old := of_nat (length (ks_prefixes nx))])"
    using r add D(2) lens nx o(1) v unfolding retaining_def Let_def fst_conv snd_conv cp
    by (auto simp: nth_list_update copied_def)
  then show ?thesis using a add(3) small by auto
qed

lemma retain_prefix_ok:
  assumes r: "retaining K rows (nx, ids)" and K: "loose_wf K" "row < length (ks_rows K)" "ks_prefix_ids K \<noteq> []"
    and a: "span_append (ks_suffixes nx) (suffix_at K row) = Inr (sp, sfxs)"
    and len: "length (suffix_at K row) = unat (sp_len (ks_rows K ! row))"
  shows "\<exists>st'. retain_prefix K row (prefix_at K row) (nx\<lparr>ks_rows := ks_rows nx @ [sp], ks_suffixes := sfxs\<rparr>, ids) = Some st' \<and>
    retaining K (rows @ [row]) st'"
proof -
  let ?old = "ks_prefix_ids K ! row"
  have row: "row < length (ks_prefix_ids K)" using K by (auto simp: loose_wf_def)
  have old: "?old = NO_PREFIX \<or> unat ?old < length (ks_prefixes K)" using K(1) nth_mem [OF row] unfolding loose_wf_def by blast
  have ids: "length ids = length (ks_prefixes K)" using r by (simp add: retaining_def Let_def)
  have pushed: "retaining K (rows @ [row]) (nx\<lparr>ks_rows := ks_rows nx @ [sp], ks_suffixes := sfxs, ks_prefix_ids := ks_prefix_ids nx @ [pid]\<rparr>, ids)"
    if "pid = NO_PREFIX \<and> prefix_at K row = [] \<or> pid \<noteq> NO_PREFIX \<and> unat pid < length (ks_prefixes nx) \<and>
        span_bytes (ks_prefix_bytes nx) (ks_prefixes nx ! unat pid) = prefix_at K row" for pid
    using that K(3) by (intro retaining_push [OF r a len, of "[pid]" pid]) simp
  show ?thesis
  proof (cases "?old = NO_PREFIX")
    case True
    then have "prefix_at K row = []" by (simp add: prefix_at_def)
    then show ?thesis using pushed [of NO_PREFIX] row True by (simp add: retain_prefix_def)
  next
    case some: False
    then have o: "unat ?old < length (ks_prefixes K)" using old by simp
    have pfx: "prefix_at K row = span_bytes (ks_prefix_bytes K) (ks_prefixes K ! unat ?old)" using some row by (simp add: prefix_at_def)
    show ?thesis
    proof (cases "ids ! unat ?old = NO_PREFIX")
      case True
      obtain ps bytes where c: "span_append (ks_prefix_bytes nx) (prefix_at K row) = Inr (ps, bytes)" "length (ks_prefixes nx) < U32_MAX"
          "retaining K rows (nx\<lparr>ks_prefixes := ks_prefixes nx @ [ps], ks_prefix_bytes := bytes\<rparr>, ids[unat ?old := of_nat (length (ks_prefixes nx))])"
          "span_bytes bytes ((ks_prefixes nx @ [ps]) ! length (ks_prefixes nx)) = prefix_at K row"
        using retaining_copy [OF r K(1) o True] unfolding pfx by blast
      let ?pid = "of_nat (length (ks_prefixes nx)) :: u32"
      have pid: "unat ?pid = length (ks_prefixes nx)" using c(2) by (intro u32_nat) simp
      then have ne: "?pid \<noteq> NO_PREFIX" using c(2) NO_PREFIX_nat by (metis less_irrefl)
      have a': "span_append (ks_suffixes (nx\<lparr>ks_prefixes := ks_prefixes nx @ [ps], ks_prefix_bytes := bytes\<rparr>)) (suffix_at K row) = Inr (sp, sfxs)"
        using a by simp
      have upd: "nx\<lparr>ks_prefixes := ks_prefixes nx @ [ps], ks_prefix_bytes := bytes, ks_rows := ks_rows nx @ [sp], ks_suffixes := sfxs,
            ks_prefix_ids := ks_prefix_ids nx @ [?pid]\<rparr> =
          nx\<lparr>ks_rows := ks_rows nx @ [sp], ks_suffixes := sfxs, ks_prefixes := ks_prefixes nx @ [ps],
            ks_prefix_bytes := bytes, ks_prefix_ids := ks_prefix_ids nx @ [?pid]\<rparr>" by (cases nx) simp
      have "retaining K (rows @ [row]) (nx\<lparr>ks_rows := ks_rows nx @ [sp], ks_suffixes := sfxs, ks_prefixes := ks_prefixes nx @ [ps],
          ks_prefix_bytes := bytes, ks_prefix_ids := ks_prefix_ids nx @ [?pid]\<rparr>, ids[unat ?old := ?pid])"
        using retaining_push [OF c(3) a' len, of "[?pid]" ?pid] K(3) ne pid c(4) unfolding upd [symmetric] by simp
      then show ?thesis using row some o ids True c(1) by (simp add: retain_prefix_def Let_def)
    next
      case False
      then have "unat ?old \<in> copied ids" using o ids by (simp add: copied_def)
      then have "unat (ids ! unat ?old) < length (ks_prefixes nx)"
          "span_bytes (ks_prefix_bytes nx) (ks_prefixes nx ! unat (ids ! unat ?old)) = prefix_at K row"
        using r unfolding pfx retaining_def Let_def by auto
      then show ?thesis using pushed [of "ids ! unat ?old"] row some o ids False by (simp add: retain_prefix_def)
    qed
  qed
qed

lemma retain_loop_ok:
  assumes "loose_wf K" "ks_offsets K = []"
  shows "\<lbrakk>retaining K rs st; \<forall>row \<in> set rows. row < length (ks_rows K);
      sum_list (map (\<lambda>row. unat (sp_len (ks_rows K ! row))) (rs @ filter keep rows)) \<le> U32_MAX\<rbrakk> \<Longrightarrow>
    \<exists>st'. retain_loop K keep rows st = Some st' \<and> retaining K (rs @ filter keep rows) st'"
proof (induction rows arbitrary: rs st)
  case (Cons row rows)
  show ?case
  proof (cases "keep row")
    case True
    obtain nx ids where st: "st = (nx, ids)" by (cases st)
    have row: "row < length (ks_rows K)" using Cons.prems(2) by simp
    have ok: "span_ok (ks_suffixes K) (ks_rows K ! row)" using assms(1) nth_mem [OF row] unfolding loose_wf_def by blast
    have len: "length (suffix_at K row) = unat (sp_len (ks_rows K ! row))" using ok by (simp add: suffix_at_def)
    have "length (ks_suffixes nx) = sum_list (map (\<lambda>row. unat (sp_len (ks_rows K ! row))) rs)"
      using Cons.prems(1) by (auto simp: st retaining_def Let_def loose_wf_def)
    then obtain sp where a: "span_append (ks_suffixes nx) (suffix_at K row) = Inr (sp, ks_suffixes nx @ suffix_at K row)"
      using span_append_fits [of "ks_suffixes nx" "suffix_at K row"] Cons.prems(3) len True by auto
    let ?nx = "nx\<lparr>ks_rows := ks_rows nx @ [sp], ks_suffixes := ks_suffixes nx @ suffix_at K row\<rparr>"
    have "\<exists>st'. (if ks_prefix_ids K \<noteq> [] then retain_prefix K row (prefix_at K row) (?nx, ids) else Some (?nx, ids)) = Some st' \<and>
        retaining K (rs @ [row]) st'"
    proof (cases "ks_prefix_ids K = []")
      case plain: True
      then show ?thesis using retaining_push [OF Cons.prems(1) [unfolded st] a len, of "[]"] by (simp add: prefix_at_def)
    next
      case False
      then show ?thesis using retain_prefix_ok [OF Cons.prems(1) [unfolded st] assms(1) row False a len] by simp
    qed
    then obtain st' where st': "(if ks_prefix_ids K \<noteq> [] then retain_prefix K row (prefix_at K row) (?nx, ids) else Some (?nx, ids)) = Some st'"
        "retaining K (rs @ [row]) st'" by blast
    have "\<exists>st''. retain_loop K keep rows st' = Some st'' \<and> retaining K ((rs @ [row]) @ filter keep rows) st''"
      using Cons.IH [OF st'(2)] Cons.prems True by simp
    then show ?thesis using True row a st'(1) by (cases "ks_prefix_ids K = []") (simp_all add: loose_get [OF assms] st Let_def)
  next
    case False
    then show ?thesis using Cons by simp
  qed
qed simp

lemma retaining_init: "retaining K [] (keys_default, replicate (length (ks_prefixes K)) NO_PREFIX)"
  by (simp add: retaining_def Let_def keys_default_def loose_wf_def loose_table_def prefix_lens_def U32_MAX_def)

lemma retain_thaw:
  "retain_loop (keys_thaw K) keep rows st = retain_loop K keep rows st"
proof (induction rows arbitrary: st)
  case (Cons row rows)
  have "retain_prefix (keys_thaw K) = retain_prefix K" by (intro ext) (simp add: retain_prefix_def)
  then show ?case using Cons.IH by (simp only: retain_loop.simps thaw_get thaw_fields)
qed simp

lemma span_lens_nth: "sum_list (map (\<lambda>row. unat (sp_len (sps ! row))) [0..<length sps]) = span_lens sps"
proof -
  have "map (\<lambda>row. unat (sp_len (sps ! row))) [0..<length sps] = map (\<lambda>sp. unat (sp_len sp)) (map ((!) sps) [0..<length sps])" by simp
  then show ?thesis by (simp only: map_nth span_lens_def)
qed

lemma filtered_lens_le:
  "sum_list (map (\<lambda>row. unat (sp_len (sps ! row))) (filter keep [0..<length sps])) \<le> span_lens sps"
proof -
  have "sum_list (map f (filter keep xs)) \<le> sum_list (map f xs)" for f :: "nat \<Rightarrow> nat" and xs by (induction xs) auto
  then have "sum_list (map (\<lambda>row. unat (sp_len (sps ! row))) (filter keep [0..<length sps])) \<le>
      sum_list (map (\<lambda>row. unat (sp_len (sps ! row))) [0..<length sps])" by blast
  also have "\<dots> = span_lens sps" by (rule span_lens_nth)
  finally show ?thesis .
qed

lemma retaining_footprint:
  assumes r: "retaining K (filter keep [0..<length (ks_rows K)]) (nx, ids)" and K: "loose_wf K"
  shows "length (ks_prefix_bytes nx) \<le> length (ks_prefix_bytes K)" "length (ks_prefixes nx) \<le> length (ks_prefixes K)"
    "length (ks_prefix_ids nx) \<le> length (ks_prefix_ids K)"
proof -
  have nx: "length ids = length (ks_prefixes K)" "length (ks_prefixes nx) = card (copied ids)"
      "length (ks_prefix_bytes nx) = prefix_lens K (copied ids)"
      "if ks_prefix_ids K = [] then ks_prefix_ids nx = [] else length (ks_prefix_ids nx) = length (ks_rows nx)"
      "loose_table nx = map (\<lambda>row. prefix_at K row @ suffix_at K row) (filter keep [0..<length (ks_rows K)])"
    using r by (simp_all add: retaining_def Let_def)
  have sub: "copied ids \<subseteq> {..<length (ks_prefixes K)}" using nx(1) by (auto simp: copied_def)
  show "length (ks_prefixes nx) \<le> length (ks_prefixes K)" using card_mono [OF _ sub] nx(2) by simp
  show "length (ks_prefix_bytes nx) \<le> length (ks_prefix_bytes K)" using prefix_lens_le [OF K sub] nx(3) by simp
  have "length (ks_rows nx) = length (filter keep [0..<length (ks_rows K)])" using arg_cong [OF nx(5), of length] by (simp add: loose_table_def)
  then have "length (ks_rows nx) \<le> length (ks_rows K)" using length_filter_le [of keep "[0..<length (ks_rows K)]"] by simp
  then show "length (ks_prefix_ids nx) \<le> length (ks_prefix_ids K)" using nx(4) loose_fields(4) [OF K] by (auto split: if_splits)
qed

lemma keys_retain_ok:
  assumes "keys_wf K"
  shows "\<exists>K'. keys_retain K keep = Some K' \<and> keys_wf K' \<and> (ks_offsets K' = [] \<longleftrightarrow> ks_offsets K = []) \<and>
    table K' = map ((!) (table K)) (filter keep [0..<keys_slots K]) \<and>
    table_live K' = sum_list (map (\<lambda>row. unat (sp_len (ks_rows (keys_thaw K) ! row))) (filter keep [0..<keys_slots K])) \<and>
    length (ks_suffixes K') = table_live K' \<and> (ks_prefix_ids K = [] \<longrightarrow> ks_prefix_ids K' = []) \<and> footprint K' \<le> footprint K"
proof -
  let ?T = "keys_thaw K" and ?kept = "filter keep [0..<keys_slots K]"
  have T: "loose_wf ?T" "ks_offsets ?T = []" using assms by (simp_all add: keys_wf_def)
  have "sum_list (map (\<lambda>row. unat (sp_len (ks_rows ?T ! row))) ?kept) \<le> U32_MAX"
    using filtered_lens_le [of "ks_rows ?T" keep] T(1) unfolding thaw_slots loose_wf_def by linarith
  then obtain nx ids where nx: "retain_loop K keep [0..<keys_slots K] (keys_default, replicate (length (ks_prefixes K)) NO_PREFIX) = Some (nx, ids)"
      "retaining ?T ?kept (nx, ids)"
    using retain_loop_ok [OF T retaining_init, of "[0..<keys_slots K]" keep] by (auto simp: retain_thaw thaw_slots)
  have wf: "loose_wf nx" "ks_offsets nx = []" "ks_garbage nx = 0"
      "loose_table nx = map (\<lambda>row. prefix_at ?T row @ suffix_at ?T row) ?kept"
      "span_lens (ks_rows nx) = sum_list (map (\<lambda>row. unat (sp_len (ks_rows ?T ! row))) ?kept)"
      "ks_prefix_ids K = [] \<Longrightarrow> ks_prefix_ids nx = []"
    using nx(2) by (simp_all add: retaining_def Let_def)
  have fp: "span_lens (ks_rows nx) + length (ks_prefix_bytes nx) + 8 * length (ks_prefixes nx) + 4 * length (ks_prefix_ids nx) \<le> footprint K"
    using retaining_footprint [OF nx(2) [unfolded thaw_slots] T(1)] filtered_lens_le [of "ks_rows ?T" keep] loose_fields(3) [OF T(1)] wf(5)
    unfolding footprint_def thaw_slots thaw_fields by linarith
  have tab: "loose_table nx = map ((!) (table K)) ?kept" unfolding wf(4) by (auto simp: table_def loose_table_def thaw_slots)
  show ?thesis
  proof (cases "ks_offsets K = []")
    case True
    then show ?thesis using nx(1) wf tab fp loose_fields(3) [OF wf(1)]
      by (simp add: keys_retain_def keys_wf_def table_def table_live_def thaw_loose [OF wf(2)] footprint_def)
  next
    case False
    then show ?thesis using freeze_ok [OF wf(1)] nx(1) wf tab fp by (auto simp: keys_retain_def footprint_def)
  qed
qed

lemma keys_retain_all:
  assumes "keys_wf K"
  shows "\<exists>K'. keys_retain K (\<lambda>_. True) = Some K' \<and> keys_wf K' \<and> (ks_offsets K' = [] \<longleftrightarrow> ks_offsets K = []) \<and>
    table K' = table K \<and> table_live K' = table_live K \<and> length (ks_suffixes K') = table_live K \<and>
    (ks_prefix_ids K = [] \<longrightarrow> ks_prefix_ids K' = []) \<and> footprint K' \<le> footprint K"
proof -
  have "map ((!) (table K)) [0..<keys_slots K] = table K" using map_nth [of "table K"] by simp
  moreover have "sum_list (map (\<lambda>row. unat (sp_len (ks_rows (keys_thaw K) ! row))) [0..<keys_slots K]) = table_live K"
    by (simp only: table_live_def thaw_slots span_lens_nth)
  ultimately show ?thesis using keys_retain_ok [OF assms, of "\<lambda>_. True"] by auto
qed

subsection \<open>Inserting and removing\<close>

lemma span_lens_update: "row < length sps \<Longrightarrow> span_lens (sps[row := sp]) + unat (sp_len (sps ! row)) = span_lens sps + unat (sp_len sp)"
proof (induction sps arbitrary: row)
  case (Cons a sps)
  then show ?case by (cases row) auto
qed simp

lemma span_lens_insert: "span_lens (take row sps @ sp # drop row sps) = span_lens sps + unat (sp_len sp)"
  using span_lens_simps(3) [of "take row sps" "drop row sps"] by simp

definition prefix_named :: "keys \<Rightarrow> u32 \<Rightarrow> byte list \<Rightarrow> bool" where
  "prefix_named K pid p \<longleftrightarrow>
     (if pid = NO_PREFIX then p = []
      else ks_prefix_ids K \<noteq> [] \<and> unat pid < length (ks_prefixes K) \<and> p = span_bytes (ks_prefix_bytes K) (ks_prefixes K ! unat pid))"

definition replace_row :: "keys \<Rightarrow> nat \<Rightarrow> span \<Rightarrow> byte list \<Rightarrow> u32 \<Rightarrow> keys" where
  "replace_row K row sp sfxs pid =
     K\<lparr>ks_suffixes := sfxs, ks_garbage := ks_garbage K + unat (sp_len (ks_rows K ! row)), ks_rows := (ks_rows K)[row := sp],
       ks_prefix_ids := (if ks_prefix_ids K \<noteq> [] then (ks_prefix_ids K)[row := pid] else [])\<rparr>"

definition insert_row :: "keys \<Rightarrow> nat \<Rightarrow> span \<Rightarrow> byte list \<Rightarrow> keys" where
  "insert_row K row sp sfxs =
     K\<lparr>ks_suffixes := sfxs, ks_rows := take row (ks_rows K) @ sp # drop row (ks_rows K),
       ks_prefix_ids := (if ks_prefix_ids K \<noteq> [] then take row (ks_prefix_ids K) @ NO_PREFIX # drop row (ks_prefix_ids K) else [])\<rparr>"

lemma replace_row_ok:
  assumes wf: "loose_wf K" "ks_offsets K = []" and row: "row < length (ks_rows K)"
    and sp: "span_ok (ks_suffixes K @ key) sp" "span_bytes (ks_suffixes K @ key) sp = key" "unat (sp_len sp) = length key"
      "length (ks_suffixes K) + length key \<le> U32_MAX"
    and pid: "prefix_named K pid p"
  shows "loose_wf (replace_row K row sp (ks_suffixes K @ key) pid)" "ks_offsets (replace_row K row sp (ks_suffixes K @ key) pid) = []"
    "loose_table (replace_row K row sp (ks_suffixes K @ key) pid) = (loose_table K)[row := p @ key]"
    "span_lens (ks_rows (replace_row K row sp (ks_suffixes K @ key) pid)) + unat (sp_len (ks_rows K ! row)) = span_lens (ks_rows K) + length key"
proof -
  let ?K = "replace_row K row sp (ks_suffixes K @ key) pid"
  have lens: "span_lens ((ks_rows K)[row := sp]) + unat (sp_len (ks_rows K ! row)) = span_lens (ks_rows K) + length key"
    using span_lens_update [OF row] sp(3) by simp
  have rows: "span_ok (ks_suffixes K @ key) r" if "r \<in> set ((ks_rows K)[row := sp])" for r
    using set_update_subset_insert [of "ks_rows K" row sp] that sp(1) loose_fields(1) [OF wf(1)] by (auto intro: span_ok_append)
  have pids: "i = NO_PREFIX \<or> unat i < length (ks_prefixes K)" if "ks_prefix_ids K \<noteq> []" "i \<in> set ((ks_prefix_ids K)[row := pid])" for i
  proof -
    have "i = pid \<or> i \<in> set (ks_prefix_ids K)" using set_update_subset_insert [of "ks_prefix_ids K" row pid] that(2) by blast
    then show ?thesis using wf(1) pid by (auto simp: loose_wf_def prefix_named_def split: if_splits)
  qed
  show "loose_wf ?K" using wf(1) rows pids lens sp(4) unfolding loose_wf_def replace_row_def by auto
  show "ks_offsets ?K = []" using wf(2) by (simp add: replace_row_def)
  show "span_lens (ks_rows ?K) + unat (sp_len (ks_rows K ! row)) = span_lens (ks_rows K) + length key"
    using lens by (simp add: replace_row_def)
  have "prefix_at ?K j @ suffix_at ?K j = (if j = row then p @ key else prefix_at K j @ suffix_at K j)" if "j < length (ks_rows K)" for j
    using loose_fields(1,4) [OF wf(1)] that sp(2) nth_mem [OF that] pid
    by (auto simp: prefix_named_def prefix_at_def suffix_at_def replace_row_def nth_list_update span_bytes_append split: if_splits)
  then show "loose_table ?K = (loose_table K)[row := p @ key]"
    by - (rule nth_equalityI, simp_all add: loose_table_def nth_list_update replace_row_def)
qed

lemma insert_row_ok:
  assumes wf: "loose_wf K" "ks_offsets K = []" and row: "row \<le> length (ks_rows K)"
    and sp: "span_ok (ks_suffixes K @ key) sp" "span_bytes (ks_suffixes K @ key) sp = key" "unat (sp_len sp) = length key"
      "length (ks_suffixes K) + length key \<le> U32_MAX"
  shows "loose_wf (insert_row K row sp (ks_suffixes K @ key))" "ks_offsets (insert_row K row sp (ks_suffixes K @ key)) = []"
    "loose_table (insert_row K row sp (ks_suffixes K @ key)) = take row (loose_table K) @ key # drop row (loose_table K)"
    "span_lens (ks_rows (insert_row K row sp (ks_suffixes K @ key))) = span_lens (ks_rows K) + length key"
proof -
  let ?K = "insert_row K row sp (ks_suffixes K @ key)"
  have lens: "span_lens (take row (ks_rows K) @ sp # drop row (ks_rows K)) = span_lens (ks_rows K) + length key"
    using span_lens_insert [of row "ks_rows K" sp] sp(3) by simp
  have rows: "span_ok (ks_suffixes K @ key) r" if "r \<in> set (take row (ks_rows K) @ sp # drop row (ks_rows K))" for r
    using that sp(1) loose_fields(1) [OF wf(1)] by (auto intro: span_ok_append dest: in_set_takeD in_set_dropD)
  have pids: "i = NO_PREFIX \<or> unat i < length (ks_prefixes K)" if "i \<in> set (take row (ks_prefix_ids K) @ NO_PREFIX # drop row (ks_prefix_ids K))" for i
  proof -
    have "i = NO_PREFIX \<or> i \<in> set (ks_prefix_ids K)" using that by (auto dest: in_set_takeD in_set_dropD)
    then show ?thesis using wf(1) unfolding loose_wf_def by blast
  qed
  show "loose_wf ?K" using wf(1) rows pids lens sp(4) row unfolding loose_wf_def insert_row_def by (auto simp del: span_lens_simps(3))
  show "ks_offsets ?K = []" using wf(2) by (simp add: insert_row_def)
  show "span_lens (ks_rows ?K) = span_lens (ks_rows K) + length key" using lens by (simp add: insert_row_def)
  have at: "prefix_at ?K j @ suffix_at ?K j =
      (if j = row then key else prefix_at K (if j < row then j else j - 1) @ suffix_at K (if j < row then j else j - 1))"
    if "j \<le> length (ks_rows K)" for j
  proof -
    have nth: "(take row xs @ x # drop row xs) ! j = (if j = row then x else xs ! (if j < row then j else j - 1))"
      if "length xs = length (ks_rows K)" for xs :: "'b list" and x
      using that row \<open>j \<le> length (ks_rows K)\<close> by (auto simp: nth_append nth_Cons' min_def)
    have suf: "suffix_at ?K j = (if j = row then key else suffix_at K (if j < row then j else j - 1))"
      using that row sp(2) loose_fields(1) [OF wf(1)] nth_mem
      by (auto simp: suffix_at_def insert_row_def nth [OF refl] intro!: span_bytes_append)
    have pre: "prefix_at ?K j = (if j = row then [] else prefix_at K (if j < row then j else j - 1))"
    proof (cases "ks_prefix_ids K = []")
      case False
      then have "length (ks_prefix_ids K) = length (ks_rows K)" using loose_fields(4) [OF wf(1)] by simp
      then show ?thesis using False that row by (auto simp: prefix_at_def insert_row_def nth)
    qed (simp add: prefix_at_def insert_row_def)
    show ?thesis using suf pre by simp
  qed
  show "loose_table ?K = take row (loose_table K) @ key # drop row (loose_table K)"
  proof (rule nth_equalityI)
    fix j assume "j < length (loose_table ?K)"
    then have j: "j < length (ks_rows K) + 1" using row by (simp add: loose_table_def insert_row_def)
    then have "loose_table ?K ! j = prefix_at ?K j @ suffix_at ?K j" using row by (simp add: loose_table_def insert_row_def del: upt_Suc)
    then show "loose_table ?K ! j = (take row (loose_table K) @ key # drop row (loose_table K)) ! j"
      using at [of j] j row by (auto simp: loose_table_def nth_append nth_Cons' min_def)
  qed (use row in \<open>simp add: loose_table_def insert_row_def\<close>)
qed

definition put_row :: "byte list list \<Rightarrow> nat \<Rightarrow> byte list \<Rightarrow> bool \<Rightarrow> byte list list" where
  "put_row ks row key replace = (if replace then ks[row := key] else take row ks @ key # drop row ks)"

lemma keys_insert_ok:
  assumes wf: "keys_wf K" and row: "if replace then row < keys_slots K else row \<le> keys_slots K"
  shows "if table_live K + length key \<le> U32_MAX
    then \<exists>K'. keys_insert K row key replace = Some (Inr K') \<and> keys_wf K' \<and> ks_offsets K' = [] \<and> table K' = put_row (table K) row key replace \<and>
      (ks_prefix_ids K = [] \<longrightarrow> ks_prefix_ids K' = [])
    else keys_insert K row key replace = Some (Inl (IoOther ''small-object key buffer overflow''))"
proof -
  let ?T = "keys_thaw K"
  let ?pack = "ks_garbage ?T > length (ks_suffixes ?T) div 2 \<or> length (ks_suffixes ?T) + length key > U32_MAX"
  have T: "keys_wf ?T" "table ?T = table K" "table_live ?T = table_live K" "keys_slots ?T = keys_slots K"
    using wf by (simp_all add: keys_wf_def table_def table_live_def keys_slots_def [of ?T] thaw_slots [of K])
  have "table_live K \<le> length (ks_suffixes ?T)" using wf loose_fields(3) [of ?T] by (simp add: table_live_def keys_wf_def)
  then obtain L where L: "(if ?pack then keys_retain ?T (\<lambda>_. True) else Some ?T) = Some L" "keys_wf L" "ks_offsets L = []"
      "table L = table K" "table_live L = table_live K" "ks_prefix_ids K = [] \<Longrightarrow> ks_prefix_ids L = []"
      "length (ks_suffixes L) + length key \<le> U32_MAX \<longleftrightarrow> table_live K + length key \<le> U32_MAX"
    using keys_retain_all [OF T(1)] T by (cases ?pack) auto
  have loose: "loose_wf L" "keys_thaw L = L" using L(2,3) by (simp_all add: keys_wf_def thaw_loose)
  have rows: "length (ks_rows L) = keys_slots K" using table_length [of L] table_length [of K] L(4) thaw_slots [of L] loose(2) by simp
  have ids: "ks_prefix_ids L = [] \<or> length (ks_prefix_ids L) = length (ks_rows L)" using loose_fields(4) [OF loose(1)] .
  have run: "keys_insert K row key replace =
      (case span_append (ks_suffixes L) key of Inl e \<Rightarrow> Some (Inl e)
       | Inr (sp, sfxs) \<Rightarrow> Some (Inr (if replace then replace_row L row sp sfxs NO_PREFIX else insert_row L row sp sfxs)))"
    using row rows ids unfolding keys_insert_def Let_def L(1)
    by (auto simp: replace_row_def insert_row_def split: sum.split if_splits)
  show ?thesis
  proof (cases "table_live K + length key \<le> U32_MAX")
    case True
    then have fit: "length (ks_suffixes L) + length key \<le> U32_MAX" using L(7) by simp
    then obtain sp where a: "span_append (ks_suffixes L) key = Inr (sp, ks_suffixes L @ key)" using span_append_fits by blast
    note sp = span_append_Inr(3-5) [OF a] fit
    have none: "prefix_named L NO_PREFIX []" by (simp add: prefix_named_def)
    define K' where "K' = (if replace then replace_row L row sp (ks_suffixes L @ key) NO_PREFIX else insert_row L row sp (ks_suffixes L @ key))"
    have t: "loose_table L = table K" using L(4) loose(2) by (simp add: table_def)
    have "loose_wf K' \<and> ks_offsets K' = [] \<and> loose_table K' = put_row (table K) row key replace"
      using replace_row_ok(1-3) [OF loose(1) L(3) _ sp none] insert_row_ok(1-3) [OF loose(1) L(3) _ sp] row rows t
      by (simp add: K'_def put_row_def)
    moreover have "ks_prefix_ids K = [] \<longrightarrow> ks_prefix_ids K' = []" using L(6) by (simp add: K'_def replace_row_def insert_row_def)
    ultimately show ?thesis using True run a by (simp add: keys_wf_def table_def thaw_loose K'_def)
  next
    case False
    then show ?thesis using run L(7) by (simp add: span_append_def)
  qed
qed

lemma keys_remove_ok:
  assumes wf: "keys_wf K" and row: "row < keys_slots K"
  shows "\<exists>K'. keys_remove K row = Some K' \<and> keys_wf K' \<and> ks_offsets K' = ks_offsets K \<and> table_live K' \<le> table_live K \<and>
    table K' = (if ks_offsets K = [] then (table K)[row := []] else table K) \<and> (ks_prefix_ids K = [] \<longrightarrow> ks_prefix_ids K' = [])"
proof (cases "ks_offsets K = []")
  case True
  have K: "loose_wf K" "keys_thaw K = K" using wf True by (simp_all add: keys_wf_def thaw_loose)
  have rows: "row < length (ks_rows K)" using row K(2) by (simp add: thaw_slots)
  have ids: "ks_prefix_ids K = [] \<or> length (ks_prefix_ids K) = length (ks_rows K)" using loose_fields(4) [OF K(1)] .
  have sp: "span_ok (ks_suffixes K @ []) span_default" "span_bytes (ks_suffixes K @ []) span_default = []"
      "unat (sp_len span_default) = length ([] :: byte list)" "length (ks_suffixes K) + length ([] :: byte list) \<le> U32_MAX"
    using loose_fields(2) [OF K(1)] by (simp_all add: span_ok_def span_bytes_def span_default_def)
  have none: "prefix_named K NO_PREFIX []" by (simp add: prefix_named_def)
  note r = replace_row_ok [OF K(1) True rows sp none]
  have "keys_remove K row = Some (replace_row K row span_default (ks_suffixes K @ []) NO_PREFIX)"
    using rows True ids by (auto simp: keys_remove_def replace_row_def)
  then show ?thesis using r True K(2) by (simp add: keys_wf_def table_def table_live_def thaw_loose) (simp add: replace_row_def)
qed (use wf in \<open>simp add: keys_remove_def\<close>)

subsection \<open>Compressing and sealing\<close>

text \<open>The table being built by \<open>compress\<close>: the rows of \<open>D\<close> have their keys, the others are still empty.\<close>

definition compressing :: "byte list list \<Rightarrow> nat set \<Rightarrow> keys \<Rightarrow> bool" where
  "compressing S D nx \<longleftrightarrow>
     loose_wf nx \<and> ks_offsets nx = [] \<and> length (ks_rows nx) = length S \<and> length (ks_prefix_ids nx) = length S \<and>
     (\<forall>r < length S. r \<notin> D \<longrightarrow> ks_rows nx ! r = span_default) \<and>
     loose_table nx = map (\<lambda>r. if r \<in> D then S ! r else []) [0..<length S]"

lemma compressing_put:
  assumes c: "compressing S D nx" and r: "r < length S" "r \<notin> D" and a: "span_append (ks_suffixes nx) k = Inr (sp, sfxs)"
    and pid: "prefix_named nx pid p" and k: "p @ k = S ! r"
  shows "compressing S (insert r D) (nx\<lparr>ks_rows := (ks_rows nx)[r := sp], ks_suffixes := sfxs, ks_prefix_ids := (ks_prefix_ids nx)[r := pid]\<rparr>)"
proof -
  have nx: "loose_wf nx" "ks_offsets nx = []" "r < length (ks_rows nx)" "length (ks_prefix_ids nx) = length S" "ks_rows nx ! r = span_default"
      "loose_table nx = map (\<lambda>r. if r \<in> D then S ! r else []) [0..<length S]"
    using c r by (simp_all add: compressing_def)
  note sp = span_append_Inr [OF a]
  have fit: "span_ok (ks_suffixes nx @ k) sp" "span_bytes (ks_suffixes nx @ k) sp = k" using sp by simp_all
  have upd: "nx\<lparr>ks_rows := (ks_rows nx)[r := sp], ks_suffixes := sfxs, ks_prefix_ids := (ks_prefix_ids nx)[r := pid]\<rparr> =
      replace_row nx r sp (ks_suffixes nx @ k) pid"
    using nx(4,5) r(1) sp(2) by (cases nx) (auto simp: replace_row_def span_default_def)
  note rr = replace_row_ok [OF nx(1-3) fit sp(5,1) pid]
  have "(map (\<lambda>r. if r \<in> D then S ! r else []) [0..<length S])[r := p @ k] =
      map (\<lambda>j. if j \<in> insert r D then S ! j else []) [0..<length S]"
    using r k by (intro nth_equalityI) (auto simp: nth_list_update)
  then show ?thesis using rr(1-3) c nx(6) unfolding upd compressing_def by (simp add: replace_row_def) auto
qed

lemma compress_rows_ok:
  "\<lbrakk>compressing S D nx; distinct rows; set rows \<inter> D = {}; set rows \<subseteq> {..<length S}; prefix_named nx pid p;
    \<forall>r \<in> set rows. p @ drop pfx (S ! r) = S ! r;
    length (ks_suffixes nx) + sum_list (map (\<lambda>r. length (S ! r) - pfx) rows) \<le> U32_MAX\<rbrakk> \<Longrightarrow>
   \<exists>nx'. compress_rows S pfx pid rows nx = Some nx' \<and> compressing S (D \<union> set rows) nx' \<and> ks_prefixes nx' = ks_prefixes nx \<and>
     ks_prefix_bytes nx' = ks_prefix_bytes nx \<and>
     length (ks_suffixes nx') = length (ks_suffixes nx) + sum_list (map (\<lambda>r. length (S ! r) - pfx) rows)"
proof (induction rows arbitrary: D nx)
  case (Cons r rows)
  have r: "r < length S" "r \<notin> D" using Cons.prems(3,4) by auto
  obtain sp where a: "span_append (ks_suffixes nx) (drop pfx (S ! r)) = Inr (sp, ks_suffixes nx @ drop pfx (S ! r))"
    using span_append_fits [of "ks_suffixes nx" "drop pfx (S ! r)"] Cons.prems(7) by auto
  let ?nx = "nx\<lparr>ks_rows := (ks_rows nx)[r := sp], ks_suffixes := ks_suffixes nx @ drop pfx (S ! r), ks_prefix_ids := (ks_prefix_ids nx)[r := pid]\<rparr>"
  have c: "compressing S (insert r D) ?nx" using Cons.prems(6) by (intro compressing_put [OF Cons.prems(1) r a Cons.prems(5)]) simp
  have "prefix_named ?nx pid p" using Cons.prems(5) by (simp add: prefix_named_def)
  then have "\<exists>nx'. compress_rows S pfx pid rows ?nx = Some nx' \<and> compressing S (insert r D \<union> set rows) nx' \<and> ks_prefixes nx' = ks_prefixes ?nx \<and>
     ks_prefix_bytes nx' = ks_prefix_bytes ?nx \<and>
     length (ks_suffixes nx') = length (ks_suffixes ?nx) + sum_list (map (\<lambda>r. length (S ! r) - pfx) rows)"
    using Cons.prems by (intro Cons.IH [OF c]) auto
  then show ?case using a by auto
qed simp

definition group_rows :: "nat list \<Rightarrow> key_group \<Rightarrow> nat list" where
  "group_rows order g = take (gr_end g - gr_start g) (drop (gr_start g) order)"

definition group_fits :: "byte list list \<Rightarrow> nat list \<Rightarrow> key_group \<Rightarrow> bool" where
  "group_fits S order g \<longleftrightarrow>
     (\<forall>r \<in> set (group_rows order g). gr_prefix g \<le> length (S ! r) \<and> take (gr_prefix g) (S ! r) = take (gr_prefix g) (S ! (order ! gr_start g)))"

lemma compress_loop_ok:
  "\<lbrakk>compressing S D nx; distinct (concat (map (group_rows order) gs)); set (concat (map (group_rows order) gs)) \<inter> D = {};
    set (concat (map (group_rows order) gs)) \<subseteq> {..<length S}; S \<noteq> []; \<forall>g \<in> set gs. group_fits S order g;
    length (ks_suffixes nx) + sum_list (map (group_suffixes S order) gs) \<le> U32_MAX;
    length (ks_prefix_bytes nx) + sum_list (map gr_prefix gs) \<le> U32_MAX;
    length (ks_prefixes nx) + length (filter (\<lambda>g. gr_prefix g \<noteq> 0) gs) < U32_MAX\<rbrakk> \<Longrightarrow>
   \<exists>nx'. compress_loop S order gs nx = Some nx' \<and> compressing S (D \<union> set (concat (map (group_rows order) gs))) nx' \<and>
     footprint nx' \<le> footprint nx + sum_list (map (group_suffixes S order) gs) + sum_list (map gr_prefix gs) +
       8 * length (filter (\<lambda>g. gr_prefix g \<noteq> 0) gs)"
proof (induction gs arbitrary: D nx)
  case (Cons g gs)
  let ?rows = "group_rows order g"
  have S: "length (ks_prefix_ids nx) = length S" "loose_wf nx" using Cons.prems(1) by (simp_all add: compressing_def)
  have sum: "group_suffixes S order g = sum_list (map (\<lambda>r. length (S ! r) - gr_prefix g) ?rows)"
    by (simp add: group_suffixes_def group_rows_def)
  have rest: "\<exists>nx'. compress_loop S order gs ny = Some nx' \<and> compressing S ((D \<union> set ?rows) \<union> set (concat (map (group_rows order) gs))) nx' \<and>
      footprint nx' \<le> footprint ny + sum_list (map (group_suffixes S order) gs) + sum_list (map gr_prefix gs) +
        8 * length (filter (\<lambda>g. gr_prefix g \<noteq> 0) gs)"
    if "compressing S (D \<union> set ?rows) ny" "length (ks_suffixes ny) = length (ks_suffixes nx) + group_suffixes S order g"
      "length (ks_prefix_bytes ny) \<le> length (ks_prefix_bytes nx) + gr_prefix g"
      "length (ks_prefixes ny) = length (ks_prefixes nx) + (if gr_prefix g \<noteq> 0 then 1 else 0)" for ny
    using Cons.prems that by (intro Cons.IH) (auto split: if_splits)
  have disj: "distinct ?rows" "set ?rows \<inter> D = {}" "set ?rows \<subseteq> {..<length S}" using Cons.prems(2-4) by auto
  have fits: "group_fits S order g" using Cons.prems(6) by simp
  show ?case
  proof (cases "gr_prefix g = 0")
    case True
    obtain ny where ny: "compress_rows S 0 NO_PREFIX ?rows nx = Some ny" "compressing S (D \<union> set ?rows) ny" "ks_prefixes ny = ks_prefixes nx"
        "ks_prefix_bytes ny = ks_prefix_bytes nx" "length (ks_suffixes ny) = length (ks_suffixes nx) + group_suffixes S order g"
      using compress_rows_ok [OF Cons.prems(1) disj, of NO_PREFIX "[]" 0] Cons.prems(7) sum True by (auto simp: prefix_named_def)
    then have "length (ks_prefix_ids ny) = length S" by (simp add: compressing_def)
    then show ?thesis using rest [of ny] ny True S(1) by (auto simp: group_rows_def [symmetric] footprint_def Un_assoc)
  next
    case False
    let ?p = "take (gr_prefix g) (S ! (order ! gr_start g))"
    have "length ?p \<le> gr_prefix g" by simp
    then have "length (ks_prefix_bytes nx) + length ?p \<le> U32_MAX" using Cons.prems(8) unfolding list.map sum_list.Cons by linarith
    then obtain sp where a: "span_append (ks_prefix_bytes nx) ?p = Inr (sp, ks_prefix_bytes nx @ ?p)" using span_append_fits by blast
    have small: "length (ks_prefixes nx) + 1 < U32_MAX" using Cons.prems(9) False by simp
    let ?nx = "nx\<lparr>ks_prefixes := ks_prefixes nx @ [sp], ks_prefix_bytes := ks_prefix_bytes nx @ ?p\<rparr>"
    let ?pid = "of_nat (length (ks_prefixes nx)) :: u32"
    note add = loose_add_prefix [OF S(2) a small]
    have c: "compressing S D ?nx" using Cons.prems(1) add(1,2) by (simp add: compressing_def)
    have pid: "unat ?pid = length (ks_prefixes nx)" using small by (intro u32_nat) simp
    then have ne: "?pid \<noteq> NO_PREFIX" using small NO_PREFIX_nat by (metis add_lessD1 less_irrefl)
    have named: "prefix_named ?nx ?pid ?p" using ne pid add(3) S(1) Cons.prems(5) by (auto simp: prefix_named_def)
    have keys: "\<forall>r \<in> set ?rows. ?p @ drop (gr_prefix g) (S ! r) = S ! r"
      using fits unfolding group_fits_def by (metis append_take_drop_id)
    obtain ny where ny: "compress_rows S (gr_prefix g) ?pid ?rows ?nx = Some ny" "compressing S (D \<union> set ?rows) ny"
        "ks_prefixes ny = ks_prefixes nx @ [sp]" "ks_prefix_bytes ny = ks_prefix_bytes nx @ ?p"
        "length (ks_suffixes ny) = length (ks_suffixes nx) + group_suffixes S order g"
      using compress_rows_ok [OF c disj named keys] Cons.prems(7) sum by auto
    then have "length (ks_prefix_ids ny) = length S" by (simp add: compressing_def)
    then show ?thesis using rest [of ny] ny a False S(1)
      by (auto simp: group_rows_def [symmetric] footprint_def Let_def Un_assoc)
  qed
qed simp

lemma tiles_slices:
  "tiles s e vs \<Longrightarrow> s \<le> e \<and> concat (map (\<lambda>v. take (snd v - fst v) (drop (fst v) xs)) vs) = take (e - s) (drop s xs)"
proof (induction vs arbitrary: s)
  case (Cons v vs)
  let ?m = "snd v"
  have v: "fst v = s" "s < ?m" "?m \<le> e" "concat (map (\<lambda>v. take (snd v - fst v) (drop (fst v) xs)) vs) = take (e - ?m) (drop ?m xs)"
    using Cons.IH [of ?m] Cons.prems by auto
  have "take (e - s) (drop s xs) = take (?m - s) (drop s xs) @ take (e - ?m) (drop (?m - s) (drop s xs))"
    using take_add [of "?m - s" "e - ?m" "drop s xs"] v(2,3) by simp
  then show ?case using v by simp
qed simp

lemma groups_rows:
  assumes "groups_ok ks 0 (length order) G"
  shows "mset (concat (map (group_rows order) G)) = mset order"
proof -
  have "concat (map (group_rows order) (rev G)) = order"
    using tiles_slices [of 0 "length order" "rev (map (\<lambda>g. (gr_start g, gr_end g)) G)" order] assms
    by (simp add: groups_ok_def rev_map [symmetric] group_rows_def [abs_def] o_def)
  moreover have "mset (concat (map f (rev G))) = mset (concat (map f G))" for f :: "key_group \<Rightarrow> nat list" by (induction G) auto
  ultimately show ?thesis by metis
qed

lemma groups_fit:
  assumes G: "groups_ok (map ((!) S) order) 0 (length order) G" and g: "g \<in> set G"
  shows "group_fits S order g"
  unfolding group_fits_def
proof
  fix r assume "r \<in> set (group_rows order g)"
  have b: "gr_start g < gr_end g" "gr_end g \<le> length order"
    using tiles_bounds [of 0 "length order" _ "(gr_start g, gr_end g)"] G g by (force simp: groups_ok_def)+
  obtain i where i: "i < gr_end g - gr_start g" "r = order ! (gr_start g + i)"
    using \<open>r \<in> set (group_rows order g)\<close> b by (auto simp: group_rows_def in_set_conv_nth)
  have "group_ok (map ((!) S) order) g" using G g by (simp add: groups_ok_def)
  then have "gr_prefix g \<le> length (map ((!) S) order ! j) \<and> take (gr_prefix g) (map ((!) S) order ! j) = take (gr_prefix g) (map ((!) S) order ! gr_start g)"
    if "gr_start g \<le> j" "j < gr_end g" for j using that unfolding group_ok_def by blast
  from this [of "gr_start g + i"] show "gr_prefix g \<le> length (S ! r) \<and> take (gr_prefix g) (S ! r) = take (gr_prefix g) (S ! (order ! gr_start g))"
    using i b by simp
qed

lemma those_spans: "\<forall>sp \<in> set sps. span_ok b sp \<Longrightarrow> those (map (\<lambda>sp. span_get sp b) sps) = Some (map (span_bytes b) sps)"
  by (induction sps) (simp_all add: span_get_ok)

lemma plain_table:
  assumes "ks_prefix_ids K = []"
  shows "loose_table K = map (span_bytes (ks_suffixes K)) (ks_rows K)"
  by (rule nth_equalityI) (simp_all add: loose_table_def prefix_at_def suffix_at_def assms)

lemma plain_live:
  assumes "loose_wf K" "ks_prefix_ids K = []"
  shows "sum_list (map length (loose_table K)) = span_lens (ks_rows K)"
proof -
  have "map (length \<circ> span_bytes (ks_suffixes K)) (ks_rows K) = map (\<lambda>sp. unat (sp_len sp)) (ks_rows K)"
    using assms(1) by (simp add: loose_wf_def)
  then have "sum_list (map (length \<circ> span_bytes (ks_suffixes K)) (ks_rows K)) = sum_list (map (\<lambda>sp. unat (sp_len sp)) (ks_rows K))"
    by (rule arg_cong)
  then show ?thesis unfolding plain_table [OF assms(2)] span_lens_def map_map .
qed

lemma compress_groups_ok:
  assumes K: "loose_wf K" "ks_offsets K = []" "ks_rows K \<noteq> []" "ks_prefix_ids K = []"
    and S: "S = loose_table K" and order: "order = sort_key (\<lambda>r. S ! r) [0..<length S]" and groups: "groups = key_groups (map ((!) S) order)"
    and fp: "sum_list (map gr_prefix groups) + length (filter (\<lambda>g. gr_prefix g \<noteq> 0) groups) * 8 +
      sum_list (map (group_suffixes S order) groups) + length S * 4 < length (ks_suffixes K)"
  shows "\<exists>K'. compress_loop S order groups (keys_default\<lparr>ks_rows := replicate (length S) span_default, ks_prefix_ids := replicate (length S) NO_PREFIX\<rparr>) = Some K' \<and>
    loose_wf K' \<and> ks_offsets K' = [] \<and> loose_table K' = S \<and> footprint K' \<le> footprint K"
proof -
  let ?nx = "keys_default\<lparr>ks_rows := replicate (length S) span_default, ks_prefix_ids := replicate (length S) NO_PREFIX\<rparr>"
  have n: "S \<noteq> []" using K(3) S by (simp add: loose_table_def)
  have m: "mset order = mset [0..<length S]" using order by simp
  then have len: "length order = length S" "set order = {..<length S}" "distinct order"
    using mset_eq_length [OF m] mset_eq_setD [OF m] mset_eq_imp_distinct_iff [OF m] by (auto simp: atLeast0LessThan)
  have G: "groups_ok (map ((!) S) order) 0 (length order) groups"
  proof -
    have "sorted (map ((!) S) order)" unfolding order by (rule sorted_sort_key)
    moreover have "map ((!) S) order \<noteq> []" using len(1) n by auto
    ultimately show ?thesis unfolding groups using key_groups_ok [of "map ((!) S) order"] by simp
  qed
  note mg = groups_rows [OF G]
  have rows: "set (concat (map (group_rows order) groups)) = {..<length S}" "distinct (concat (map (group_rows order) groups))"
    using mset_eq_setD [OF mg] mset_eq_imp_distinct_iff [OF mg] len by auto
  have zero: "span_lens (replicate k span_default) = 0" "span_ok [] span_default" "span_bytes [] span_default = []" for k
    by (induction k) (simp_all add: span_default_def span_ok_def span_bytes_def)
  have init: "compressing S {} ?nx"
    using zero by (simp add: compressing_def loose_wf_def loose_table_def prefix_at_def suffix_at_def keys_default_def U32_MAX_def)
  have small: "length (ks_suffixes K) \<le> U32_MAX" using K(1) by (simp add: loose_wf_def)
  have "\<exists>nx'. compress_loop S order groups ?nx = Some nx' \<and> compressing S ({} \<union> set (concat (map (group_rows order) groups))) nx' \<and>
     footprint nx' \<le> footprint ?nx + sum_list (map (group_suffixes S order) groups) + sum_list (map gr_prefix groups) +
       8 * length (filter (\<lambda>g. gr_prefix g \<noteq> 0) groups)"
    using rows n groups_fit [OF G] fp small by (intro compress_loop_ok [OF init]) (auto simp: keys_default_def)
  moreover have "footprint ?nx = 4 * length S" by (simp add: footprint_def keys_default_def)
  moreover have "length (ks_suffixes K) \<le> footprint K" by (simp add: footprint_def)
  ultimately obtain nx' where "compress_loop S order groups ?nx = Some nx'" "compressing S {..<length S} nx'" "footprint nx' \<le> footprint K"
    using fp rows(1) by auto
  moreover have "map (\<lambda>r. if r \<in> {..<length S} then S ! r else []) [0..<length S] = S" by (rule nth_equalityI) simp_all
  ultimately show ?thesis by (auto simp: compressing_def)
qed

lemma keys_compress_ok:
  assumes wf: "keys_wf K" "ks_offsets K = []"
  shows "\<exists>K'. keys_compress K = Some K' \<and> keys_wf K' \<and> ks_offsets K' = [] \<and> table K' = table K \<and> footprint K' \<le> footprint K"
proof (cases "ks_rows K = [] \<or> ks_prefix_ids K \<noteq> []")
  case True
  then show ?thesis using wf by (simp add: keys_compress_def)
next
  case False
  obtain L where L: "(if ks_garbage K \<noteq> 0 then keys_retain K (\<lambda>_. True) else Some K) = Some L" "keys_wf L" "ks_offsets L = []"
      "table L = table K" "ks_prefix_ids L = []" "footprint L \<le> footprint K"
  proof (cases "ks_garbage K = 0")
    case True
    then show ?thesis using that [of K] wf False by simp
  next
    case g: False
    obtain L where "keys_retain K (\<lambda>_. True) = Some L" "keys_wf L" "ks_offsets L = []" "table L = table K" "ks_prefix_ids L = []" "footprint L \<le> footprint K"
      using keys_retain_all [OF wf(1)] wf(2) False by blast
    then show ?thesis using that [of L] g by simp
  qed
  have loose: "loose_wf L" "loose_table L = table K" using L(2-4) by (simp_all add: keys_wf_def table_def thaw_loose)
  have spans: "\<forall>sp \<in> set (ks_rows L). span_ok (ks_suffixes L) sp" using loose(1) by (simp add: loose_wf_def)
  let ?S = "loose_table L"
  have those: "those (map (\<lambda>sp. span_get sp (ks_suffixes L)) (ks_rows L)) = Some ?S"
    using those_spans [OF spans] plain_table [OF L(5)] by simp
  have n: "length (ks_rows L) = length ?S" by (simp add: loose_table_def)
  have ne: "ks_rows L \<noteq> []" using n loose(2) False wf(2) by (auto simp: table_def loose_table_def thaw_loose)
  define order where "order = sort_key (\<lambda>r. ?S ! r) [0..<length ?S]"
  define groups where "groups = key_groups (map ((!) ?S) order)"
  let ?new = "sum_list (map gr_prefix groups) + length (filter (\<lambda>g. gr_prefix g \<noteq> 0) groups) * 8 +
      sum_list (map (group_suffixes ?S order) groups) + length ?S * 4"
  have run: "keys_compress K = (if ?new \<ge> length (ks_suffixes L) then Some L
      else compress_loop ?S order groups (keys_default\<lparr>ks_rows := replicate (length ?S) span_default, ks_prefix_ids := replicate (length ?S) NO_PREFIX\<rparr>))"
    using False unfolding keys_compress_def L(1) option.case those Let_def n order_def [symmetric] groups_def [symmetric] by simp
  show ?thesis
  proof (cases "?new \<ge> length (ks_suffixes L)")
    case True
    then show ?thesis using run L by simp
  next
    case False
    then have "\<exists>K'. compress_loop ?S order groups (keys_default\<lparr>ks_rows := replicate (length ?S) span_default, ks_prefix_ids := replicate (length ?S) NO_PREFIX\<rparr>) = Some K' \<and>
        loose_wf K' \<and> ks_offsets K' = [] \<and> loose_table K' = ?S \<and> footprint K' \<le> footprint L"
      by (intro compress_groups_ok [OF loose(1) L(3) ne L(5) refl order_def groups_def]) simp
    then show ?thesis using run False loose(2) L(6) by (auto simp: keys_wf_def table_def [of "_ :: keys"] thaw_loose)
  qed
qed

lemma keys_seal_ok:
  assumes wf: "keys_wf K"
  shows "\<exists>K'. keys_seal K = Some K' \<and> keys_wf K' \<and> ks_offsets K' \<noteq> [] \<and> table K' = table K \<and> footprint K' \<le> footprint K"
proof (cases "ks_offsets K = []")
  case True
  obtain L where L: "keys_compress K = Some L" "keys_wf L" "ks_offsets L = []" "table L = table K" "footprint L \<le> footprint K"
    using keys_compress_ok [OF wf True] by blast
  have loose: "loose_wf L" "loose_table L = table K" using L(2-4) by (simp_all add: keys_wf_def table_def thaw_loose)
  obtain K' where "keys_freeze L = Some K'" "keys_wf K'" "table K' = loose_table L" "ks_offsets K' \<noteq> []"
      "length (ks_suffixes K') = span_lens (ks_rows L)" "ks_prefix_ids K' = ks_prefix_ids L" "ks_prefixes K' = ks_prefixes L" "ks_prefix_bytes K' = ks_prefix_bytes L"
    using freeze_ok [OF loose(1)] by blast
  moreover have "span_lens (ks_rows L) \<le> length (ks_suffixes L)" using loose_fields(3) [OF loose(1)] by simp
  ultimately show ?thesis using True L(1,5) loose(2) by (auto simp: keys_seal_def footprint_def)
qed (use wf in \<open>simp add: keys_seal_def\<close>)

subsection \<open>The table refines a list of keys\<close>

text \<open>C12. A key table in its invariant stands for the list of its keys: a lookup returns the key of the row in two parts, sealing and
  prefix compression keep every key and never need more bytes for suffixes, prefixes and prefix numbers (\<open>footprint\<close>; the rows,
  which freezing replaces by offsets, are not counted), and retaining, removing, inserting and replacing rows do so on
  the list. An insertion fails exactly when the live key bytes would exceed a \<open>u32\<close>; nothing panics.\<close>

theorem key_table_refines:
  assumes "keys_wf K"
  shows "(\<exists>p s. keys_get K row = Some (if row < keys_slots K then Some (p, s) else None) \<and> (row < keys_slots K \<longrightarrow> p @ s = table K ! row)) \<and>
    (\<exists>K'. keys_seal K = Some K' \<and> keys_wf K' \<and> table K' = table K \<and> footprint K' \<le> footprint K) \<and>
    (\<exists>K'. keys_retain K keep = Some K' \<and> keys_wf K' \<and> table K' = map ((!) (table K)) (filter keep [0..<keys_slots K])) \<and>
    (row < keys_slots K \<longrightarrow> (\<exists>K'. keys_remove K row = Some K' \<and> keys_wf K' \<and>
       table K' = (if ks_offsets K = [] then (table K)[row := []] else table K))) \<and>
    ((if replace then row < keys_slots K else row \<le> keys_slots K) \<longrightarrow>
       (if table_live K + length key \<le> U32_MAX
        then \<exists>K'. keys_insert K row key replace = Some (Inr K') \<and> keys_wf K' \<and> table K' = put_row (table K) row key replace
        else keys_insert K row key replace = Some (Inl (IoOther ''small-object key buffer overflow''))))"
proof (intro conjI impI)
  show "if table_live K + length key \<le> U32_MAX
      then \<exists>K'. keys_insert K row key replace = Some (Inr K') \<and> keys_wf K' \<and> table K' = put_row (table K) row key replace
      else keys_insert K row key replace = Some (Inl (IoOther ''small-object key buffer overflow''))"
    if "if replace then row < keys_slots K else row \<le> keys_slots K"
    using keys_insert_ok [OF assms that, of key] by (auto split: if_splits)
  show "\<exists>K'. keys_remove K row = Some K' \<and> keys_wf K' \<and> table K' = (if ks_offsets K = [] then (table K)[row := []] else table K)"
    if "row < keys_slots K" using keys_remove_ok [OF assms that] by blast
qed (use keys_get_table [OF assms] keys_seal_ok [OF assms] keys_retain_ok [OF assms] in blast)+

theorem key_table_refines_witness:
  defines "K \<equiv> \<lparr>ks_rows = [\<lparr>sp_offset = 0, sp_len = 1\<rparr>, \<lparr>sp_offset = 1, sp_len = 2\<rparr>], ks_offsets = [], ks_suffixes = [7, 7, 8],
      ks_prefix_ids = [], ks_prefixes = [], ks_prefix_bytes = [], ks_garbage = 0\<rparr>"
  shows "table K = [[7], [7, 8]] \<and> (\<exists>K'. keys_seal K = Some K' \<and> table K' = [[7], [7, 8]]) \<and>
    (\<exists>K'. keys_insert K 1 [9] False = Some (Inr K') \<and> table K' = [[7], [9], [7, 8]])"
proof -
  have wf: "keys_wf K" by (simp add: K_def keys_wf_def loose_wf_def keys_thaw_def span_ok_def U32_MAX_def)
  have t: "table K = [[7], [7, 8]]"
    by (simp add: K_def table_def loose_table_def keys_thaw_def prefix_at_def suffix_at_def span_bytes_def upt_rec)
  have n: "keys_slots K = 2" "table_live K = 3" by (simp_all add: K_def keys_slots_def table_live_def keys_thaw_def)
  show ?thesis using key_table_refines [OF wf, of 1 "\<lambda>_. True" False "[9]"] t n by (auto simp: U32_MAX_def put_row_def)
qed

end
