(* ===== verification/Small_Records.thy ===== *)
theory Small_Records
  imports Small_Table
begin

text \<open>
  The record table of a segment of the small-object store (\<open>crates/talon-worker/src/small_store/records.rs\<close>). A row is a
  record of the fields that the code packs into 26 little-endian bytes, a row of length zero is a tombstone, and the
  compact keys are in a key table. \<open>partition_point\<close> is the number of leading rows that satisfy the predicate. The keyed
  hash of a key is the parameter \<open>kh\<close>. A panic is \<open>None\<close>.

  \<open>contents\<close> is the list of live extents with their records; every operation refines the operation on that list.
\<close>

subsection \<open>Rows\<close>

record small_record =
  sr_key :: small_key
  sr_len :: u64
  sr_checksum :: u64

record rec_row =
  rw_offset :: u32
  rw_len :: u32
  rw_checksum :: u64
  rw_hash :: u64
  rw_extra :: u16

record records =
  rc_rows :: "rec_row list"
  rc_keys :: keys
  rc_live :: nat

record rec_metadata =
  md_offset :: u64
  md_len :: u64
  md_checksum :: u64
  md_hash :: u64
  md_charge :: u64

definition records_default :: records where
  "records_default = \<lparr>rc_rows = [], rc_keys = keys_default, rc_live = 0\<rparr>"

definition row_off :: "rec_row \<Rightarrow> u64" where "row_off r = ucast (rw_offset r)"
definition row_len :: "rec_row \<Rightarrow> u64" where "row_len r = ucast (rw_len r)"

definition partition_point :: "('a \<Rightarrow> bool) \<Rightarrow> 'a list \<Rightarrow> nat" where
  "partition_point P xs = length (takeWhile P xs)"

definition records_metadata :: "records \<Rightarrow> nat \<Rightarrow> rec_metadata option" where
  "records_metadata R i =
     (case vec_get (rc_rows R) i of None \<Rightarrow> None
      | Some row \<Rightarrow>
        if row_len row \<noteq> 0
        then Some \<lparr>md_offset = row_off row, md_len = row_len row, md_checksum = rw_checksum row, md_hash = rw_hash row,
               md_charge = row_len row + ucast (rw_extra row) + 25 + 37\<rparr>
        else None)"

definition records_matches :: "records \<Rightarrow> nat \<Rightarrow> byte list \<Rightarrow> bool option" where
  "records_matches R i key =
     (if records_metadata R i = None then Some False
      else
        (case keys_get (rc_keys R) i of None \<Rightarrow> None
         | Some None \<Rightarrow> Some False
         | Some (Some (p, s)) \<Rightarrow> Some (length key = length p + length s \<and> take (length p) key = p \<and> drop (length p) key = s)))"

definition records_get :: "records \<Rightarrow> nat \<Rightarrow> (u64 \<times> small_record) option option" where
  "records_get R i =
     (case records_metadata R i of None \<Rightarrow> Some None
      | Some md \<Rightarrow>
        (case keys_get (rc_keys R) i of
           Some (Some (p, s)) \<Rightarrow>
             (case codec_decode (p @ s) of None \<Rightarrow> None
              | Some k \<Rightarrow> Some (Some (md_offset md, \<lparr>sr_key = k, sr_len = md_len md, sr_checksum = md_checksum md\<rparr>)))
         | _ \<Rightarrow> None))"

definition records_iter :: "records \<Rightarrow> (u64 \<times> small_record) list option" where
  "records_iter R = map_option (List.map_filter id) (those (map (records_get R) [0..<length (rc_rows R)]))"

definition records_before :: "records \<Rightarrow> u64 \<Rightarrow> (u64 \<times> small_record) list option" where
  "records_before R fin = map_option (takeWhile (\<lambda>e. fst e < fin)) (records_iter R)"

definition records_overlaps :: "records \<Rightarrow> u64 \<Rightarrow> u64 \<Rightarrow> bool" where
  "records_overlaps R offset len =
     (let nxt = partition_point (\<lambda>r. row_off r < offset) (rc_rows R) in
      (case find (\<lambda>r. rw_len r \<noteq> 0) (rev (take nxt (rc_rows R))) of None \<Rightarrow> False | Some r \<Rightarrow> row_off r + row_len r > offset) \<or>
      (case find (\<lambda>r. rw_len r \<noteq> 0) (drop nxt (rc_rows R)) of None \<Rightarrow> False | Some r \<Rightarrow> row_off r < offset + len))"

definition records_crosses :: "records \<Rightarrow> u64 \<Rightarrow> bool" where
  "records_crosses R fin =
     (let nxt = partition_point (\<lambda>r. row_off r < fin) (rc_rows R) in
      case find (\<lambda>r. rw_len r \<noteq> 0) (rev (take nxt (rc_rows R))) of None \<Rightarrow> False | Some r \<Rightarrow> row_off r + row_len r > fin)"

definition records_position :: "records \<Rightarrow> u64 \<Rightarrow> nat" where
  "records_position R offset = partition_point (\<lambda>r. row_off r < offset) (rc_rows R)"

definition MAX_EXTENT :: u64 where "MAX_EXTENT = 0x8000000"
definition MAX_SEGMENT :: u64 where "MAX_SEGMENT = 0x40000000"

definition new_row :: "(small_key \<Rightarrow> u64) \<Rightarrow> u64 \<Rightarrow> small_record \<Rightarrow> rec_row" where
  "new_row kh offset r =
     \<lparr>rw_offset = ucast offset, rw_len = ucast (sr_len r), rw_checksum = sr_checksum r, rw_hash = kh (sr_key r),
      rw_extra = of_nat (key_len (sr_key r) - 25)\<rparr>"

definition records_insert :: "(small_key \<Rightarrow> u64) \<Rightarrow> records \<Rightarrow> u64 \<Rightarrow> small_record \<Rightarrow> (io_error + (records \<times> nat)) option" where
  "records_insert kh R offset r =
     (case validate_key (sr_key r) of Inl e \<Rightarrow> Some (Inl e)
      | Inr _ \<Rightarrow>
        if \<not> valid_extent (sr_key r) (sr_len r) \<or> offset \<ge> MAX_SEGMENT \<or> sr_len r = 0 \<or> sr_len r > MAX_EXTENT \<or> offset + sr_len r > MAX_SEGMENT
        then Some (Inl (InvalidData ''invalid small-object record extent''))
        else
          let row = new_row kh offset r; key = codec_encode (sr_key r); vacant = records_position R offset;
              reuse = (case vec_get (rc_rows R) vacant of None \<Rightarrow> False | Some row \<Rightarrow> row_off row = offset \<and> rw_len row = 0);
              index = (if reuse then vacant else partition_point (\<lambda>r. row_off r \<le> offset) (rc_rows R))
          in
          (case keys_insert (rc_keys R) index key reuse of None \<Rightarrow> None
           | Some (Inl e) \<Rightarrow> Some (Inl e)
           | Some (Inr K) \<Rightarrow>
             Some (Inr (R\<lparr>rc_keys := K,
               rc_rows := (if reuse then (rc_rows R)[index := row] else take index (rc_rows R) @ row # drop index (rc_rows R)),
               rc_live := rc_live R + 1\<rparr>, index))))"

definition records_compact :: "records \<Rightarrow> records option" where
  "records_compact R =
     (case keys_retain (rc_keys R) (\<lambda>i. rw_len (rc_rows R ! i) \<noteq> 0) of None \<Rightarrow> None
      | Some K \<Rightarrow> Some (R\<lparr>rc_keys := K, rc_rows := filter (\<lambda>r. rw_len r \<noteq> 0) (rc_rows R)\<rparr>))"

definition records_remove :: "records \<Rightarrow> u64 \<Rightarrow> records option option" where
  "records_remove R offset =
     (let index = records_position R offset;
          same = takeWhile (\<lambda>i. row_off (rc_rows R ! i) = offset) [index..<length (rc_rows R)]
      in
      case find (\<lambda>i. rw_len (rc_rows R ! i) \<noteq> 0) same of None \<Rightarrow> Some None
      | Some i \<Rightarrow>
        (case keys_remove (rc_keys R) i of None \<Rightarrow> None
         | Some K \<Rightarrow>
           let R = R\<lparr>rc_keys := K, rc_rows := (rc_rows R)[i := (rc_rows R ! i)\<lparr>rw_len := 0\<rparr>], rc_live := rc_live R - 1\<rparr> in
           if (length (rc_rows R) - rc_live R) * 100 \<ge> length (rc_rows R)
           then (case records_compact R of None \<Rightarrow> None | Some R \<Rightarrow> Some (Some R))
           else Some (Some R)))"

definition clear_from :: "u64 \<Rightarrow> rec_row \<Rightarrow> rec_row" where
  "clear_from fin r = (if row_off r \<ge> fin \<and> rw_len r \<noteq> 0 then r\<lparr>rw_len := 0\<rparr> else r)"

definition records_retain_before :: "records \<Rightarrow> u64 \<Rightarrow> records option" where
  "records_retain_before R fin =
     records_compact (R\<lparr>rc_rows := map (clear_from fin) (rc_rows R),
       rc_live := rc_live R - length (filter (\<lambda>r. row_off r \<ge> fin \<and> rw_len r \<noteq> 0) (rc_rows R))\<rparr>)"

definition records_slots :: "records \<Rightarrow> nat" where
  "records_slots R = length (rc_rows R)"

definition compacts_after_remove :: "records \<Rightarrow> bool" where
  "compacts_after_remove R \<longleftrightarrow> (length (rc_rows R) - rc_live R + 1) * 100 \<ge> length (rc_rows R)"

definition records_seal :: "records \<Rightarrow> records option" where
  "records_seal R = (case keys_seal (rc_keys R) of None \<Rightarrow> None | Some K \<Rightarrow> Some (R\<lparr>rc_keys := K\<rparr>))"

subsection \<open>The invariant and the live extents\<close>

definition row_ok :: "rec_row \<Rightarrow> byte list \<Rightarrow> bool" where
  "row_ok row key \<longleftrightarrow>
     (\<exists>k. key = codec_encode k \<and> key_utf8 k \<and> validate_key k = Inr () \<and> valid_extent k (row_len row) \<and> rw_extra row = of_nat (key_len k - 25)) \<and>
     row_len row \<le> MAX_EXTENT \<and> unat (rw_offset row) + unat (rw_len row) \<le> unat MAX_SEGMENT"

definition pairs :: "records \<Rightarrow> (rec_row \<times> byte list) list" where
  "pairs R = zip (rc_rows R) (table (rc_keys R))"

definition live_pairs :: "records \<Rightarrow> (rec_row \<times> byte list) list" where
  "live_pairs R = filter (\<lambda>p. rw_len (fst p) \<noteq> 0) (pairs R)"

definition rows_sorted :: "(rec_row \<times> byte list) list \<Rightarrow> bool" where
  "rows_sorted ps \<longleftrightarrow> sorted_wrt (\<lambda>p q. row_off (fst p) < row_off (fst q)) ps"

definition apart :: "(rec_row \<times> byte list) list \<Rightarrow> bool" where
  "apart ps \<longleftrightarrow> sorted_wrt (\<lambda>p q. unat (rw_offset (fst p)) + unat (rw_len (fst p)) \<le> unat (rw_offset (fst q))) ps"

definition records_wf :: "records \<Rightarrow> bool" where
  "records_wf R \<longleftrightarrow>
     keys_wf (rc_keys R) \<and> keys_slots (rc_keys R) = length (rc_rows R) \<and> rows_sorted (pairs R) \<and>
     rc_live R = length (live_pairs R) \<and> (\<forall>p \<in> set (live_pairs R). row_ok (fst p) (snd p)) \<and> apart (live_pairs R)"

definition entry :: "rec_row \<times> byte list \<Rightarrow> u64 \<times> small_record" where
  "entry p = (row_off (fst p), \<lparr>sr_key = the (codec_decode (snd p)), sr_len = row_len (fst p), sr_checksum = rw_checksum (fst p)\<rparr>)"

definition contents :: "records \<Rightarrow> (u64 \<times> small_record) list" where
  "contents R = map entry (live_pairs R)"

definition extent_end :: "u64 \<times> small_record \<Rightarrow> nat" where
  "extent_end e = unat (fst e) + unat (sr_len (snd e))"

definition records_plain :: "records \<Rightarrow> bool" where
  "records_plain R \<longleftrightarrow> ks_offsets (rc_keys R) = [] \<and> ks_prefix_ids (rc_keys R) = [] \<and> (\<forall>p \<in> set (pairs R). rw_len (fst p) = 0 \<longrightarrow> snd p = [])"

definition key_bytes :: "(u64 \<times> small_record) list \<Rightarrow> nat" where
  "key_bytes L = sum_list (map (\<lambda>e. length (codec_encode (sr_key (snd e)))) L)"

lemma row_off_nat [simp]: "unat (row_off r) = unat (rw_offset r)"
  by (simp add: row_off_def unsigned_ucast_eq take_bit_nat_eq_self less_le_trans [OF unsigned_less])

lemma row_len_nat [simp]: "unat (row_len r) = unat (rw_len r)"
  by (simp add: row_len_def unsigned_ucast_eq take_bit_nat_eq_self less_le_trans [OF unsigned_less])

lemma row_len_zero [simp]: "row_len r = 0 \<longleftrightarrow> rw_len r = 0"
  by (metis row_len_nat unat_eq_zero)

lemma sorted_split:
  assumes "sorted_wrt R xs" "\<And>a b. R a b \<Longrightarrow> P b \<Longrightarrow> P a"
  shows "takeWhile P xs = filter P xs" "dropWhile P xs = filter (\<lambda>x. \<not> P x) xs"
proof -
  have "takeWhile P xs = filter P xs \<and> dropWhile P xs = filter (\<lambda>x. \<not> P x) xs" using assms(1)
  proof (induction xs)
    case (Cons x xs)
    have "filter P xs = [] \<and> filter (\<lambda>x. \<not> P x) xs = xs" if "\<not> P x"
      using that Cons.prems assms(2) by (auto simp: filter_empty_conv filter_id_conv)
    then show ?case using Cons by auto
  qed simp
  then show "takeWhile P xs = filter P xs" "dropWhile P xs = filter (\<lambda>x. \<not> P x) xs" by simp_all
qed

lemma find_hd: "find P xs = (if filter P xs = [] then None else Some (hd (filter P xs)))"
  by (induction xs) auto

lemma find_rev_last: "find P (rev xs) = (if filter P xs = [] then None else Some (last (filter P xs)))"
  by (simp add: find_hd rev_filter [symmetric] hd_rev)

lemma wf_fields:
  assumes "records_wf R"
  shows "keys_wf (rc_keys R)" "keys_slots (rc_keys R) = length (rc_rows R)" "rows_sorted (pairs R)" "rc_live R = length (live_pairs R)"
    "apart (live_pairs R)" "p \<in> set (live_pairs R) \<Longrightarrow> row_ok (fst p) (snd p)"
  using assms by (simp_all add: records_wf_def)

lemma pairs_simps:
  assumes "keys_slots (rc_keys R) = length (rc_rows R)"
  shows "length (pairs R) = length (rc_rows R)" "map fst (pairs R) = rc_rows R" "map snd (pairs R) = table (rc_keys R)"
    "i < length (rc_rows R) \<Longrightarrow> pairs R ! i = (rc_rows R ! i, table (rc_keys R) ! i)"
  using assms by (simp_all add: pairs_def)

lemma partition_pairs:
  assumes wf: "records_wf R" and P: "\<And>a b. row_off a < row_off b \<Longrightarrow> P b \<Longrightarrow> P a"
  shows "take (partition_point P (rc_rows R)) (pairs R) = filter (\<lambda>p. P (fst p)) (pairs R)"
    "drop (partition_point P (rc_rows R)) (pairs R) = filter (\<lambda>p. \<not> P (fst p)) (pairs R)"
    "take (partition_point P (rc_rows R)) (rc_rows R) = map fst (filter (\<lambda>p. P (fst p)) (pairs R))"
    "drop (partition_point P (rc_rows R)) (rc_rows R) = map fst (filter (\<lambda>p. \<not> P (fst p)) (pairs R))"
    "partition_point P (rc_rows R) = length (filter (\<lambda>p. P (fst p)) (pairs R))"
proof -
  let ?Q = "\<lambda>p. P (fst p)"
  note rows = pairs_simps(2) [OF wf_fields(2) [OF wf]]
  have n: "partition_point P (rc_rows R) = length (takeWhile ?Q (pairs R))"
    unfolding partition_point_def rows [symmetric] takeWhile_map by (simp add: o_def)
  have split: "takeWhile ?Q (pairs R) = filter ?Q (pairs R)" "dropWhile ?Q (pairs R) = filter (\<lambda>p. \<not> ?Q p) (pairs R)"
    using sorted_split [OF wf_fields(3) [OF wf, unfolded rows_sorted_def], of ?Q] P by blast+
  show t: "take (partition_point P (rc_rows R)) (pairs R) = filter ?Q (pairs R)"
    unfolding n takeWhile_eq_take [symmetric] by (rule split)
  show d: "drop (partition_point P (rc_rows R)) (pairs R) = filter (\<lambda>p. \<not> ?Q p) (pairs R)"
    unfolding n dropWhile_eq_drop [symmetric] by (rule split)
  show "take (partition_point P (rc_rows R)) (rc_rows R) = map fst (filter ?Q (pairs R))" using arg_cong [OF t, of "map fst"] unfolding take_map [symmetric] rows .
  show "drop (partition_point P (rc_rows R)) (rc_rows R) = map fst (filter (\<lambda>p. \<not> ?Q p) (pairs R))"
    using arg_cong [OF d, of "map fst"] unfolding drop_map [symmetric] rows .
  show "partition_point P (rc_rows R) = length (filter ?Q (pairs R))" unfolding n split(1) ..
qed

lemma live_filter: "filter (\<lambda>r. rw_len r \<noteq> 0) (map fst (filter Q (pairs R))) = map fst (filter Q (live_pairs R))"
  by (simp add: live_pairs_def filter_map o_def conj_commute)

lemma live_decode:
  assumes "row_ok (fst p) (snd p)"
  shows "codec_decode (snd p) = Some (sr_key (snd (entry p)))" "snd p = codec_encode (sr_key (snd (entry p)))" "key_utf8 (sr_key (snd (entry p)))"
    "validate_key (sr_key (snd (entry p))) = Inr ()" "valid_extent (sr_key (snd (entry p))) (sr_len (snd (entry p)))"
proof -
  obtain k where k: "snd p = codec_encode k" "key_utf8 k" "validate_key k = Inr ()" "valid_extent k (row_len (fst p))"
    using assms unfolding row_ok_def by auto
  have "codec_decode (codec_encode k) = Some k" using k(2,3) by (intro codec_roundtrip) (auto simp: validate_key_def)
  then show "codec_decode (snd p) = Some (sr_key (snd (entry p)))" "snd p = codec_encode (sr_key (snd (entry p)))" "key_utf8 (sr_key (snd (entry p)))"
    "validate_key (sr_key (snd (entry p))) = Inr ()" "valid_extent (sr_key (snd (entry p))) (sr_len (snd (entry p)))"
    using k by (simp_all add: entry_def)
qed

lemma records_get_pairs:
  assumes wf: "records_wf R"
  shows "records_get R i = Some (if i < length (rc_rows R) \<and> rw_len (rc_rows R ! i) \<noteq> 0 then Some (entry (pairs R ! i)) else None)"
proof (cases "i < length (rc_rows R) \<and> rw_len (rc_rows R ! i) \<noteq> 0")
  case True
  let ?p = "pairs R ! i"
  note ps = pairs_simps [OF wf_fields(2) [OF wf]]
  have p: "?p = (rc_rows R ! i, table (rc_keys R) ! i)" using True by (simp add: ps(4))
  have "?p \<in> set (pairs R)" using True ps(1) by (intro nth_mem) simp
  then have live: "?p \<in> set (live_pairs R)" using True p by (simp add: live_pairs_def)
  obtain a b where g: "keys_get (rc_keys R) i = Some (Some (a, b))" "a @ b = snd ?p"
    using keys_get_table [OF wf_fields(1) [OF wf], of i] True wf_fields(2) [OF wf] p by auto
  have "codec_decode (a @ b) = Some (sr_key (snd (entry ?p)))" unfolding g(2) by (rule live_decode(1) [OF wf_fields(6) [OF wf live]])
  then show ?thesis using True g(1) p by (simp add: records_get_def records_metadata_def entry_def)
next
  case False
  then show ?thesis by (auto simp: records_get_def records_metadata_def vec_get_def)
qed

lemma those_Some: "those (map (\<lambda>i. Some (f i)) xs) = Some (map f xs)"
  by (induction xs) auto

lemma records_iter_contents:
  assumes wf: "records_wf R"
  shows "records_iter R = Some (contents R)"
proof -
  note ps = pairs_simps [OF wf_fields(2) [OF wf]]
  let ?f = "\<lambda>p. if rw_len (fst p) \<noteq> 0 then Some (entry p) else None"
  have "map (records_get R) [0..<length (rc_rows R)] = map (\<lambda>i. Some (?f (pairs R ! i))) [0..<length (pairs R)]"
    using ps(1,4) by (simp add: records_get_pairs [OF wf])
  then have "those (map (records_get R) [0..<length (rc_rows R)]) = Some (map (\<lambda>i. ?f (pairs R ! i)) [0..<length (pairs R)])"
    by (simp only: those_Some)
  moreover have "map (\<lambda>i. ?f (pairs R ! i)) [0..<length (pairs R)] = map ?f (pairs R)"
    using map_nth [of "pairs R"] by (metis (no_types, lifting) map_eq_conv map_map o_apply)
  moreover have "List.map_filter id (map ?f ps) = map entry (filter (\<lambda>p. rw_len (fst p) \<noteq> 0) ps)" for ps
    by (induction ps) (simp_all add: List.map_filter_simps)
  ultimately show ?thesis by (simp add: records_iter_def contents_def live_pairs_def)
qed

subsection \<open>Queries\<close>

definition overlapping :: "(u64 \<times> small_record) list \<Rightarrow> u64 \<Rightarrow> u64 \<Rightarrow> bool" where
  "overlapping L offset len \<longleftrightarrow> (\<exists>e \<in> set L. unat (fst e) < unat offset + unat len \<and> unat offset < extent_end e)"

definition crossing :: "(u64 \<times> small_record) list \<Rightarrow> u64 \<Rightarrow> bool" where
  "crossing L fin \<longleftrightarrow> (\<exists>e \<in> set L. fst e < fin \<and> unat fin < extent_end e)"

definition pair_end :: "rec_row \<times> byte list \<Rightarrow> nat" where
  "pair_end p = unat (rw_offset (fst p)) + unat (rw_len (fst p))"

lemma entry_end: "extent_end (entry p) = pair_end p" "fst (entry p) = row_off (fst p)" "sr_len (snd (entry p)) = row_len (fst p)"
  "sr_checksum (snd (entry p)) = rw_checksum (fst p)"
  by (simp_all add: extent_end_def entry_def pair_end_def)

lemma row_less: "row_off r < o' \<longleftrightarrow> unat (rw_offset r) < unat o'" "row_off r \<le> o' \<longleftrightarrow> unat (rw_offset r) \<le> unat o'"
  by (simp_all add: word_less_nat_alt word_le_nat_alt)

lemma unat_add_small: "unat a + unat b \<le> unat MAX_SEGMENT \<Longrightarrow> unat (a + b :: u64) = unat a + unat b"
  by (simp add: unat_word_ariths MAX_SEGMENT_def)

lemma row_end_nat: "row_ok r k \<Longrightarrow> unat (row_off r + row_len r) = unat (rw_offset r) + unat (rw_len r)"
  by (simp add: row_ok_def unat_add_small)

lemma wf_live_offsets:
  assumes "records_wf R"
  shows "rows_sorted (live_pairs R)"
  using wf_fields(3) [OF assms] by (simp add: rows_sorted_def live_pairs_def sorted_wrt_filter)

lemma last_crosses:
  assumes "apart A" "A \<noteq> []" "\<forall>p \<in> set A. unat (rw_offset (fst p)) < n"
  shows "n < pair_end (last A) \<longleftrightarrow> (\<exists>p \<in> set A. n < pair_end p)"
proof
  assume "\<exists>p \<in> set A. n < pair_end p"
  then obtain p where p: "p \<in> set A" "n < pair_end p" by blast
  show "n < pair_end (last A)"
  proof (cases "p = last A")
    case False
    have "A = butlast A @ [last A]" using assms(2) by simp
    then have "p \<in> set (butlast A)" using p(1) False by (metis in_set_butlast_appendI append_butlast_last_id rotate1.simps(2) set_ConsD set_rotate1)
    moreover have "apart (butlast A @ [last A])" using assms(1,2) by simp
    ultimately have "pair_end p \<le> unat (rw_offset (fst (last A)))" by (auto simp: apart_def sorted_wrt_append pair_end_def)
    moreover have "unat (rw_offset (fst (last A))) < n" using assms(2,3) by simp
    ultimately show ?thesis using p(2) by simp
  qed (use p in simp)
qed (use assms(2) in \<open>auto intro: last_in_set\<close>)

lemma find_last_live:
  assumes wf: "records_wf R"
  shows "(case find (\<lambda>r. rw_len r \<noteq> 0) (rev (take (partition_point (\<lambda>r. row_off r < fin) (rc_rows R)) (rc_rows R))) of
      None \<Rightarrow> False | Some r \<Rightarrow> row_off r + row_len r > fin) \<longleftrightarrow> crossing (contents R) fin"
proof -
  let ?A = "filter (\<lambda>p. row_off (fst p) < fin) (live_pairs R)"
  have t: "take (partition_point (\<lambda>r. row_off r < fin) (rc_rows R)) (rc_rows R) = map fst (filter (\<lambda>p. row_off (fst p) < fin) (pairs R))"
    by (rule partition_pairs(3) [OF wf]) auto
  have ap: "apart ?A" using wf_fields(5) [OF wf] by (simp add: apart_def sorted_wrt_filter)
  have cross: "crossing (contents R) fin \<longleftrightarrow> (\<exists>p \<in> set ?A. unat fin < pair_end p)"
    unfolding crossing_def contents_def by (force simp: entry_end)
  show ?thesis
  proof (cases "?A = []")
    case True
    then show ?thesis unfolding t find_rev_last live_filter cross by simp
  next
    case False
    have "last ?A \<in> set (live_pairs R)" using last_in_set [OF False] by simp
    then have "fin < row_off (fst (last ?A)) + row_len (fst (last ?A)) \<longleftrightarrow> unat fin < pair_end (last ?A)"
      using row_end_nat [OF wf_fields(6) [OF wf]] by (simp add: word_less_nat_alt pair_end_def)
    moreover have "unat fin < pair_end (last ?A) \<longleftrightarrow> (\<exists>p \<in> set ?A. unat fin < pair_end p)"
      by (rule last_crosses [OF ap False]) (simp add: row_less)
    ultimately show ?thesis unfolding t find_rev_last live_filter cross using False by (simp add: last_map)
  qed
qed

lemma records_crosses_iff: "records_wf R \<Longrightarrow> records_crosses R fin \<longleftrightarrow> crossing (contents R) fin"
  by (simp add: records_crosses_def Let_def find_last_live)

lemma records_overlaps_iff:
  assumes wf: "records_wf R" and no: "unat offset + unat len < 2 ^ 64"
  shows "records_overlaps R offset len \<longleftrightarrow> overlapping (contents R) offset len"
proof -
  let ?B = "filter (\<lambda>p. \<not> row_off (fst p) < offset) (live_pairs R)"
  have d: "drop (partition_point (\<lambda>r. row_off r < offset) (rc_rows R)) (rc_rows R) = map fst (filter (\<lambda>p. \<not> row_off (fst p) < offset) (pairs R))"
    by (rule partition_pairs(4) [OF wf]) auto
  have sum: "unat (offset + len) = unat offset + unat len" using no by (simp add: unat_word_ariths)
  have "rows_sorted ?B" using wf_live_offsets [OF wf] by (simp add: rows_sorted_def sorted_wrt_filter)
  then have first: "row_off (fst (hd ?B)) < offset + len \<longleftrightarrow> (\<exists>p \<in> set ?B. row_off (fst p) < offset + len)" if "?B \<noteq> []"
    using that by (cases ?B) (auto simp: rows_sorted_def)
  have "(case find (\<lambda>r. rw_len r \<noteq> 0) (drop (partition_point (\<lambda>r. row_off r < offset) (rc_rows R)) (rc_rows R)) of None \<Rightarrow> False
      | Some r \<Rightarrow> row_off r < offset + len) \<longleftrightarrow> (\<exists>p \<in> set ?B. row_off (fst p) < offset + len)"
  proof (cases "?B = []")
    case True
    then show ?thesis unfolding d find_hd live_filter by simp
  next
    case False
    then show ?thesis unfolding d find_hd live_filter using first [OF False] by (simp add: hd_map)
  qed
  moreover have "overlapping (contents R) offset len \<longleftrightarrow> crossing (contents R) offset \<or> (\<exists>p \<in> set ?B. row_off (fst p) < offset + len)"
  proof -
    have "0 < unat (rw_len (fst p))" if "p \<in> set (live_pairs R)" for p using that by (simp add: live_pairs_def unat_gt_0)
    then have iff: "(unat (rw_offset (fst p)) < unat offset + unat len \<and> unat offset < pair_end p) \<longleftrightarrow>
        (unat (rw_offset (fst p)) < unat offset \<and> unat offset < pair_end p) \<or>
        (\<not> unat (rw_offset (fst p)) < unat offset \<and> unat (rw_offset (fst p)) < unat offset + unat len)"
      if "p \<in> set (live_pairs R)" for p using that by (fastforce simp: pair_end_def)
    have "overlapping (contents R) offset len \<longleftrightarrow> (\<exists>p \<in> set (live_pairs R). unat (rw_offset (fst p)) < unat offset + unat len \<and> unat offset < pair_end p)"
      by (simp add: overlapping_def contents_def entry_end del: split_paired_Ex)
    also have "\<dots> \<longleftrightarrow> (\<exists>p \<in> set (live_pairs R). (unat (rw_offset (fst p)) < unat offset \<and> unat offset < pair_end p) \<or>
        (\<not> unat (rw_offset (fst p)) < unat offset \<and> unat (rw_offset (fst p)) < unat offset + unat len))"
      using iff by (intro bex_cong refl) blast
    also have "\<dots> \<longleftrightarrow> crossing (contents R) offset \<or> (\<exists>p \<in> set ?B. row_off (fst p) < offset + len)"
      by (simp add: crossing_def contents_def entry_end row_less sum bex_disj_distrib del: split_paired_Ex) blast
    finally show ?thesis .
  qed
  ultimately show ?thesis using find_last_live [OF wf, of offset] by (simp add: records_overlaps_def Let_def)
qed

subsection \<open>Updates\<close>

definition put_extent :: "u64 \<Rightarrow> small_record \<Rightarrow> (u64 \<times> small_record) list \<Rightarrow> (u64 \<times> small_record) list" where
  "put_extent offset r L = filter (\<lambda>e. fst e < offset) L @ (offset, r) # filter (\<lambda>e. offset < fst e) L"

lemma records_default_ok [simp]: "records_wf records_default" "contents records_default = []" "records_plain records_default"
proof -
  show "records_wf records_default" "contents records_default = []"
    by (simp_all add: records_wf_def records_default_def contents_def live_pairs_def pairs_def rows_sorted_def apart_def keys_slots_def)
      (simp add: keys_default_def)
  show "records_plain records_default" by (simp add: records_plain_def records_default_def pairs_def) (simp add: keys_default_def)
qed

text \<open>An operation that keeps the order of rows and only changes which rows are live.\<close>

lemma records_wfI:
  assumes "keys_wf (rc_keys R)" "keys_slots (rc_keys R) = length (rc_rows R)" "rows_sorted (pairs R)" "rc_live R = length (live_pairs R)"
    "\<And>p. p \<in> set (live_pairs R) \<Longrightarrow> row_ok (fst p) (snd p)" "apart (live_pairs R)"
  shows "records_wf R"
  using assms by (simp add: records_wf_def)

lemma records_seal_ok:
  assumes wf: "records_wf R"
  shows "\<exists>R'. records_seal R = Some R' \<and> records_wf R' \<and> contents R' = contents R"
proof -
  obtain K where K: "keys_seal (rc_keys R) = Some K" "keys_wf K" "table K = table (rc_keys R)"
    using keys_seal_ok [OF wf_fields(1) [OF wf]] by blast
  let ?R = "R\<lparr>rc_keys := K\<rparr>"
  have p: "pairs ?R = pairs R" by (simp add: pairs_def K(3))
  have "keys_slots K = keys_slots (rc_keys R)" using table_length [of K] table_length [of "rc_keys R"] K(3) by simp
  then show ?thesis using K(1,2) wf p by (simp add: records_seal_def records_wf_def contents_def live_pairs_def)
qed

lemma compact_pairs:
  assumes "keys_wf (rc_keys R)" "keys_slots (rc_keys R) = length (rc_rows R)"
  shows "\<exists>R'. records_compact R = Some R' \<and> keys_wf (rc_keys R') \<and> keys_slots (rc_keys R') = length (rc_rows R') \<and>
    pairs R' = live_pairs R \<and> rc_live R' = rc_live R \<and>
    (ks_offsets (rc_keys R) = [] \<longrightarrow> ks_offsets (rc_keys R') = []) \<and> (ks_prefix_ids (rc_keys R) = [] \<longrightarrow> ks_prefix_ids (rc_keys R') = [])"
proof -
  let ?keep = "\<lambda>i. rw_len (rc_rows R ! i) \<noteq> 0"
  note ps = pairs_simps [OF assms(2)]
  obtain K where K: "keys_retain (rc_keys R) ?keep = Some K" "keys_wf K" "ks_offsets K = [] \<longleftrightarrow> ks_offsets (rc_keys R) = []"
      "table K = map ((!) (table (rc_keys R))) (filter ?keep [0..<keys_slots (rc_keys R)])"
      "ks_prefix_ids (rc_keys R) = [] \<longrightarrow> ks_prefix_ids K = []"
    using keys_retain_ok [OF assms(1), of ?keep] by blast
  have "filter (\<lambda>p. rw_len (fst p) \<noteq> 0) (pairs R) = map ((!) (pairs R)) (filter (\<lambda>i. rw_len (fst (pairs R ! i)) \<noteq> 0) [0..<length (pairs R)])"
    using filter_map [of "\<lambda>p. rw_len (fst p) \<noteq> 0" "(!) (pairs R)" "[0..<length (pairs R)]"] map_nth [of "pairs R"] by (simp add: o_def)
  also have "filter (\<lambda>i. rw_len (fst (pairs R ! i)) \<noteq> 0) [0..<length (pairs R)] = filter ?keep [0..<keys_slots (rc_keys R)]"
    using ps assms(2) by (intro filter_cong) auto
  finally have live: "live_pairs R = map ((!) (pairs R)) (filter ?keep [0..<keys_slots (rc_keys R)])" by (simp add: live_pairs_def)
  have snd: "table K = map snd (live_pairs R)" unfolding K(4) live using ps assms(2) by (auto simp: o_def)
  have fst: "filter (\<lambda>r. rw_len r \<noteq> 0) (rc_rows R) = map fst (live_pairs R)"
    using ps(2) filter_map [of "\<lambda>r. rw_len r \<noteq> 0" fst "pairs R"] by (simp add: live_pairs_def o_def)
  let ?R = "R\<lparr>rc_keys := K, rc_rows := filter (\<lambda>r. rw_len r \<noteq> 0) (rc_rows R)\<rparr>"
  have "pairs ?R = live_pairs R" by (simp add: pairs_def fst snd zip_map_fst_snd)
  moreover have "keys_slots K = length (filter (\<lambda>r. rw_len r \<noteq> 0) (rc_rows R))" using table_length [of K] snd fst by simp
  ultimately show ?thesis using K(1,2,3,5) by (intro exI [of _ ?R]) (simp add: records_compact_def)
qed

lemma records_compact_ok:
  assumes "keys_wf (rc_keys R)" "keys_slots (rc_keys R) = length (rc_rows R)" "rows_sorted (pairs R)" "rc_live R = length (live_pairs R)"
    "\<And>p. p \<in> set (live_pairs R) \<Longrightarrow> row_ok (fst p) (snd p)" "apart (live_pairs R)"
  shows "\<exists>R'. records_compact R = Some R' \<and> records_wf R' \<and> contents R' = contents R \<and>
    (ks_offsets (rc_keys R) = [] \<and> ks_prefix_ids (rc_keys R) = [] \<longrightarrow> records_plain R')"
proof -
  obtain R' where R': "records_compact R = Some R'" "keys_wf (rc_keys R')" "keys_slots (rc_keys R') = length (rc_rows R')"
      "pairs R' = live_pairs R" "rc_live R' = rc_live R"
      "ks_offsets (rc_keys R) = [] \<longrightarrow> ks_offsets (rc_keys R') = []" "ks_prefix_ids (rc_keys R) = [] \<longrightarrow> ks_prefix_ids (rc_keys R') = []"
    using compact_pairs [OF assms(1,2)] by blast
  have live: "live_pairs R' = live_pairs R" unfolding live_pairs_def [of R'] R'(4) by (simp add: live_pairs_def)
  have "rows_sorted (pairs R')" unfolding R'(4) using assms(3) by (simp add: rows_sorted_def live_pairs_def sorted_wrt_filter)
  then have "records_wf R'" using R' live assms(4-6) by (intro records_wfI) auto
  moreover have "\<forall>p \<in> set (pairs R'). rw_len (fst p) \<noteq> 0" unfolding R'(4) by (simp add: live_pairs_def)
  ultimately show ?thesis using R'(1,6,7) live by (auto simp: contents_def records_plain_def)
qed

lemma records_retain_before_ok:
  assumes wf: "records_wf R"
  shows "\<exists>R'. records_retain_before R fin = Some R' \<and> records_wf R' \<and> contents R' = filter (\<lambda>e. fst e < fin) (contents R) \<and>
    (records_plain R \<longrightarrow> records_plain R')"
proof -
  note ps = pairs_simps [OF wf_fields(2) [OF wf]]
  let ?c = "\<lambda>p. (clear_from fin (fst p), snd p)"
  let ?gone = "\<lambda>r. row_off r \<ge> fin \<and> rw_len r \<noteq> 0"
  let ?R = "R\<lparr>rc_rows := map (clear_from fin) (rc_rows R), rc_live := rc_live R - length (filter ?gone (rc_rows R))\<rparr>"
  have off: "row_off (clear_from fin r) = row_off r" for r by (simp add: clear_from_def row_off_def)
  have p: "pairs ?R = map ?c (pairs R)" by (simp add: pairs_def zip_map1 case_prod_beta)
  have live: "live_pairs ?R = filter (\<lambda>p. row_off (fst p) < fin) (live_pairs R)"
  proof -
    have "filter (\<lambda>p. rw_len (fst p) \<noteq> 0) (map ?c xs) = filter (\<lambda>p. row_off (fst p) < fin) (filter (\<lambda>p. rw_len (fst p) \<noteq> 0) xs)" for xs
      by (induction xs) (auto simp: clear_from_def)
    then show ?thesis by (simp add: live_pairs_def p)
  qed
  have "length (filter ?gone (rc_rows R)) = length (filter (\<lambda>p. \<not> row_off (fst p) < fin) (live_pairs R))"
    unfolding ps(2) [symmetric] live_pairs_def by (simp add: filter_map o_def not_less conj_commute)
  then have count: "rc_live ?R = length (live_pairs ?R)"
    using wf_fields(4) [OF wf] sum_length_filter_compl [of "\<lambda>p. row_off (fst p) < fin" "live_pairs R"] unfolding live by simp
  have "\<exists>R'. records_compact ?R = Some R' \<and> records_wf R' \<and> contents R' = contents ?R \<and>
    (ks_offsets (rc_keys ?R) = [] \<and> ks_prefix_ids (rc_keys ?R) = [] \<longrightarrow> records_plain R')"
  proof (rule records_compact_ok)
    show "rows_sorted (pairs ?R)" using wf_fields(3) [OF wf] unfolding p by (simp add: rows_sorted_def sorted_wrt_map off)
    show "apart (live_pairs ?R)" using wf_fields(5) [OF wf] unfolding live by (simp add: apart_def sorted_wrt_filter)
    show "row_ok (fst q) (snd q)" if "q \<in> set (live_pairs ?R)" for q using that wf_fields(6) [OF wf] unfolding live by simp
  qed (use wf_fields(1,2) [OF wf] count in simp_all)
  moreover have "contents ?R = filter (\<lambda>e. fst e < fin) (contents R)" by (simp add: contents_def live filter_map o_def entry_end)
  ultimately show ?thesis by (auto simp: records_retain_before_def records_plain_def)
qed

text \<open>The row at an offset, if any, stands between the rows below and the rows above it.\<close>

lemma position_split:
  assumes wf: "records_wf R" and i: "i = records_position R offset"
  shows "take i (pairs R) = filter (\<lambda>p. row_off (fst p) < offset) (pairs R)"
    "i < length (rc_rows R) \<and> row_off (rc_rows R ! i) = offset \<Longrightarrow> drop (Suc i) (pairs R) = filter (\<lambda>p. offset < row_off (fst p)) (pairs R)"
    "\<not> (i < length (rc_rows R) \<and> row_off (rc_rows R ! i) = offset) \<Longrightarrow> \<forall>p \<in> set (pairs R). row_off (fst p) \<noteq> offset"
proof -
  note ps = pairs_simps [OF wf_fields(2) [OF wf]]
  have t: "take i (pairs R) = filter (\<lambda>p. row_off (fst p) < offset) (pairs R)"
      "drop i (pairs R) = filter (\<lambda>p. \<not> row_off (fst p) < offset) (pairs R)"
    unfolding i records_position_def using partition_pairs(1,2) [OF wf, of "\<lambda>r. row_off r < offset"] by auto
  show "take i (pairs R) = filter (\<lambda>p. row_off (fst p) < offset) (pairs R)" by (rule t)
  have sorted: "sorted_wrt (\<lambda>p q. row_off (fst p) < row_off (fst q)) (drop i (pairs R))"
    using wf_fields(3) [OF wf] by (simp add: rows_sorted_def sorted_wrt_drop)
  show "drop (Suc i) (pairs R) = filter (\<lambda>p. offset < row_off (fst p)) (pairs R)"
    if a: "i < length (rc_rows R) \<and> row_off (rc_rows R ! i) = offset"
  proof -
    have d: "drop i (pairs R) = pairs R ! i # drop (Suc i) (pairs R)" using a ps(1) by (simp add: Cons_nth_drop_Suc)
    have off: "row_off (fst (pairs R ! i)) = offset" using a ps(4) by simp
    have above: "\<forall>p \<in> set (drop (Suc i) (pairs R)). offset < row_off (fst p)" using sorted unfolding d by (simp add: off)
    have "filter (\<lambda>p. offset < row_off (fst p)) (pairs R) = filter (\<lambda>p. offset < row_off (fst p)) (drop i (pairs R))"
      unfolding t(2) filter_filter by (rule filter_cong) auto
    also have "\<dots> = drop (Suc i) (pairs R)" unfolding d using off above by (simp add: filter_id_conv)
    finally show ?thesis by simp
  qed
  show "\<forall>p \<in> set (pairs R). row_off (fst p) \<noteq> offset" if a: "\<not> (i < length (rc_rows R) \<and> row_off (rc_rows R ! i) = offset)"
  proof (rule ccontr)
    assume "\<not> (\<forall>p \<in> set (pairs R). row_off (fst p) \<noteq> offset)"
    then obtain p where p: "p \<in> set (pairs R)" "row_off (fst p) = offset" by blast
    then have m: "p \<in> set (drop i (pairs R))" unfolding t(2) by simp
    then have n: "i < length (pairs R)" by (cases "i < length (pairs R)") auto
    have d: "drop i (pairs R) = pairs R ! i # drop (Suc i) (pairs R)" using n by (simp add: Cons_nth_drop_Suc)
    have "pairs R ! i \<in> set (drop i (pairs R))" unfolding d by simp
    then have "\<not> row_off (fst (pairs R ! i)) < offset" unfolding t(2) by simp
    moreover have "row_off (fst (pairs R ! i)) \<noteq> offset" using a n ps(1,4) by simp
    ultimately have "p \<in> set (drop (Suc i) (pairs R))" "offset < row_off (fst (pairs R ! i))" using m p(2) unfolding d by auto
    then show False using sorted p(2) unfolding d by auto
  qed
qed

lemma find_at_position:
  assumes wf: "records_wf R" and i: "i = records_position R offset"
  shows "find (\<lambda>i. rw_len (rc_rows R ! i) \<noteq> 0) (takeWhile (\<lambda>i. row_off (rc_rows R ! i) = offset) [i..<length (rc_rows R)]) =
    (if i < length (rc_rows R) \<and> row_off (rc_rows R ! i) = offset \<and> rw_len (rc_rows R ! i) \<noteq> 0 then Some i else None)"
proof (cases "i < length (rc_rows R) \<and> row_off (rc_rows R ! i) = offset")
  case True
  note ps = pairs_simps [OF wf_fields(2) [OF wf]]
  have "row_off (rc_rows R ! j) \<noteq> offset" if "Suc i \<le> j" "j < length (rc_rows R)" for j
  proof -
    have "pairs R ! j \<in> set (drop (Suc i) (pairs R))" using nth_mem [of "j - Suc i" "drop (Suc i) (pairs R)"] that ps(1) by simp
    then have "offset < row_off (fst (pairs R ! j))" unfolding position_split(2) [OF wf i True] by simp
    then show ?thesis using that ps(4) by simp
  qed
  then have "takeWhile (\<lambda>i. row_off (rc_rows R ! i) = offset) [Suc i..<length (rc_rows R)] = []"
    by (cases "Suc i < length (rc_rows R)") (simp_all add: upt_conv_Cons)
  then show ?thesis using True by (simp add: upt_conv_Cons)
next
  case False
  then have "takeWhile (\<lambda>i. row_off (rc_rows R ! i) = offset) [i..<length (rc_rows R)] = []"
    by (cases "i < length (rc_rows R)") (simp_all add: upt_conv_Cons)
  then show ?thesis using False by auto
qed

lemma zip_update: "length xs = length ys \<Longrightarrow> i < length xs \<Longrightarrow> zip (xs[i := x]) (ys[i := y]) = take i (zip xs ys) @ (x, y) # drop (Suc i) (zip xs ys)"
  by (simp add: update_zip [symmetric] upd_conv_take_nth_drop take_zip drop_zip)

lemma records_remove_ok:
  assumes wf: "records_wf R"
  shows "if offset \<in> fst ` set (contents R)
    then \<exists>R'. records_remove R offset = Some (Some R') \<and> records_wf R' \<and> contents R' = filter (\<lambda>e. fst e \<noteq> offset) (contents R) \<and>
      (records_plain R \<longrightarrow> records_plain R')
    else records_remove R offset = Some None"
proof -
  note ps = pairs_simps [OF wf_fields(2) [OF wf]]
  define i where "i = records_position R offset"
  note split = position_split [OF wf i_def]
  let ?A = "filter (\<lambda>p. row_off (fst p) < offset) (pairs R)" and ?B = "filter (\<lambda>p. offset < row_off (fst p)) (pairs R)"
  have at: "offset \<in> fst ` set (contents R) \<longleftrightarrow> i < length (rc_rows R) \<and> row_off (rc_rows R ! i) = offset \<and> rw_len (rc_rows R ! i) \<noteq> 0"
  proof
    assume "offset \<in> fst ` set (contents R)"
    then obtain p where p: "p \<in> set (pairs R)" "rw_len (fst p) \<noteq> 0" "row_off (fst p) = offset"
      by (auto simp: contents_def live_pairs_def entry_end)
    then have here: "i < length (rc_rows R) \<and> row_off (rc_rows R ! i) = offset" using split(3) by blast
    have "pairs R = ?A @ pairs R ! i # ?B" using split(1,2) here ps(1) id_take_nth_drop [of i "pairs R"] by simp
    then have "p \<in> set (?A @ pairs R ! i # ?B)" using p(1) by simp
    then have "p = pairs R ! i" using p(3) by auto
    then show "i < length (rc_rows R) \<and> row_off (rc_rows R ! i) = offset \<and> rw_len (rc_rows R ! i) \<noteq> 0" using here p(2) ps(4) by simp
  next
    assume a: "i < length (rc_rows R) \<and> row_off (rc_rows R ! i) = offset \<and> rw_len (rc_rows R ! i) \<noteq> 0"
    then have "pairs R ! i \<in> set (live_pairs R)" "row_off (fst (pairs R ! i)) = offset" using ps(1,4) by (simp_all add: live_pairs_def) (metis nth_mem)
    then show "offset \<in> fst ` set (contents R)" by (force simp: contents_def entry_end)
  qed
  show ?thesis
  proof (cases "offset \<in> fst ` set (contents R)")
    case False
    then have "\<not> (i < length (rc_rows R) \<and> row_off (rc_rows R ! i) = offset \<and> rw_len (rc_rows R ! i) \<noteq> 0)" using at by blast
    then have "records_remove R offset = Some None"
      unfolding records_remove_def Let_def i_def [symmetric] find_at_position [OF wf i_def] by (simp only: if_False option.case)
    then show ?thesis using False by simp
  next
    case True
    then have a: "i < length (rc_rows R)" "row_off (rc_rows R ! i) = offset" "rw_len (rc_rows R ! i) \<noteq> 0" using at by simp_all
    have all: "pairs R = ?A @ pairs R ! i # ?B" using split(1,2) a ps(1) id_take_nth_drop [of i "pairs R"] by simp
    obtain K where K: "keys_remove (rc_keys R) i = Some K" "keys_wf K" "ks_offsets K = ks_offsets (rc_keys R)"
        "table K = (if ks_offsets (rc_keys R) = [] then (table (rc_keys R))[i := []] else table (rc_keys R))"
        "ks_prefix_ids (rc_keys R) = [] \<longrightarrow> ks_prefix_ids K = []"
      using keys_remove_ok [OF wf_fields(1) [OF wf], of i] a(1) wf_fields(2) [OF wf] by auto
    define x where "x = (if ks_offsets (rc_keys R) = [] then [] else table (rc_keys R) ! i)"
    have tab: "table K = (table (rc_keys R))[i := x]" using K(4) by (simp add: x_def)
    let ?row = "(rc_rows R ! i)\<lparr>rw_len := 0\<rparr>"
    define R1 where "R1 = R\<lparr>rc_keys := K, rc_rows := (rc_rows R)[i := ?row], rc_live := rc_live R - 1\<rparr>"
    have p1: "pairs R1 = ?A @ (?row, x) # ?B"
      using zip_update [of "rc_rows R" "table (rc_keys R)" i ?row x] a(1) wf_fields(2) [OF wf] split(1,2) a(2)
      by (simp add: R1_def pairs_def [of "_\<lparr>rc_keys := _, rc_rows := _, rc_live := _\<rparr>"] tab) (simp add: pairs_def)
    have l: "live_pairs R = filter (\<lambda>p. rw_len (fst p) \<noteq> 0) ?A @ pairs R ! i # filter (\<lambda>p. rw_len (fst p) \<noteq> 0) ?B"
      using arg_cong [OF all, of "filter (\<lambda>p. rw_len (fst p) \<noteq> 0)"] a ps(4) by (simp add: live_pairs_def)
    have l1: "live_pairs R1 = filter (\<lambda>p. rw_len (fst p) \<noteq> 0) ?A @ filter (\<lambda>p. rw_len (fst p) \<noteq> 0) ?B"
      by (simp add: live_pairs_def p1)
    have off: "row_off ?row = offset" "row_off (fst (pairs R ! i)) = offset" using a ps(4) by (simp_all add: row_off_def)
    have l1f: "live_pairs R1 = filter (\<lambda>p. row_off (fst p) \<noteq> offset) (live_pairs R)"
    proof -
      have "filter (\<lambda>p. row_off (fst p) \<noteq> offset) (filter (\<lambda>p. rw_len (fst p) \<noteq> 0) ?A) = filter (\<lambda>p. rw_len (fst p) \<noteq> 0) ?A"
        "filter (\<lambda>p. row_off (fst p) \<noteq> offset) (filter (\<lambda>p. rw_len (fst p) \<noteq> 0) ?B) = filter (\<lambda>p. rw_len (fst p) \<noteq> 0) ?B"
        by (rule filter_True, force)+
      then show ?thesis unfolding l1 by (subst l) (simp add: off)
    qed
    have c1: "contents R1 = filter (\<lambda>e. fst e \<noteq> offset) (contents R)" unfolding contents_def l1f by (simp add: filter_map o_def entry_end)
    have wf1: "keys_wf (rc_keys R1)" "keys_slots (rc_keys R1) = length (rc_rows R1)" "rows_sorted (pairs R1)" "rc_live R1 = length (live_pairs R1)"
        "apart (live_pairs R1)" "\<And>p. p \<in> set (live_pairs R1) \<Longrightarrow> row_ok (fst p) (snd p)"
    proof -
      show "keys_wf (rc_keys R1)" using K(2) by (simp add: R1_def)
      show "keys_slots (rc_keys R1) = length (rc_rows R1)" using table_length [of K] tab wf_fields(2) [OF wf] by (simp add: R1_def)
      have "rows_sorted (?A @ pairs R ! i # ?B)" using wf_fields(3) [OF wf] all by simp
      then show "rows_sorted (pairs R1)" unfolding p1 by (simp add: rows_sorted_def sorted_wrt_append off)
      show "rc_live R1 = length (live_pairs R1)" using wf_fields(4) [OF wf] l l1 by (simp add: R1_def)
      show "apart (live_pairs R1)" using wf_fields(5) [OF wf] by (simp add: l1f apart_def sorted_wrt_filter)
      show "row_ok (fst p) (snd p)" if "p \<in> set (live_pairs R1)" for p using that wf_fields(6) [OF wf] by (simp add: l1f)
    qed
    have run: "records_remove R offset =
        (if (length (rc_rows R1) - rc_live R1) * 100 \<ge> length (rc_rows R1)
         then (case records_compact R1 of None \<Rightarrow> None | Some R \<Rightarrow> Some (Some R)) else Some (Some R1))"
      using find_at_position [OF wf i_def] a K(1) unfolding records_remove_def Let_def i_def [symmetric] R1_def by simp
    have plain: "records_plain R1" if "records_plain R"
      using that K(3,5) unfolding records_plain_def p1 by (auto simp: R1_def x_def)
    obtain R2 where R2: "records_compact R1 = Some R2" "records_wf R2" "contents R2 = contents R1"
        "ks_offsets (rc_keys R1) = [] \<and> ks_prefix_ids (rc_keys R1) = [] \<longrightarrow> records_plain R2"
      using records_compact_ok [OF wf1(1-4,6,5)] by blast
    have wf1': "records_wf R1" by (rule records_wfI [OF wf1(1-4,6,5)])
    have plain2: "records_plain R2" if "records_plain R" using plain [OF that] R2(4) unfolding records_plain_def by blast
    show ?thesis
    proof (cases "(length (rc_rows R1) - rc_live R1) * 100 \<ge> length (rc_rows R1)")
      case c: True
      then show ?thesis using True run R2(1-3) c1 plain2 by simp
    next
      case c: False
      then show ?thesis using True run wf1' c1 plain by simp
    qed
  qed
qed

definition good_extent :: "u64 \<Rightarrow> small_record \<Rightarrow> bool" where
  "good_extent offset r \<longleftrightarrow>
     valid_extent (sr_key r) (sr_len r) \<and> offset < MAX_SEGMENT \<and> sr_len r \<noteq> 0 \<and> sr_len r \<le> MAX_EXTENT \<and> offset + sr_len r \<le> MAX_SEGMENT"

lemma good_extent_nat:
  assumes "good_extent offset r"
  shows "unat offset + unat (sr_len r) \<le> unat MAX_SEGMENT" "unat (sr_len r) \<le> unat MAX_EXTENT" "0 < unat (sr_len r)"
    "unat offset + unat (sr_len r) < 2 ^ 64"
proof -
  have a: "unat offset < 2 ^ 30" "unat (sr_len r) \<le> 2 ^ 27" "unat (offset + sr_len r) \<le> 2 ^ 30" "sr_len r \<noteq> 0"
    using assms by (simp_all add: good_extent_def MAX_SEGMENT_def MAX_EXTENT_def word_less_nat_alt word_le_nat_alt)
  then have sum: "unat (offset + sr_len r) = unat offset + unat (sr_len r)" by (simp add: unat_word_ariths)
  show "unat offset + unat (sr_len r) \<le> unat MAX_SEGMENT" "unat (sr_len r) \<le> unat MAX_EXTENT" "0 < unat (sr_len r)"
    "unat offset + unat (sr_len r) < 2 ^ 64"
    using a sum by (simp_all add: MAX_SEGMENT_def MAX_EXTENT_def unat_gt_0)
qed

lemma ucast_roundtrip: "unat (a :: u64) < 2 ^ 32 \<Longrightarrow> ucast (ucast a :: u32) = a"
  by (simp add: word_unat_eq_iff unsigned_ucast_eq unsigned_take_bit_eq take_bit_nat_eq_self)

lemma ucast_small: "unat (a :: u64) < 2 ^ 32 \<Longrightarrow> unat (ucast a :: u32) = unat a"
  by (simp add: unsigned_ucast_eq take_bit_nat_eq_self)

lemma new_row_ok:
  assumes "good_extent offset r" "key_utf8 (sr_key r)" "validate_key (sr_key r) = Inr ()"
  shows "row_ok (new_row kh offset r) (codec_encode (sr_key r))" "entry (new_row kh offset r, codec_encode (sr_key r)) = (offset, r)"
    "row_off (new_row kh offset r) = offset" "rw_len (new_row kh offset r) \<noteq> 0"
    "pair_end (new_row kh offset r, k) = unat offset + unat (sr_len r)"
proof -
  note n = good_extent_nat [OF assms(1)]
  have small: "unat offset < 2 ^ 32" "unat (sr_len r) < 2 ^ 32" using n(1) by (simp_all add: MAX_SEGMENT_def)
  have o: "row_off (new_row kh offset r) = offset" and l: "row_len (new_row kh offset r) = sr_len r"
    using small by (simp_all add: new_row_def row_off_def row_len_def ucast_roundtrip)
  then show "row_off (new_row kh offset r) = offset" by simp
  show "rw_len (new_row kh offset r) \<noteq> 0" using l n(3) by (metis row_len_zero unat_0 less_irrefl)
  have nat: "unat (rw_offset (new_row kh offset r)) = unat offset" "unat (rw_len (new_row kh offset r)) = unat (sr_len r)"
    using small by (simp_all add: new_row_def ucast_small)
  show "pair_end (new_row kh offset r, k) = unat offset + unat (sr_len r)" using nat by (simp add: pair_end_def)
  have "codec_decode (codec_encode (sr_key r)) = Some (sr_key r)"
    using assms(2,3) by (intro codec_roundtrip) (auto simp: validate_key_def)
  then show "entry (new_row kh offset r, codec_encode (sr_key r)) = (offset, r)" using o l by (simp add: entry_def) (simp add: new_row_def)
  show "row_ok (new_row kh offset r) (codec_encode (sr_key r))"
    using assms nat l n(1) by (auto simp: row_ok_def good_extent_def new_row_def [of kh] intro!: exI [of _ "sr_key r"])
qed

lemma zip_insert: "length xs = length ys \<Longrightarrow> zip (take i xs @ x # drop i xs) (take i ys @ y # drop i ys) = take i (zip xs ys) @ (x, y) # drop i (zip xs ys)"
  by (simp add: take_zip drop_zip)

lemma insert_pairs:
  assumes wf: "records_wf R" and good: "good_extent offset r" "key_utf8 (sr_key r)" "validate_key (sr_key r) = Inr ()"
    and free: "\<not> overlapping (contents R) offset (sr_len r)"
    and p: "pairs R' = filter (\<lambda>p. row_off (fst p) < offset) (pairs R) @ (new_row kh offset r, codec_encode (sr_key r)) # filter (\<lambda>p. offset < row_off (fst p)) (pairs R)"
    and R': "keys_wf (rc_keys R')" "keys_slots (rc_keys R') = length (rc_rows R')" "rc_live R' = rc_live R + 1"
  shows "records_wf R'" "contents R' = put_extent offset r (contents R)"
proof -
  let ?n = "(new_row kh offset r, codec_encode (sr_key r))"
  let ?A = "filter (\<lambda>p. row_off (fst p) < offset) (live_pairs R)" and ?B = "filter (\<lambda>p. offset < row_off (fst p)) (live_pairs R)"
  note nr = new_row_ok [OF good, of kh] and n = good_extent_nat [OF good(1)]
  have l: "live_pairs R' = ?A @ ?n # ?B" using nr(4) by (simp add: live_pairs_def p conj_commute)
  have sides: "pair_end q \<le> unat offset \<or> unat offset + unat (sr_len r) \<le> unat (rw_offset (fst q))" if "q \<in> set (live_pairs R)" for q
  proof (rule ccontr)
    assume "\<not> ?thesis"
    then have "overlapping (contents R) offset (sr_len r)" using that unfolding overlapping_def contents_def
      by (intro bexI [of _ "entry q"]) (auto simp: entry_end)
    then show False using free by simp
  qed
  have pos: "0 < unat (rw_len (fst q))" if "q \<in> set (live_pairs R)" for q using that by (simp add: live_pairs_def unat_gt_0)
  have below: "pair_end q \<le> unat offset" if "q \<in> set ?A" for q using sides [of q] that n(3) by (auto simp: row_less)
  have above: "unat offset + unat (sr_len r) \<le> unat (rw_offset (fst q))" if "q \<in> set ?B" for q
    using sides [of q] pos [of q] that by (auto simp: word_less_nat_alt pair_end_def)
  have off: "unat (rw_offset (fst ?n)) = unat offset" using row_off_nat [of "fst ?n"] nr(3) by simp
  have cover: "q \<in> set ?A \<or> q \<in> set ?B" if "q \<in> set (live_pairs R)" for q
    using sides [OF that] pos [OF that] n(3) that by (auto simp: row_less word_less_nat_alt pair_end_def)
  have parts: "live_pairs R = ?A @ ?B"
  proof -
    have eq: "filter (\<lambda>p. \<not> row_off (fst p) < offset) (live_pairs R) = ?B" using cover by (intro filter_cong) auto
    have "sorted_wrt (\<lambda>p q. row_off (fst p) < row_off (fst q)) (live_pairs R)" using wf_live_offsets [OF wf] by (simp add: rows_sorted_def)
    note sp = sorted_split [OF this, of "\<lambda>p. row_off (fst p) < offset"]
    have "takeWhile (\<lambda>p. row_off (fst p) < offset) (live_pairs R) @ dropWhile (\<lambda>p. row_off (fst p) < offset) (live_pairs R) = ?A @ ?B"
      using sp eq by fastforce
    then show ?thesis by simp
  qed
  show "records_wf R'"
  proof (rule records_wfI [OF R'(1,2)])
    have s: "rows_sorted (pairs R)" by (rule wf_fields(3) [OF wf])
    then show "rows_sorted (pairs R')" unfolding p rows_sorted_def
      by (auto simp: sorted_wrt_append sorted_wrt_filter nr(3))
    show "rc_live R' = length (live_pairs R')" using R'(3) wf_fields(4) [OF wf] arg_cong [OF parts, of length] by (simp add: l)
    show "row_ok (fst q) (snd q)" if "q \<in> set (live_pairs R')" for q
      using that nr(1) wf_fields(6) [OF wf] unfolding l by auto
    have "apart ?A" "apart ?B" using wf_fields(5) [OF wf] by (simp_all add: apart_def sorted_wrt_filter)
    moreover have "\<forall>q \<in> set ?A. pair_end q \<le> unat (rw_offset (fst ?n))" using below off by simp
    moreover have "\<forall>q \<in> set ?B. pair_end ?n \<le> unat (rw_offset (fst q))" using above nr(5) by simp
    moreover have "\<forall>q \<in> set ?A. \<forall>q' \<in> set ?B. pair_end q \<le> unat (rw_offset (fst q'))" using below above by fastforce
    ultimately show "apart (live_pairs R')" unfolding l apart_def pair_end_def by (simp add: sorted_wrt_append)
  qed
  show "contents R' = put_extent offset r (contents R)"
    by (simp add: contents_def l put_extent_def filter_map o_def entry_end nr(2))
qed

lemma no_equal_row:
  assumes wf: "records_wf R" and free: "\<not> overlapping (contents R) offset len" "0 < unat len"
    and q: "q \<in> set (pairs R)" "row_off (fst q) = offset"
  shows "rw_len (fst q) = 0"
proof (rule ccontr)
  assume "rw_len (fst q) \<noteq> 0"
  then have "q \<in> set (live_pairs R)" "0 < unat (rw_len (fst q))" using q(1) by (simp_all add: live_pairs_def unat_gt_0)
  moreover have "unat (rw_offset (fst q)) = unat offset" using q(2) row_off_nat by metis
  ultimately have "overlapping (contents R) offset len" using free(2) unfolding overlapping_def contents_def
    by (intro bexI [of _ "entry q"]) (auto simp: entry_end pair_end_def q(2))
  then show False using free(1) by simp
qed

text \<open>Where the new row goes: onto a tombstone at its offset, or between the rows around it.\<close>

lemma insert_place:
  assumes wf: "records_wf R" and free: "\<not> overlapping (contents R) offset len" "0 < unat len"
    and i: "i = records_position R offset"
  shows "i < length (rc_rows R) \<and> row_off (rc_rows R ! i) = offset \<Longrightarrow> rw_len (rc_rows R ! i) = 0"
    "\<not> (i < length (rc_rows R) \<and> row_off (rc_rows R ! i) = offset) \<Longrightarrow>
      partition_point (\<lambda>r. row_off r \<le> offset) (rc_rows R) = i \<and> drop i (pairs R) = filter (\<lambda>p. offset < row_off (fst p)) (pairs R)"
proof -
  note ps = pairs_simps [OF wf_fields(2) [OF wf]]
  show "rw_len (rc_rows R ! i) = 0" if "i < length (rc_rows R) \<and> row_off (rc_rows R ! i) = offset"
    using no_equal_row [OF wf free, of "pairs R ! i"] that ps(1,4) nth_mem [of i "pairs R"] by simp
  assume none: "\<not> (i < length (rc_rows R) \<and> row_off (rc_rows R ! i) = offset)"
  have ne: "\<forall>p \<in> set (pairs R). row_off (fst p) \<noteq> offset" using position_split(3) [OF wf i none] .
  have eq: "filter (\<lambda>p. row_off (fst p) \<le> offset) (pairs R) = filter (\<lambda>p. row_off (fst p) < offset) (pairs R)"
    "filter (\<lambda>p. \<not> row_off (fst p) < offset) (pairs R) = filter (\<lambda>p. offset < row_off (fst p)) (pairs R)"
    using ne by (auto intro!: filter_cong)
  have "partition_point (\<lambda>r. row_off r \<le> offset) (rc_rows R) = i"
    unfolding i records_position_def using partition_pairs(5) [OF wf, of "\<lambda>r. row_off r \<le> offset"] partition_pairs(5) [OF wf, of "\<lambda>r. row_off r < offset"] eq(1) by auto
  moreover have "drop i (pairs R) = filter (\<lambda>p. offset < row_off (fst p)) (pairs R)"
    unfolding i records_position_def eq(2) [symmetric] by (rule partition_pairs(2) [OF wf]) auto
  ultimately show "partition_point (\<lambda>r. row_off r \<le> offset) (rc_rows R) = i \<and> drop i (pairs R) = filter (\<lambda>p. offset < row_off (fst p)) (pairs R)" ..
qed

lemma records_insert_ok:
  assumes wf: "records_wf R" and good: "good_extent offset r" "key_utf8 (sr_key r)" "validate_key (sr_key r) = Inr ()"
    and free: "\<not> overlapping (contents R) offset (sr_len r)"
  shows "if table_live (rc_keys R) + length (codec_encode (sr_key r)) \<le> U32_MAX
    then \<exists>R' i. records_insert kh R offset r = Some (Inr (R', i)) \<and> records_wf R' \<and> contents R' = put_extent offset r (contents R) \<and>
      (records_plain R \<longrightarrow> records_plain R') \<and> records_get R' i = Some (Some (offset, r))
    else records_insert kh R offset r = Some (Inl (IoOther ''small-object key buffer overflow''))"
proof -
  note ps = pairs_simps [OF wf_fields(2) [OF wf]] and n = good_extent_nat [OF good(1)]
  define i where "i = records_position R offset"
  define reuse where "reuse \<longleftrightarrow> i < length (rc_rows R) \<and> row_off (rc_rows R ! i) = offset"
  let ?row = "new_row kh offset r" and ?key = "codec_encode (sr_key r)"
  note place = insert_place [OF wf free n(3) i_def]
  have here: "(case vec_get (rc_rows R) i of None \<Rightarrow> False | Some row \<Rightarrow> row_off row = offset \<and> rw_len row = 0) = reuse"
    using place(1) by (auto simp: reuse_def vec_get_def)
  have idx: "(if reuse then i else partition_point (\<lambda>r. row_off r \<le> offset) (rc_rows R)) = i" using place(2) by (auto simp: reuse_def)
  have guard: "\<not> (\<not> valid_extent (sr_key r) (sr_len r) \<or> offset \<ge> MAX_SEGMENT \<or> sr_len r = 0 \<or> sr_len r > MAX_EXTENT \<or> offset + sr_len r > MAX_SEGMENT)"
    using good(1) by (auto simp: good_extent_def not_le)
  define R1 where "R1 K = R\<lparr>rc_keys := K, rc_rows := (if reuse then (rc_rows R)[i := ?row] else take i (rc_rows R) @ ?row # drop i (rc_rows R)),
      rc_live := rc_live R + 1\<rparr>" for K
  have run: "records_insert kh R offset r =
      (case keys_insert (rc_keys R) i ?key reuse of None \<Rightarrow> None | Some (Inl e) \<Rightarrow> Some (Inl e) | Some (Inr K) \<Rightarrow> Some (Inr (R1 K, i)))"
    unfolding records_insert_def good(3) sum.case if_not_P [OF guard] Let_def i_def [symmetric] here idx R1_def ..
  have le: "i \<le> length (rc_rows R)" unfolding i_def records_position_def partition_point_def by (rule length_takeWhile_le)
  then have bound: "if reuse then i < keys_slots (rc_keys R) else i \<le> keys_slots (rc_keys R)"
    using wf_fields(2) [OF wf] by (simp add: reuse_def)
  note ins = keys_insert_ok [OF wf_fields(1) [OF wf] bound, of ?key]
  show ?thesis
  proof (cases "table_live (rc_keys R) + length ?key \<le> U32_MAX")
    case True
    then obtain K where K: "keys_insert (rc_keys R) i ?key reuse = Some (Inr K)" "keys_wf K" "ks_offsets K = []"
        "table K = put_row (table (rc_keys R)) i ?key reuse" "ks_prefix_ids (rc_keys R) = [] \<longrightarrow> ks_prefix_ids K = []"
      using ins by auto
    have len: "length (rc_rows R) = length (table (rc_keys R))" using wf_fields(2) [OF wf] by simp
    let ?A = "filter (\<lambda>p. row_off (fst p) < offset) (pairs R)" and ?B = "filter (\<lambda>p. offset < row_off (fst p)) (pairs R)"
    have p: "pairs (R1 K) = ?A @ (?row, ?key) # ?B"
    proof (cases reuse)
      case u: True
      have "pairs (R1 K) = take i (pairs R) @ (?row, ?key) # drop (Suc i) (pairs R)"
        using zip_update [OF len, of i ?row ?key] u by (simp add: pairs_def R1_def K(4) put_row_def reuse_def)
      then show ?thesis using position_split(1,2) [OF wf i_def] u by (simp add: reuse_def)
    next
      case u: False
      have "pairs (R1 K) = take i (pairs R) @ (?row, ?key) # drop i (pairs R)"
        using zip_insert [OF len, of i ?row ?key] u by (simp add: pairs_def R1_def K(4) put_row_def)
      then show ?thesis using position_split(1) [OF wf i_def] place(2) u by (simp add: reuse_def)
    qed
    have slots: "keys_slots K = length (rc_rows (R1 K))"
      using arg_cong [OF K(4), of length] wf_fields(2) [OF wf] le by (auto simp: put_row_def R1_def)
    have ok: "records_wf (R1 K)" "contents (R1 K) = put_extent offset r (contents R)"
      using insert_pairs [OF wf good free p] K(2) slots by (simp_all add: R1_def)
    have plain: "records_plain (R1 K)" if "records_plain R"
      using that K(3,5) new_row_ok(4) [OF good, of kh] unfolding records_plain_def p by (auto simp: R1_def)
    have nth: "rc_rows (R1 K) ! i = ?row" "i < length (rc_rows (R1 K))" "pairs (R1 K) ! i = (?row, ?key)"
    proof -
      show "rc_rows (R1 K) ! i = ?row" "i < length (rc_rows (R1 K))" using le by (auto simp: R1_def reuse_def nth_append)
      have "length ?A = i" using position_split(1) [OF wf i_def] le ps(1) by (metis length_take min.absorb2)
      then show "pairs (R1 K) ! i = (?row, ?key)" unfolding p by (simp add: nth_append)
    qed
    have "records_get (R1 K) i = Some (Some (offset, r))"
      using records_get_pairs [OF ok(1), of i] nth new_row_ok(2,4) [OF good, of kh] by simp
    then show ?thesis using True run K(1) ok plain by simp
  next
    case False
    then show ?thesis using ins run by simp
  qed
qed

lemma plain_key_bytes:
  assumes wf: "records_wf R" and plain: "records_plain R"
  shows "table_live (rc_keys R) = key_bytes (contents R)"
proof -
  have K: "keys_thaw (rc_keys R) = rc_keys R" "loose_wf (rc_keys R)" "ks_prefix_ids (rc_keys R) = []"
    using plain wf_fields(1) [OF wf] by (simp_all add: records_plain_def keys_wf_def thaw_loose)
  have "table_live (rc_keys R) = sum_list (map length (table (rc_keys R)))"
    using plain_live [OF K(2,3)] by (simp add: table_live_def table_def K(1))
  also have "\<dots> = sum_list (map (\<lambda>p. length (snd p)) (pairs R))"
    unfolding pairs_simps(3) [OF wf_fields(2) [OF wf], symmetric] map_map o_def ..
  also have "\<dots> = sum_list (map (\<lambda>p. length (snd p)) (live_pairs R))"
  proof -
    have "\<forall>p \<in> set ps. rw_len (fst p) = 0 \<longrightarrow> snd p = [] \<Longrightarrow>
        sum_list (map (\<lambda>p. length (snd p)) ps) = sum_list (map (\<lambda>p. length (snd p)) (filter (\<lambda>p. rw_len (fst p) \<noteq> 0) ps))"
      for ps :: "(rec_row \<times> byte list) list" by (induction ps) auto
    then show ?thesis using plain unfolding live_pairs_def records_plain_def by blast
  qed
  also have "\<dots> = key_bytes (contents R)"
    unfolding key_bytes_def contents_def map_map o_def
    by (intro arg_cong [of _ _ sum_list] map_cong refl arg_cong [of _ _ length] live_decode(2) [OF wf_fields(6) [OF wf]])
  finally show ?thesis .
qed

subsection \<open>The record table refines a list of extents\<close>

text \<open>C11. The records of a segment stand for the sorted list of their live extents: iteration yields it; the overlap and boundary
  tests, which look only at the neighbouring rows, decide overlap and crossing with any extent; and inserting, removing,
  dropping everything past a boundary and sealing act on that list, whatever tombstones, compaction and key compression do.\<close>

theorem records_refine:
  assumes wf: "records_wf R"
  shows "records_iter R = Some (contents R) \<and>
    (unat offset + unat len < 2 ^ 64 \<longrightarrow> records_overlaps R offset len = overlapping (contents R) offset len) \<and>
    records_crosses R fin = crossing (contents R) fin \<and>
    (\<exists>R'. records_seal R = Some R' \<and> records_wf R' \<and> contents R' = contents R) \<and>
    (\<exists>R'. records_retain_before R fin = Some R' \<and> records_wf R' \<and> contents R' = filter (\<lambda>e. fst e < fin) (contents R)) \<and>
    (if offset \<in> fst ` set (contents R)
     then \<exists>R'. records_remove R offset = Some (Some R') \<and> records_wf R' \<and> contents R' = filter (\<lambda>e. fst e \<noteq> offset) (contents R)
     else records_remove R offset = Some None) \<and>
    (key_utf8 (sr_key r) \<and> validate_key (sr_key r) = Inr () \<and> good_extent offset r \<and> \<not> overlapping (contents R) offset (sr_len r) \<and>
       table_live (rc_keys R) + length (codec_encode (sr_key r)) \<le> U32_MAX \<longrightarrow>
     (\<exists>R' i. records_insert kh R offset r = Some (Inr (R', i)) \<and> records_wf R' \<and> contents R' = put_extent offset r (contents R) \<and>
        records_get R' i = Some (Some (offset, r))))"
proof (intro conjI impI)
  show "\<exists>R' i. records_insert kh R offset r = Some (Inr (R', i)) \<and> records_wf R' \<and> contents R' = put_extent offset r (contents R) \<and>
      records_get R' i = Some (Some (offset, r))"
    if "key_utf8 (sr_key r) \<and> validate_key (sr_key r) = Inr () \<and> good_extent offset r \<and> \<not> overlapping (contents R) offset (sr_len r) \<and>
       table_live (rc_keys R) + length (codec_encode (sr_key r)) \<le> U32_MAX"
    using records_insert_ok [OF wf, of offset r kh] that by auto
  show "if offset \<in> fst ` set (contents R)
     then \<exists>R'. records_remove R offset = Some (Some R') \<and> records_wf R' \<and> contents R' = filter (\<lambda>e. fst e \<noteq> offset) (contents R)
     else records_remove R offset = Some None"
    using records_remove_ok [OF wf, of offset] by (auto split: if_splits)
qed (use records_iter_contents [OF wf] records_overlaps_iff [OF wf] records_crosses_iff [OF wf] records_seal_ok [OF wf]
    records_retain_before_ok [OF wf] in blast)+

definition sample_record :: small_record where
  "sample_record = \<lparr>sr_key = \<lparr>sk_block = \<lparr>blk_object = \<lparr>obj_backend = S3, obj_bucket = ''b'', object_path = ''p''\<rparr>, blk_offset = 0,
     blk_size = 16, blk_version = ''v''\<rparr>, sk_kind = UnitWhole\<rparr>, sr_len = 5, sr_checksum = 3\<rparr>"

lemma sample_record_ok:
  "key_utf8 (sr_key sample_record)" "validate_key (sr_key sample_record) = Inr ()" "good_extent 10 sample_record"
  "length (codec_encode (sr_key sample_record)) \<le> 100"
  by (simp_all add: sample_record_def key_utf8_def as_bytes_def validate_key_def key_len_def MAX_KEY_def good_extent_def valid_extent_def
      MAX_SEGMENT_def MAX_EXTENT_def codec_encode_def codec_field_def codec_hex_def Let_def)

theorem records_refine_witness:
  "\<exists>R' i. records_insert (\<lambda>_. 0) records_default 10 sample_record = Some (Inr (R', i)) \<and> contents R' = [(10, sample_record)]"
proof -
  have "\<not> overlapping (contents records_default) 10 (sr_len sample_record)" by (simp add: overlapping_def)
  moreover have "table_live (rc_keys records_default) + length (codec_encode (sr_key sample_record)) \<le> U32_MAX"
    using sample_record_ok(4) by (simp add: records_default_def U32_MAX_def)
  ultimately show ?thesis
    using records_refine [OF records_default_ok(1), of 10 0 0 sample_record "\<lambda>_. 0"] sample_record_ok by (auto simp: put_extent_def)
qed

end
