(* ===== verification/Small_Model.thy ===== *)
theory Small_Model
  imports Small_Records Journal_Disk
begin

text \<open>
  The metadata state of the small-object store and its journal records
  (\<open>crates/talon-worker/src/small_store/journal/model.rs\<close>): segments by number with their record tables, the events that
  change them, the encodings of events and snapshots, and the machine that the journal drives. A B-tree map is its list
  of entries in key order; sharing by \<open>Arc\<close> has no effect. \<open>None\<close> is a panic; an error drops the state, as the writer
  stops on it. \<open>store_spec\<close> is what the store promises: segments with plain lists of extents, on which \<open>spec_apply\<close>
  accepts or refuses each event.
\<close>

subsection \<open>Ordered maps\<close>

definition btree_put :: "u64 \<Rightarrow> 'a \<Rightarrow> (u64 \<times> 'a) list \<Rightarrow> (u64 \<times> 'a) list" where
  "btree_put k v L = filter (\<lambda>e. fst e < k) L @ (k, v) # filter (\<lambda>e. k < fst e) L"

definition btree_remove :: "u64 \<Rightarrow> (u64 \<times> 'a) list \<Rightarrow> (u64 \<times> 'a) list" where
  "btree_remove k L = filter (\<lambda>e. fst e \<noteq> k) L"

definition btree_ok :: "(u64 \<times> 'a) list \<Rightarrow> bool" where
  "btree_ok L \<longleftrightarrow> sorted_wrt (<) (map fst L)"

subsection \<open>Segments, model and events\<close>

record segment_meta =
  sg_slot :: u64
  sg_bytes :: u64
  sg_durable_end :: u64
  sg_metadata :: u64
  sg_sealed :: bool
  sg_records :: records

record small_model =
  mo_segments :: "(u64 \<times> segment_meta) list"
  mo_next :: u64

datatype event =
    EvInsert u64 u64 u64 small_record
  | EvDelete u64 u64
  | EvSeal u64
  | EvFlush u64 u64
  | EvRecover u64
  | EvSetNext u64
  | EvReplace u64 "u64 option"

definition recovered_metadata :: "segment_meta \<Rightarrow> u64 option" where
  "recovered_metadata s =
     (if sg_sealed s then Some (sg_metadata s)
      else map_option (\<lambda>L. 8 + sum_list (map (\<lambda>e. 37 + of_nat (key_len (sr_key (snd e)))) L)) (records_before (sg_records s) (sg_durable_end s)))"

definition event_encode :: "event \<Rightarrow> io_error + byte list" where
  "event_encode ev =
     (case ev of
        EvSetNext nx \<Rightarrow> Inr (5 # u64_le nx)
      | EvInsert slot segment offset r \<Rightarrow>
          (case encode_key (sr_key r) of Inl e \<Rightarrow> Inl e
           | Inr b \<Rightarrow> Inr (0 # u64_le slot @ u64_le segment @ u64_le offset @ u64_le (sr_len r) @ u64_le (sr_checksum r) @ b))
      | EvDelete segment offset \<Rightarrow> Inr (1 # u64_le segment @ u64_le offset)
      | EvSeal segment \<Rightarrow> Inr (2 # u64_le segment)
      | EvFlush segment durable_end \<Rightarrow> Inr (6 # u64_le segment @ u64_le durable_end)
      | EvRecover segment \<Rightarrow> Inr (7 # u64_le segment)
      | EvReplace old new \<Rightarrow> Inr (3 # u64_le old @ u64_le (case new of None \<Rightarrow> 0 | Some n \<Rightarrow> n)))"

definition take_byte :: "byte list \<Rightarrow> io_error + (byte \<times> byte list)" where
  "take_byte b = (case b of [] \<Rightarrow> Inl (InvalidData ''missing operation'') | x # r \<Rightarrow> Inr (x, r))"

text \<open>Reading one or two numbers that end the record.\<close>

definition no_trailing :: "'a \<times> byte list \<Rightarrow> io_error + 'a" where
  "no_trailing p = (if snd p \<noteq> [] then Inl (InvalidData ''journal trailing bytes'') else Inr (fst p))"

definition decode_one :: "byte list \<Rightarrow> (u64 \<Rightarrow> event) \<Rightarrow> io_error + event" where
  "decode_one b f = (case fmt_u64 b of Inl e \<Rightarrow> Inl e | Inr (x, b) \<Rightarrow> no_trailing (f x, b))"

definition decode_two :: "byte list \<Rightarrow> (u64 \<Rightarrow> u64 \<Rightarrow> event) \<Rightarrow> io_error + event" where
  "decode_two b f =
     (case fmt_u64 b of Inl e \<Rightarrow> Inl e
      | Inr (x, b) \<Rightarrow> (case fmt_u64 b of Inl e \<Rightarrow> Inl e | Inr (y, b) \<Rightarrow> no_trailing (f x y, b)))"

definition decode_insert :: "byte list \<Rightarrow> io_error + event" where
  "decode_insert b =
     (case fmt_u64 b of Inl e \<Rightarrow> Inl e | Inr (slot, b) \<Rightarrow>
     (case fmt_u64 b of Inl e \<Rightarrow> Inl e | Inr (segment, b) \<Rightarrow>
     (case fmt_u64 b of Inl e \<Rightarrow> Inl e | Inr (offset, b) \<Rightarrow>
     (case fmt_u64 b of Inl e \<Rightarrow> Inl e | Inr (len, b) \<Rightarrow>
     (case fmt_u64 b of Inl e \<Rightarrow> Inl e | Inr (checksum, b) \<Rightarrow>
     (case small_view b of Inl e \<Rightarrow> Inl e
      | Inr key \<Rightarrow>
        if len > MAX_EXTENT \<or> \<not> valid_extent key len then Inl (InvalidData ''journal extent'')
        else Inr (EvInsert slot segment offset \<lparr>sr_key = key, sr_len = len, sr_checksum = checksum\<rparr>)))))))"

definition event_decode :: "byte list \<Rightarrow> io_error + event" where
  "event_decode b =
     (case take_byte b of Inl e \<Rightarrow> Inl e
      | Inr (kind, b) \<Rightarrow>
        if kind = 5 then decode_one b EvSetNext
        else if kind = 0 then decode_insert b
        else if kind = 1 then decode_two b EvDelete
        else if kind = 2 then decode_one b EvSeal
        else if kind = 6 then decode_two b EvFlush
        else if kind = 7 then decode_one b EvRecover
        else if kind = 3 then decode_two b (\<lambda>old new. EvReplace old (if new \<noteq> 0 then Some new else None))
        else Inl (InvalidData ''journal operation''))"

subsection \<open>Applying events\<close>

definition new_segment :: "u64 \<Rightarrow> segment_meta" where
  "new_segment slot = \<lparr>sg_slot = slot, sg_bytes = 0, sg_durable_end = 0, sg_metadata = 8, sg_sealed = False, sg_records = records_default\<rparr>"

definition put_segment :: "small_model \<Rightarrow> u64 \<Rightarrow> segment_meta \<Rightarrow> small_model" where
  "put_segment m k s = m\<lparr>mo_segments := btree_put k s (mo_segments m)\<rparr>"

definition seal_segment :: "segment_meta \<Rightarrow> segment_meta option" where
  "seal_segment s =
     map_option (\<lambda>R. s\<lparr>sg_durable_end := sg_bytes s, sg_sealed := True, sg_records := R\<rparr>) (records_seal (sg_records s))"

definition apply_insert :: "(small_key \<Rightarrow> u64) \<Rightarrow> small_model \<Rightarrow> u64 \<Rightarrow> u64 \<Rightarrow> u64 \<Rightarrow> small_record \<Rightarrow> (io_error + small_model) option" where
  "apply_insert kh m slot segment offset r =
     (if segment = 0 then Some (Inl (InvalidData ''zero segment id''))
      else
        (case checked_add segment 1 of None \<Rightarrow> Some (Inl (InvalidData ''segment id overflow''))
         | Some nx \<Rightarrow>
           let m = m\<lparr>mo_next := max (mo_next m) nx\<rparr>;
               s = (case map_of (mo_segments m) segment of None \<Rightarrow> new_segment slot | Some s \<Rightarrow> s)
           in
           if sg_slot s \<noteq> slot \<or> sg_sealed s \<or> offset < sg_durable_end s then Some (Inl (InvalidData ''insert into sealed/wrong stream''))
           else
             (case checked_add offset (sr_len r) of None \<Rightarrow> Some (Inl (InvalidData ''extent overflow''))
              | Some fin \<Rightarrow>
                if records_overlaps (sg_records s) offset (sr_len r) then Some (Inl (InvalidData ''overlapping journal extent''))
                else
                  (case records_insert kh (sg_records s) offset r of None \<Rightarrow> None
                   | Some (Inl e) \<Rightarrow> Some (Inl e)
                   | Some (Inr (R, row)) \<Rightarrow>
                     Some (Inr (put_segment m segment
                       (s\<lparr>sg_bytes := max (sg_bytes s) fin, sg_metadata := sg_metadata s + (37 + of_nat (key_len (sr_key r))), sg_records := R\<rparr>)))))))"

definition apply_delete :: "small_model \<Rightarrow> u64 \<Rightarrow> u64 \<Rightarrow> (io_error + small_model) option" where
  "apply_delete m segment offset =
     (case map_of (mo_segments m) segment of None \<Rightarrow> Some (Inl (InvalidData ''delete missing segment''))
      | Some s \<Rightarrow>
        (case records_remove (sg_records s) offset of None \<Rightarrow> None
         | Some None \<Rightarrow> Some (Inl (InvalidData ''delete missing record''))
         | Some (Some R) \<Rightarrow> Some (Inr (put_segment m segment (s\<lparr>sg_records := R, sg_metadata := sg_metadata s + 21\<rparr>)))))"

definition apply_seal :: "small_model \<Rightarrow> u64 \<Rightarrow> (io_error + small_model) option" where
  "apply_seal m segment =
     (case map_of (mo_segments m) segment of None \<Rightarrow> Some (Inl (InvalidData ''seal missing segment''))
      | Some s \<Rightarrow> (case seal_segment s of None \<Rightarrow> None | Some s \<Rightarrow> Some (Inr (put_segment m segment s))))"

definition apply_flush :: "small_model \<Rightarrow> u64 \<Rightarrow> u64 \<Rightarrow> (io_error + small_model) option" where
  "apply_flush m segment durable_end =
     (case map_of (mo_segments m) segment of None \<Rightarrow> Some (Inl (InvalidData ''flush missing segment''))
      | Some s \<Rightarrow>
        if sg_sealed s \<or> durable_end = 0 \<or> durable_end < sg_durable_end s \<or> durable_end > sg_bytes s \<or> records_crosses (sg_records s) durable_end
        then Some (Inl (InvalidData ''invalid durable segment boundary''))
        else Some (Inr (put_segment m segment (s\<lparr>sg_durable_end := durable_end\<rparr>))))"

definition apply_recover :: "small_model \<Rightarrow> u64 \<Rightarrow> (io_error + small_model) option" where
  "apply_recover m segment =
     (case map_of (mo_segments m) segment of None \<Rightarrow> Some (Inl (InvalidData ''recover missing segment''))
      | Some s \<Rightarrow>
        if sg_sealed s \<or> sg_durable_end s = 0 then Some (Inl (InvalidData ''invalid segment recovery''))
        else
          (case recovered_metadata s of None \<Rightarrow> None
           | Some metadata \<Rightarrow>
             (case records_retain_before (sg_records s) (sg_durable_end s) of None \<Rightarrow> None
              | Some R \<Rightarrow>
                (case records_seal R of None \<Rightarrow> None
                 | Some R \<Rightarrow>
                   Some (Inr (put_segment m segment
                     (s\<lparr>sg_metadata := metadata, sg_bytes := sg_durable_end s, sg_sealed := True, sg_records := R\<rparr>)))))))"

definition apply_replace :: "small_model \<Rightarrow> u64 \<Rightarrow> u64 option \<Rightarrow> (io_error + small_model) option" where
  "apply_replace m old new =
     (case (case new of None \<Rightarrow> Some (Inr m)
            | Some new \<Rightarrow>
              if old = new then Some (Inl (InvalidData ''self relocation''))
              else
                (case map_of (mo_segments m) new of None \<Rightarrow> Some (Inl (InvalidData ''replacement missing segment''))
                 | Some s \<Rightarrow> (case seal_segment s of None \<Rightarrow> None | Some s \<Rightarrow> Some (Inr (put_segment m new s))))) of
        None \<Rightarrow> None
      | Some (Inl e) \<Rightarrow> Some (Inl e)
      | Some (Inr m) \<Rightarrow> Some (Inr (m\<lparr>mo_segments := btree_remove old (mo_segments m)\<rparr>)))"

definition model_apply :: "(small_key \<Rightarrow> u64) \<Rightarrow> small_model \<Rightarrow> event \<Rightarrow> (io_error + small_model) option" where
  "model_apply kh m ev =
     (case ev of
        EvSetNext nx \<Rightarrow> if nx = 0 then Some (Inl (InvalidData ''zero segment allocator'')) else Some (Inr (m\<lparr>mo_next := max (mo_next m) nx\<rparr>))
      | EvInsert slot segment offset r \<Rightarrow> apply_insert kh m slot segment offset r
      | EvDelete segment offset \<Rightarrow> apply_delete m segment offset
      | EvSeal segment \<Rightarrow> apply_seal m segment
      | EvFlush segment durable_end \<Rightarrow> apply_flush m segment durable_end
      | EvRecover segment \<Rightarrow> apply_recover m segment
      | EvReplace old new \<Rightarrow> apply_replace m old new)"

subsection \<open>What the store promises\<close>

record segment_spec =
  ss_slot :: u64
  ss_bytes :: u64
  ss_durable_end :: u64
  ss_metadata :: u64
  ss_sealed :: bool
  ss_extents :: "(u64 \<times> small_record) list"

record store_spec =
  ab_segments :: "(u64 \<times> segment_spec) list"
  ab_next :: u64

definition spec_put :: "store_spec \<Rightarrow> u64 \<Rightarrow> segment_spec \<Rightarrow> store_spec" where
  "spec_put a k s = a\<lparr>ab_segments := btree_put k s (ab_segments a)\<rparr>"

definition spec_new :: "u64 \<Rightarrow> segment_spec" where
  "spec_new slot = \<lparr>ss_slot = slot, ss_bytes = 0, ss_durable_end = 0, ss_metadata = 8, ss_sealed = False, ss_extents = []\<rparr>"

definition spec_seal :: "segment_spec \<Rightarrow> segment_spec" where
  "spec_seal s = s\<lparr>ss_durable_end := ss_bytes s, ss_sealed := True\<rparr>"

definition storable :: "segment_spec \<Rightarrow> u64 \<Rightarrow> u64 \<Rightarrow> small_record \<Rightarrow> bool" where
  "storable s slot offset r \<longleftrightarrow>
     ss_slot s = slot \<and> \<not> ss_sealed s \<and> ss_durable_end s \<le> offset \<and> validate_key (sr_key r) = Inr () \<and> good_extent offset r \<and>
     \<not> overlapping (ss_extents s) offset (sr_len r) \<and> key_bytes (ss_extents s) + length (codec_encode (sr_key r)) \<le> U32_MAX"

definition spec_insert :: "store_spec \<Rightarrow> u64 \<Rightarrow> u64 \<Rightarrow> u64 \<Rightarrow> small_record \<Rightarrow> store_spec option" where
  "spec_insert a slot segment offset r =
     (let s = (case map_of (ab_segments a) segment of None \<Rightarrow> spec_new slot | Some s \<Rightarrow> s) in
      if segment \<noteq> 0 \<and> segment \<noteq> - 1 \<and> storable s slot offset r
      then Some (spec_put (a\<lparr>ab_next := max (ab_next a) (segment + 1)\<rparr>) segment
             (s\<lparr>ss_bytes := max (ss_bytes s) (offset + sr_len r), ss_metadata := ss_metadata s + (37 + of_nat (key_len (sr_key r))),
                ss_extents := put_extent offset r (ss_extents s)\<rparr>))
      else None)"

definition spec_recovered :: "segment_spec \<Rightarrow> segment_spec" where
  "spec_recovered s =
     (let L = filter (\<lambda>e. fst e < ss_durable_end s) (ss_extents s) in
      s\<lparr>ss_metadata := 8 + sum_list (map (\<lambda>e. 37 + of_nat (key_len (sr_key (snd e)))) L), ss_bytes := ss_durable_end s,
        ss_sealed := True, ss_extents := L\<rparr>)"

definition spec_apply :: "store_spec \<Rightarrow> event \<Rightarrow> store_spec option" where
  "spec_apply a ev =
     (case ev of
        EvSetNext nx \<Rightarrow> if nx = 0 then None else Some (a\<lparr>ab_next := max (ab_next a) nx\<rparr>)
      | EvInsert slot segment offset r \<Rightarrow> spec_insert a slot segment offset r
      | EvDelete segment offset \<Rightarrow>
          (case map_of (ab_segments a) segment of None \<Rightarrow> None
           | Some s \<Rightarrow>
             if offset \<in> fst ` set (ss_extents s)
             then Some (spec_put a segment (s\<lparr>ss_extents := filter (\<lambda>e. fst e \<noteq> offset) (ss_extents s), ss_metadata := ss_metadata s + 21\<rparr>))
             else None)
      | EvSeal segment \<Rightarrow> map_option (\<lambda>s. spec_put a segment (spec_seal s)) (map_of (ab_segments a) segment)
      | EvFlush segment durable_end \<Rightarrow>
          (case map_of (ab_segments a) segment of None \<Rightarrow> None
           | Some s \<Rightarrow>
             if \<not> ss_sealed s \<and> durable_end \<noteq> 0 \<and> ss_durable_end s \<le> durable_end \<and> durable_end \<le> ss_bytes s \<and> \<not> crossing (ss_extents s) durable_end
             then Some (spec_put a segment (s\<lparr>ss_durable_end := durable_end\<rparr>)) else None)
      | EvRecover segment \<Rightarrow>
          (case map_of (ab_segments a) segment of None \<Rightarrow> None
           | Some s \<Rightarrow> if \<not> ss_sealed s \<and> ss_durable_end s \<noteq> 0 then Some (spec_put a segment (spec_recovered s)) else None)
      | EvReplace old None \<Rightarrow> Some (a\<lparr>ab_segments := btree_remove old (ab_segments a)\<rparr>)
      | EvReplace old (Some new) \<Rightarrow>
          (case map_of (ab_segments a) new of None \<Rightarrow> None
           | Some s \<Rightarrow>
             if old = new then None
             else Some (a\<lparr>ab_segments := btree_remove old (btree_put new (spec_seal s) (ab_segments a))\<rparr>)))"

definition seg_abs :: "segment_meta \<Rightarrow> segment_spec" where
  "seg_abs s = \<lparr>ss_slot = sg_slot s, ss_bytes = sg_bytes s, ss_durable_end = sg_durable_end s, ss_metadata = sg_metadata s,
     ss_sealed = sg_sealed s, ss_extents = contents (sg_records s)\<rparr>"

definition model_abs :: "small_model \<Rightarrow> store_spec" where
  "model_abs m = \<lparr>ab_segments = map (\<lambda>e. (fst e, seg_abs (snd e))) (mo_segments m), ab_next = mo_next m\<rparr>"

subsection \<open>The invariant\<close>

definition seg_ok :: "segment_meta \<Rightarrow> bool" where
  "seg_ok s \<longleftrightarrow>
     records_wf (sg_records s) \<and> (\<forall>e \<in> set (contents (sg_records s)). extent_end e \<le> unat (sg_bytes s)) \<and>
     sg_durable_end s \<le> sg_bytes s \<and> (sg_sealed s \<longrightarrow> sg_durable_end s = sg_bytes s) \<and>
     \<not> crossing (contents (sg_records s)) (sg_durable_end s) \<and> (\<not> sg_sealed s \<longrightarrow> records_plain (sg_records s)) \<and>
     key_bytes (contents (sg_records s)) \<le> U32_MAX"

definition model_ok :: "small_model \<Rightarrow> bool" where
  "model_ok m \<longleftrightarrow> btree_ok (mo_segments m) \<and> mo_next m \<noteq> 0 \<and>
     (\<forall>e \<in> set (mo_segments m). fst e \<noteq> 0 \<and> fst e < mo_next m \<and> seg_ok (snd e))"

lemma btree_put_map: "btree_put k (f v) (map (\<lambda>e. (fst e, f (snd e))) L) = map (\<lambda>e. (fst e, f (snd e))) (btree_put k v L)"
  by (simp add: btree_put_def filter_map o_def)

lemma btree_remove_map: "btree_remove k (map (\<lambda>e. (fst e, f (snd e))) L) = map (\<lambda>e. (fst e, f (snd e))) (btree_remove k L)"
  by (simp add: btree_remove_def filter_map o_def)

lemma btree_map_of: "map_of (map (\<lambda>e. (fst e, f (snd e))) L) k = map_option f (map_of L k)"
  by (induction L) auto

lemma btree_put_ok: "btree_ok L \<Longrightarrow> btree_ok (btree_put k v L)"
  by (fastforce simp: btree_ok_def btree_put_def sorted_wrt_append sorted_wrt_map sorted_wrt_filter)

lemma btree_remove_ok: "btree_ok L \<Longrightarrow> btree_ok (btree_remove k L)"
  by (simp add: btree_ok_def btree_remove_def sorted_wrt_map sorted_wrt_filter)

lemma btree_put_set: "e \<in> set (btree_put k v L) \<Longrightarrow> e = (k, v) \<or> e \<in> set L"
  by (auto simp: btree_put_def)

lemma abs_put: "model_abs (put_segment m k s) = spec_put (model_abs m) k (seg_abs s)"
  by (simp add: model_abs_def put_segment_def spec_put_def btree_put_map)

lemma abs_segment: "map_of (ab_segments (model_abs m)) k = map_option seg_abs (map_of (mo_segments m) k)"
  by (simp add: model_abs_def btree_map_of)

lemma model_okD:
  assumes "model_ok m" "map_of (mo_segments m) k = Some s"
  shows "seg_ok s" "k \<noteq> 0" "k < mo_next m"
  using assms map_of_SomeD [OF assms(2)] by (auto simp: model_ok_def)

lemma put_segment_ok: "model_ok m \<Longrightarrow> seg_ok s \<Longrightarrow> k \<noteq> 0 \<Longrightarrow> k < mo_next m \<Longrightarrow> model_ok (put_segment m k s)"
  unfolding model_ok_def put_segment_def by (auto simp: btree_put_ok dest: btree_put_set)

lemma seg_okD:
  assumes "seg_ok s"
  shows "records_wf (sg_records s)" "e \<in> set (contents (sg_records s)) \<Longrightarrow> extent_end e \<le> unat (sg_bytes s)"
    "sg_durable_end s \<le> sg_bytes s" "sg_sealed s \<Longrightarrow> sg_durable_end s = sg_bytes s" "\<not> crossing (contents (sg_records s)) (sg_durable_end s)"
    "\<not> sg_sealed s \<Longrightarrow> records_plain (sg_records s)" "key_bytes (contents (sg_records s)) \<le> U32_MAX"
  using assms by (simp_all add: seg_ok_def)

lemma key_bytes_simps [simp]: "key_bytes [] = 0" "key_bytes (L @ L') = key_bytes L + key_bytes L'"
  "key_bytes (e # L) = length (codec_encode (sr_key (snd e))) + key_bytes L"
  by (simp_all add: key_bytes_def)

lemma key_bytes_filter: "key_bytes (filter P L) \<le> key_bytes L"
  by (induction L) auto

lemma key_bytes_put: "key_bytes (put_extent offset r L) \<le> key_bytes L + length (codec_encode (sr_key r))"
proof -
  have "key_bytes (filter (\<lambda>e. fst e < offset) L) + key_bytes (filter (\<lambda>e. offset < fst e) L) \<le> key_bytes L" by (induction L) auto
  then show ?thesis by (simp add: put_extent_def)
qed

lemma new_segment_ok: "seg_ok (new_segment slot)" "seg_abs (new_segment slot) = spec_new slot"
  by (simp_all add: seg_ok_def new_segment_def seg_abs_def spec_new_def crossing_def)

lemma records_insert_fails:
  assumes "\<not> (validate_key (sr_key r) = Inr () \<and> good_extent offset r)"
  shows "\<exists>e. records_insert kh R offset r = Some (Inl e)"
  using assms by (auto simp: records_insert_def good_extent_def not_less not_le split: sum.split)

text \<open>The refinement: a step of the model never panics, it is refused when the specification refuses it, and otherwise it keeps
  the invariant and does what the specification does.\<close>

definition refines :: "(io_error + small_model) option \<Rightarrow> store_spec option \<Rightarrow> bool" where
  "refines res spec \<longleftrightarrow>
     (case res of None \<Rightarrow> False | Some (Inl e) \<Rightarrow> spec = None | Some (Inr m) \<Rightarrow> model_ok m \<and> spec = Some (model_abs m))"

lemma next_id: "checked_add (segment :: u64) 1 = (if segment = - 1 then None else Some (segment + 1))"
proof -
  have "unat (- 1 :: u64) = 2 ^ 64 - 1" by (simp add: unsigned_minus_1_eq_mask mask_eq_exp_minus_1)
  moreover have "unat segment < 2 ^ 64" using unsigned_less [of segment] by simp
  ultimately have "unat segment + 1 < 2 ^ 64 \<longleftrightarrow> segment \<noteq> - 1" unfolding word_unat_eq_iff by linarith
  then show ?thesis by (simp add: checked_add_def)
qed

lemma insert_keeps_segment:
  assumes s: "seg_ok s" "\<not> sg_sealed s" "sg_durable_end s \<le> offset" and g: "good_extent offset r"
    and R: "records_wf R" "contents R = put_extent offset r (contents (sg_records s))" "records_plain R"
    and room: "key_bytes (contents (sg_records s)) + length (codec_encode (sr_key r)) \<le> U32_MAX"
  shows "seg_ok (s\<lparr>sg_bytes := max (sg_bytes s) (offset + sr_len r), sg_metadata := md, sg_records := R\<rparr>)"
proof -
  note n = good_extent_nat [OF g]
  have fin: "unat (offset + sr_len r) = unat offset + unat (sr_len r)" using n(4) by (simp add: unat_word_ariths)
  have "extent_end e \<le> unat (max (sg_bytes s) (offset + sr_len r))" if "e \<in> set (contents R)" for e
  proof -
    have "e = (offset, r) \<or> e \<in> set (contents (sg_records s))" using that unfolding R(2) put_extent_def by auto
    then have "extent_end e \<le> unat (offset + sr_len r) \<or> extent_end e \<le> unat (sg_bytes s)"
      using seg_okD(2) [OF s(1), of e] fin by (auto simp: extent_end_def)
    then show ?thesis by (auto simp: max_def word_le_nat_alt)
  qed
  moreover have "\<not> crossing (contents R) (sg_durable_end s)"
    using seg_okD(5) [OF s(1)] s(3) unfolding R(2) by (auto simp: crossing_def put_extent_def)
  moreover have "key_bytes (contents R) \<le> U32_MAX" using key_bytes_put [of offset r "contents (sg_records s)"] room R(2) by simp
  ultimately show ?thesis using R(1,3) seg_okD(3) [OF s(1)] s(2) by (simp add: seg_ok_def le_max_iff_disj)
qed

lemma apply_insert_refines:
  assumes m: "model_ok m" and utf8: "key_utf8 (sr_key r)"
  shows "refines (apply_insert kh m slot segment offset r) (spec_insert (model_abs m) slot segment offset r)"
proof (cases "segment = 0 \<or> segment = - 1")
  case True
  then show ?thesis by (auto simp: apply_insert_def spec_insert_def refines_def next_id)
next
  case id: False
  define s where "s = (case map_of (mo_segments m) segment of None \<Rightarrow> new_segment slot | Some s \<Rightarrow> s)"
  define m1 where "m1 = m\<lparr>mo_next := max (mo_next m) (segment + 1)\<rparr>"
  have t: "(case map_of (ab_segments (model_abs m)) segment of None \<Rightarrow> spec_new slot | Some s \<Rightarrow> s) = seg_abs s"
    by (simp add: abs_segment s_def new_segment_ok(2) split: option.split)
  have s: "seg_ok s" using model_okD(1) [OF m] new_segment_ok(1) by (simp add: s_def split: option.split)
  have seg: "mo_segments (m\<lparr>mo_next := v\<rparr>) = mo_segments m" for v by simp
  have run: "apply_insert kh m slot segment offset r =
      (if sg_slot s \<noteq> slot \<or> sg_sealed s \<or> offset < sg_durable_end s then Some (Inl (InvalidData ''insert into sealed/wrong stream''))
       else
         (case checked_add offset (sr_len r) of None \<Rightarrow> Some (Inl (InvalidData ''extent overflow''))
          | Some fin \<Rightarrow>
            if records_overlaps (sg_records s) offset (sr_len r) then Some (Inl (InvalidData ''overlapping journal extent''))
            else
              (case records_insert kh (sg_records s) offset r of None \<Rightarrow> None
               | Some (Inl e) \<Rightarrow> Some (Inl e)
               | Some (Inr (R, row)) \<Rightarrow>
                 Some (Inr (put_segment m1 segment
                   (s\<lparr>sg_bytes := max (sg_bytes s) fin, sg_metadata := sg_metadata s + (37 + of_nat (key_len (sr_key r))), sg_records := R\<rparr>))))))"
    unfolding apply_insert_def next_id Let_def seg s_def m1_def using id by simp
  have spec: "spec_insert (model_abs m) slot segment offset r = (if storable (seg_abs s) slot offset r
      then Some (spec_put (model_abs m1) segment
             (seg_abs s\<lparr>ss_bytes := max (sg_bytes s) (offset + sr_len r), ss_metadata := sg_metadata s + (37 + of_nat (key_len (sr_key r))),
                ss_extents := put_extent offset r (contents (sg_records s))\<rparr>)) else None)"
    using id unfolding spec_insert_def t Let_def by (simp add: model_abs_def m1_def seg_abs_def)
  show ?thesis
  proof (cases "sg_slot s \<noteq> slot \<or> sg_sealed s \<or> offset < sg_durable_end s \<or> checked_add offset (sr_len r) = None \<or>
      overlapping (contents (sg_records s)) offset (sr_len r) \<or> \<not> (validate_key (sr_key r) = Inr () \<and> good_extent offset r)")
    case bad: True
    have "\<not> storable (seg_abs s) slot offset r"
      using bad good_extent_nat(4) [of offset r] by (auto simp: storable_def seg_abs_def checked_add_def)
    moreover have "\<exists>e. apply_insert kh m slot segment offset r = Some (Inl e)"
    proof (cases "sg_slot s \<noteq> slot \<or> sg_sealed s \<or> offset < sg_durable_end s \<or> checked_add offset (sr_len r) = None")
      case False
      then have no: "unat offset + unat (sr_len r) < 2 ^ 64" by (auto simp: checked_add_def split: if_splits)
      show ?thesis using False bad run records_overlaps_iff [OF seg_okD(1) [OF s] no] records_insert_fails [of r offset kh "sg_records s"] by auto
    qed (auto simp: run)
    ultimately show ?thesis by (auto simp: refines_def spec)
  next
    case good: False
    then have g: "good_extent offset r" "validate_key (sr_key r) = Inr ()" and fin: "checked_add offset (sr_len r) = Some (offset + sr_len r)"
      by (auto simp: checked_add_def split: if_splits)
    have free: "\<not> overlapping (contents (sg_records s)) offset (sr_len r)" "\<not> records_overlaps (sg_records s) offset (sr_len r)"
      using good records_overlaps_iff [OF seg_okD(1) [OF s] good_extent_nat(4) [OF g(1)]] by auto
    have plain: "records_plain (sg_records s)" using seg_okD(6) [OF s] good by simp
    have open_seg: "\<not> sg_sealed s" "sg_durable_end s \<le> offset" "sg_slot s = slot" using good by auto
    note ins = records_insert_ok [OF seg_okD(1) [OF s] g(1) utf8 g(2) free(1), of kh, unfolded plain_key_bytes [OF seg_okD(1) [OF s] plain]]
    have st: "storable (seg_abs s) slot offset r \<longleftrightarrow> key_bytes (contents (sg_records s)) + length (codec_encode (sr_key r)) \<le> U32_MAX"
      using open_seg g free(1) by (simp add: storable_def seg_abs_def)
    show ?thesis
    proof (cases "key_bytes (contents (sg_records s)) + length (codec_encode (sr_key r)) \<le> U32_MAX")
      case room: True
      then obtain R row where R: "records_insert kh (sg_records s) offset r = Some (Inr (R, row))" "records_wf R"
          "contents R = put_extent offset r (contents (sg_records s))" "records_plain R"
        using ins plain by auto
      let ?s = "s\<lparr>sg_bytes := max (sg_bytes s) (offset + sr_len r), sg_metadata := sg_metadata s + (37 + of_nat (key_len (sr_key r))), sg_records := R\<rparr>"
      have ok: "seg_ok ?s" by (rule insert_keeps_segment [OF s open_seg(1,2) g(1) R(2-4) room])
      have "segment < segment + 1" using id next_id [of segment] checked_add_unat [of segment 1] by (simp add: word_less_nat_alt)
      then have "model_ok m1" "segment < mo_next m1" using m by (auto simp: model_ok_def m1_def less_max_iff_disj max_def)
      then have "model_ok (put_segment m1 segment ?s)" using ok id by (intro put_segment_ok) auto
      moreover have "seg_abs ?s = seg_abs s\<lparr>ss_bytes := max (sg_bytes s) (offset + sr_len r), ss_metadata := sg_metadata s + (37 + of_nat (key_len (sr_key r))),
                ss_extents := put_extent offset r (contents (sg_records s))\<rparr>" by (simp add: seg_abs_def R(3))
      ultimately show ?thesis using run spec st room R(1) fin free(2) open_seg by (simp add: refines_def abs_put)
    next
      case room: False
      then show ?thesis using run spec st ins fin free(2) open_seg by (simp add: refines_def)
    qed
  qed
qed

lemma apply_delete_refines:
  assumes m: "model_ok m"
  shows "refines (apply_delete m segment offset) (spec_apply (model_abs m) (EvDelete segment offset))"
proof (cases "map_of (mo_segments m) segment")
  case None
  then show ?thesis by (simp add: apply_delete_def spec_apply_def refines_def abs_segment)
next
  case (Some s)
  note s = model_okD [OF m Some]
  note rm = records_remove_ok [OF seg_okD(1) [OF s(1)], of offset]
  show ?thesis
  proof (cases "offset \<in> fst ` set (contents (sg_records s))")
    case True
    then obtain R where R: "records_remove (sg_records s) offset = Some (Some R)" "records_wf R"
        "contents R = filter (\<lambda>e. fst e \<noteq> offset) (contents (sg_records s))" "records_plain (sg_records s) \<longrightarrow> records_plain R"
      using rm by auto
    let ?s = "s\<lparr>sg_records := R, sg_metadata := sg_metadata s + 21\<rparr>"
    have "seg_ok ?s" using s(1) R(2-4) key_bytes_filter [of "\<lambda>e. fst e \<noteq> offset" "contents (sg_records s)"]
      by (auto simp: seg_ok_def crossing_def)
    then have "model_ok (put_segment m segment ?s)" using put_segment_ok [OF m] s(2,3) by blast
    moreover have "seg_abs ?s = seg_abs s\<lparr>ss_extents := filter (\<lambda>e. fst e \<noteq> offset) (ss_extents (seg_abs s)), ss_metadata := ss_metadata (seg_abs s) + 21\<rparr>"
      by (simp add: seg_abs_def R(3))
    moreover have "offset \<in> fst ` set (ss_extents (seg_abs s))" using True by (simp add: seg_abs_def)
    ultimately show ?thesis using Some R(1) by (simp add: apply_delete_def spec_apply_def refines_def abs_segment abs_put)
  next
    case False
    then have "offset \<notin> fst ` set (ss_extents (seg_abs s))" "records_remove (sg_records s) offset = Some None" using rm by (simp_all add: seg_abs_def)
    then show ?thesis using Some by (simp add: apply_delete_def spec_apply_def refines_def abs_segment)
  qed
qed

lemma not_crossing_bytes:
  assumes "seg_ok s"
  shows "\<not> crossing (contents (sg_records s)) (sg_bytes s)"
  using seg_okD(2) [OF assms] by (force simp: crossing_def)

lemma seal_segment_ok:
  assumes "seg_ok s"
  shows "\<exists>s'. seal_segment s = Some s' \<and> seg_ok s' \<and> seg_abs s' = spec_seal (seg_abs s)"
proof -
  obtain R where R: "records_seal (sg_records s) = Some R" "records_wf R" "contents R = contents (sg_records s)"
    using records_seal_ok [OF seg_okD(1) [OF assms]] by blast
  let ?s = "s\<lparr>sg_durable_end := sg_bytes s, sg_sealed := True, sg_records := R\<rparr>"
  have "seg_ok ?s" using assms R(2,3) not_crossing_bytes [OF assms] by (simp add: seg_ok_def)
  moreover have "seg_abs ?s = spec_seal (seg_abs s)" by (simp add: seg_abs_def spec_seal_def R(3))
  ultimately show ?thesis using R(1) by (simp add: seal_segment_def)
qed

lemma apply_seal_refines:
  assumes m: "model_ok m"
  shows "refines (apply_seal m segment) (spec_apply (model_abs m) (EvSeal segment))"
proof (cases "map_of (mo_segments m) segment")
  case (Some s)
  note s = model_okD [OF m Some]
  obtain s' where "seal_segment s = Some s'" "seg_ok s'" "seg_abs s' = spec_seal (seg_abs s)" using seal_segment_ok [OF s(1)] by blast
  then show ?thesis using Some s(2,3) put_segment_ok [OF m] by (simp add: apply_seal_def spec_apply_def refines_def abs_segment abs_put)
qed (simp add: apply_seal_def spec_apply_def refines_def abs_segment)

lemma apply_flush_refines:
  assumes m: "model_ok m"
  shows "refines (apply_flush m segment durable_end) (spec_apply (model_abs m) (EvFlush segment durable_end))"
proof (cases "map_of (mo_segments m) segment")
  case (Some s)
  note s = model_okD [OF m Some]
  have c: "records_crosses (sg_records s) durable_end \<longleftrightarrow> crossing (ss_extents (seg_abs s)) durable_end"
    using records_crosses_iff [OF seg_okD(1) [OF s(1)]] by (simp add: seg_abs_def)
  let ?bad = "sg_sealed s \<or> durable_end = 0 \<or> durable_end < sg_durable_end s \<or> durable_end > sg_bytes s \<or> records_crosses (sg_records s) durable_end"
  let ?good = "\<not> ss_sealed (seg_abs s) \<and> durable_end \<noteq> 0 \<and> ss_durable_end (seg_abs s) \<le> durable_end \<and> durable_end \<le> ss_bytes (seg_abs s) \<and>
      \<not> crossing (ss_extents (seg_abs s)) durable_end"
  let ?s = "s\<lparr>sg_durable_end := durable_end\<rparr>"
  have good: "?good \<longleftrightarrow> \<not> ?bad" unfolding c [symmetric] by (auto simp: seg_abs_def)
  have run: "apply_flush m segment durable_end = (if ?bad then Some (Inl (InvalidData ''invalid durable segment boundary'')) else Some (Inr (put_segment m segment ?s)))"
    using Some by (simp add: apply_flush_def)
  have spec: "spec_apply (model_abs m) (EvFlush segment durable_end) = (if ?bad then None else Some (spec_put (model_abs m) segment (seg_abs ?s)))"
    using Some unfolding spec_apply_def event.case abs_segment Some option.map option.case good by (simp add: seg_abs_def)
  have "seg_ok ?s" if "\<not> ?bad" using s(1) that records_crosses_iff [OF seg_okD(1) [OF s(1)], of durable_end] by (auto simp: seg_ok_def)
  then show ?thesis unfolding run spec using s(2,3) put_segment_ok [OF m] by (simp add: refines_def abs_put)
qed (simp add: apply_flush_def spec_apply_def refines_def abs_segment)

lemma contents_before:
  assumes "records_wf R"
  shows "takeWhile (\<lambda>e. fst e < fin) (contents R) = filter (\<lambda>e. fst e < fin) (contents R)"
proof (rule sorted_split(1))
  show "sorted_wrt (\<lambda>a b. fst a < fst b) (contents R)"
    using wf_live_offsets [OF assms] by (simp add: contents_def sorted_wrt_map rows_sorted_def entry_end)
qed auto

lemma apply_recover_refines:
  assumes m: "model_ok m"
  shows "refines (apply_recover m segment) (spec_apply (model_abs m) (EvRecover segment))"
proof (cases "map_of (mo_segments m) segment")
  case (Some s)
  note s = model_okD [OF m Some] and wf = seg_okD(1) [OF model_okD(1) [OF m Some]]
  show ?thesis
  proof (cases "sg_sealed s \<or> sg_durable_end s = 0")
    case True
    then show ?thesis using Some by (auto simp: apply_recover_def spec_apply_def refines_def abs_segment seg_abs_def)
  next
    case False
    let ?L = "filter (\<lambda>e. fst e < sg_durable_end s) (contents (sg_records s))"
    let ?md = "8 + sum_list (map (\<lambda>e. 37 + of_nat (key_len (sr_key (snd e)))) ?L) :: u64"
    have md: "recovered_metadata s = Some ?md"
      using False by (simp add: recovered_metadata_def records_before_def records_iter_contents [OF wf] contents_before [OF wf])
    obtain R1 where R1: "records_retain_before (sg_records s) (sg_durable_end s) = Some R1" "records_wf R1" "contents R1 = ?L"
      using records_retain_before_ok [OF wf] by blast
    obtain R where R: "records_seal R1 = Some R" "records_wf R" "contents R = ?L" using records_seal_ok [OF R1(2)] R1(3) by auto
    let ?s = "s\<lparr>sg_metadata := ?md, sg_bytes := sg_durable_end s, sg_sealed := True, sg_records := R\<rparr>"
    have ends: "extent_end e \<le> unat (sg_durable_end s)" if "e \<in> set ?L" for e
      using that seg_okD(5) [OF s(1)] by (auto simp: crossing_def not_less)
    have "\<not> crossing ?L (sg_durable_end s)" using ends by (force simp: crossing_def)
    then have "seg_ok ?s" using s(1) R(2,3) ends key_bytes_filter [of "\<lambda>e. fst e < sg_durable_end s" "contents (sg_records s)"]
      by (auto simp: seg_ok_def)
    then have "model_ok (put_segment m segment ?s)" using put_segment_ok [OF m] s(2,3) by blast
    moreover have "seg_abs ?s = spec_recovered (seg_abs s)" by (simp add: seg_abs_def spec_recovered_def R(3) Let_def)
    moreover have "\<not> ss_sealed (seg_abs s) \<and> ss_durable_end (seg_abs s) \<noteq> 0" using False by (simp add: seg_abs_def)
    ultimately show ?thesis using Some False md R1(1) R(1) by (simp add: apply_recover_def spec_apply_def refines_def abs_segment abs_put)
  qed
qed (simp add: apply_recover_def spec_apply_def refines_def abs_segment)

lemma remove_segment_ok:
  assumes "model_ok m"
  shows "model_ok (m\<lparr>mo_segments := btree_remove k (mo_segments m)\<rparr>)"
    "model_abs (m\<lparr>mo_segments := btree_remove k (mo_segments m)\<rparr>) = model_abs m\<lparr>ab_segments := btree_remove k (ab_segments (model_abs m))\<rparr>"
  using assms by (simp_all add: model_ok_def btree_remove_ok model_abs_def btree_remove_map) (simp add: btree_remove_def)

lemma apply_replace_refines:
  assumes m: "model_ok m"
  shows "refines (apply_replace m old new) (spec_apply (model_abs m) (EvReplace old new))"
proof (cases new)
  case None
  then show ?thesis using remove_segment_ok [OF m, of old] by (simp add: apply_replace_def spec_apply_def refines_def)
next
  case new: (Some n)
  show ?thesis
  proof (cases "map_of (mo_segments m) n")
    case None
    then show ?thesis using new by (simp add: apply_replace_def spec_apply_def refines_def abs_segment)
  next
    case (Some s)
    note s = model_okD [OF m Some]
    obtain s' where s': "seal_segment s = Some s'" "seg_ok s'" "seg_abs s' = spec_seal (seg_abs s)" using seal_segment_ok [OF s(1)] by blast
    have "model_ok (put_segment m n s')" using put_segment_ok [OF m s'(2) s(2,3)] .
    note rm = remove_segment_ok [OF this, of old]
    show ?thesis
    proof (cases "old = n")
      case True
      then show ?thesis using new Some by (simp add: apply_replace_def spec_apply_def refines_def abs_segment)
    next
      case False
      have "model_abs (put_segment m n s')\<lparr>ab_segments := btree_remove old (ab_segments (model_abs (put_segment m n s')))\<rparr> =
          model_abs m\<lparr>ab_segments := btree_remove old (btree_put n (spec_seal (seg_abs s)) (ab_segments (model_abs m)))\<rparr>"
        unfolding abs_put s'(3) by (simp add: spec_put_def)
      then show ?thesis using new Some s'(1) rm False by (simp add: apply_replace_def spec_apply_def refines_def abs_segment)
    qed
  qed
qed

definition event_valid :: "event \<Rightarrow> bool" where
  "event_valid ev \<longleftrightarrow> (case ev of EvInsert slot segment offset r \<Rightarrow> key_utf8 (sr_key r) | _ \<Rightarrow> True)"

lemma model_apply_refines:
  assumes "model_ok m" "event_valid ev"
  shows "refines (model_apply kh m ev) (spec_apply (model_abs m) ev)"
proof (cases ev)
  case (EvInsert slot segment offset r)
  then show ?thesis using apply_insert_refines [OF assms(1), of r] assms(2) by (simp add: model_apply_def spec_apply_def event_valid_def)
next
  case (EvSetNext nx)
  have "model_ok (m\<lparr>mo_next := max (mo_next m) nx\<rparr>)" using assms(1) by (auto simp: model_ok_def max_def)
  then show ?thesis using EvSetNext by (simp add: model_apply_def spec_apply_def refines_def model_abs_def)
qed (simp_all add: model_apply_def apply_delete_refines [OF assms(1)] apply_seal_refines [OF assms(1)] apply_flush_refines [OF assms(1)]
    apply_recover_refines [OF assms(1)] apply_replace_refines [OF assms(1)])

text \<open>C5. The store's model refines its specification on every event: it never panics, it refuses an event exactly when the
  specification refuses it, and otherwise it keeps its invariant and its segments, extents, sizes and allocator change as
  the specification says.\<close>

theorem small_model_refines:
  assumes "model_ok m" "event_valid ev"
  shows "case model_apply kh m ev of None \<Rightarrow> False
    | Some (Inl e) \<Rightarrow> spec_apply (model_abs m) ev = None
    | Some (Inr m') \<Rightarrow> model_ok m' \<and> spec_apply (model_abs m) ev = Some (model_abs m')"
  using model_apply_refines [OF assms, of kh] unfolding refines_def .

theorem small_model_refines_witness:
  "\<exists>m'. model_apply (\<lambda>_. 0) \<lparr>mo_segments = [], mo_next = 1\<rparr> (EvInsert 3 4 10 sample_record) = Some (Inr m') \<and> model_ok m' \<and>
    ab_next (model_abs m') = 5 \<and> map_of (ab_segments (model_abs m')) 4 =
      Some \<lparr>ss_slot = 3, ss_bytes = 15, ss_durable_end = 0, ss_metadata = 73, ss_sealed = False, ss_extents = [(10, sample_record)]\<rparr>"
proof -
  let ?m = "\<lparr>mo_segments = [], mo_next = 1\<rparr> :: small_model" and ?ev = "EvInsert 3 4 10 sample_record"
  have m: "model_ok ?m" "event_valid ?ev" using sample_record_ok(1) by (simp_all add: model_ok_def btree_ok_def event_valid_def)
  have "storable (spec_new 3) 3 10 sample_record"
    using sample_record_ok by (simp add: storable_def spec_new_def overlapping_def U32_MAX_def)
  moreover have "sr_len sample_record = 5" "key_len (sr_key sample_record) = 28" by (simp_all add: sample_record_def key_len_def)
  ultimately have "spec_apply (model_abs ?m) ?ev = Some \<lparr>ab_segments = [(4, \<lparr>ss_slot = 3, ss_bytes = 15, ss_durable_end = 0, ss_metadata = 73,
      ss_sealed = False, ss_extents = [(10, sample_record)]\<rparr>)], ab_next = 5\<rparr>"
    by (simp add: spec_apply_def spec_insert_def model_abs_def spec_put_def btree_put_def spec_new_def put_extent_def)
  then show ?thesis using small_model_refines [OF m, of "\<lambda>_. 0"] by (auto split: option.splits sum.splits)
qed

end
