(* ===== verification/Small_Machine.thy ===== *)
theory Small_Machine
  imports Small_Model Journal_Live
begin

text \<open>
  The small-object store as a machine of the journal (\<open>impl talon_journal::Machine for Model\<close> in
  \<open>crates/talon-worker/src/small_store/journal/model.rs\<close>): encoded events, the snapshot iterator and its restoration, and
  the proof that the machine obeys the laws of the journal's locale, so that what the journal guarantees across crashes
  holds of the store. A snapshot iterator is the list of its items. The live catalog (\<open>catalog.rs\<close>) passes every event to
  this model and adds an index over it.
\<close>

subsection \<open>The machine\<close>

definition event_encoded_len :: "event \<Rightarrow> io_error + nat" where
  "event_encoded_len ev =
     Inr (case ev of EvInsert slot segment offset r \<Rightarrow> 41 + key_len (sr_key r)
          | EvDelete _ _ \<Rightarrow> 17 | EvReplace _ _ \<Rightarrow> 17 | EvFlush _ _ \<Rightarrow> 17
          | EvSeal _ \<Rightarrow> 9 | EvSetNext _ \<Rightarrow> 9 | EvRecover _ \<Rightarrow> 9)"

definition segment_header :: "u64 \<Rightarrow> segment_meta \<Rightarrow> byte list" where
  "segment_header k s =
     8 # u64_le k @ u64_le (sg_slot s) @ u64_le (sg_bytes s) @ u64_le (sg_metadata s) @ [if sg_sealed s then 1 else 0] @ u64_le (sg_durable_end s)"

definition PANICKED :: io_error where "PANICKED = IoOther ''panicked''"

definition segment_items :: "u64 \<times> segment_meta \<Rightarrow> (io_error + byte list) list" where
  "segment_items e =
     Inr (segment_header (fst e) (snd e)) #
     (case records_iter (sg_records (snd e)) of None \<Rightarrow> [Inl PANICKED]
      | Some L \<Rightarrow> map (\<lambda>x. event_encode (EvInsert (sg_slot (snd e)) (fst e) (fst x) (snd x))) L)"

definition model_snapshot :: "small_model \<Rightarrow> io_error + (io_error + byte list) list" where
  "model_snapshot m = Inr (Inr (5 # u64_le (mo_next m)) # concat (map segment_items (mo_segments m)))"

datatype snapshot_record = SnNext u64 | SnSegment u64 segment_meta | SnInsert event

definition decode_seal :: "byte \<Rightarrow> io_error + bool" where
  "decode_seal b = (if b = 0 then Inr False else if b = 1 then Inr True else Inl (InvalidData ''snapshot seal''))"

definition decode_header :: "byte \<Rightarrow> byte list \<Rightarrow> io_error + snapshot_record" where
  "decode_header kind b =
     (case fmt_u64 b of Inl e \<Rightarrow> Inl e | Inr (k, b) \<Rightarrow>
     (case fmt_u64 b of Inl e \<Rightarrow> Inl e | Inr (slot, b) \<Rightarrow>
     (case fmt_u64 b of Inl e \<Rightarrow> Inl e | Inr (bytes, b) \<Rightarrow>
     (case fmt_u64 b of Inl e \<Rightarrow> Inl e | Inr (metadata, b) \<Rightarrow>
     (case take_byte b of Inl e \<Rightarrow> Inl e | Inr (flag, b) \<Rightarrow>
     (case decode_seal flag of Inl e \<Rightarrow> Inl e | Inr sealed \<Rightarrow>
     (case (if kind = 8 then fmt_u64 b else Inr (if sealed then bytes else 0, b)) of Inl e \<Rightarrow> Inl e
      | Inr (durable_end, b) \<Rightarrow>
        if b \<noteq> [] \<or> durable_end > bytes \<or> (sealed \<and> durable_end \<noteq> bytes) then Inl (InvalidData ''invalid snapshot segment header'')
        else Inr (SnSegment k \<lparr>sg_slot = slot, sg_bytes = bytes, sg_durable_end = durable_end, sg_metadata = metadata,
                    sg_sealed = sealed, sg_records = records_default\<rparr>))))))))"

definition decode_snapshot :: "byte list \<Rightarrow> io_error + snapshot_record" where
  "decode_snapshot bytes =
     (case take_byte bytes of Inl e \<Rightarrow> Inl e
      | Inr (kind, b) \<Rightarrow>
        if kind = 5 then
          (case fmt_u64 b of Inl e \<Rightarrow> Inl e
           | Inr (nx, b) \<Rightarrow> if b \<noteq> [] \<or> nx = 0 then Inl (InvalidData ''snapshot allocator'') else Inr (SnNext nx))
        else if kind = 4 \<or> kind = 8 then decode_header kind b
        else if kind = 0 then (case event_decode bytes of Inl e \<Rightarrow> Inl e | Inr ev \<Rightarrow> Inr (SnInsert ev))
        else Inl (InvalidData ''snapshot operation''))"

text \<open>Restoring a segment seals the records of the one before it.\<close>

definition seal_previous :: "small_model \<Rightarrow> small_model option" where
  "seal_previous m =
     (if mo_segments m = [] then Some m
      else
        let (k, s) = last (mo_segments m) in
        if sg_sealed s then map_option (\<lambda>R. put_segment m k (s\<lparr>sg_records := R\<rparr>)) (records_seal (sg_records s)) else Some m)"

definition restore_insert :: "(small_key \<Rightarrow> u64) \<Rightarrow> small_model \<Rightarrow> u64 \<Rightarrow> u64 \<Rightarrow> u64 \<Rightarrow> small_record \<Rightarrow> (io_error + small_model) option" where
  "restore_insert kh m slot segment offset r =
     (case map_of (mo_segments m) segment of None \<Rightarrow> Some (Inl (InvalidData ''snapshot missing segment''))
      | Some s \<Rightarrow>
        if sg_slot s \<noteq> slot \<or> (case checked_add offset (sr_len r) of None \<Rightarrow> True | Some fin \<Rightarrow> fin > sg_bytes s) \<or>
          (offset < sg_durable_end s \<and> offset + sr_len r > sg_durable_end s) \<or> records_overlaps (sg_records s) offset (sr_len r)
        then Some (Inl (InvalidData ''snapshot extent''))
        else
          (case records_insert kh (sg_records s) offset r of None \<Rightarrow> None
           | Some (Inl e) \<Rightarrow> Some (Inl e)
           | Some (Inr (R, row)) \<Rightarrow> Some (Inr (put_segment m segment (s\<lparr>sg_records := R\<rparr>)))))"

definition model_restore :: "(small_key \<Rightarrow> u64) \<Rightarrow> small_model \<Rightarrow> snapshot_record \<Rightarrow> (io_error + small_model) option" where
  "model_restore kh m sr =
     (case sr of
        SnNext nx \<Rightarrow> if mo_segments m \<noteq> [] then Some (Inl (InvalidData ''snapshot allocator order'')) else Some (Inr (m\<lparr>mo_next := nx\<rparr>))
      | SnSegment k s \<Rightarrow>
          (case seal_previous m of None \<Rightarrow> None
           | Some m \<Rightarrow>
             if k = 0 \<or> k \<ge> mo_next m \<or> map_of (mo_segments m) k \<noteq> None then Some (Inl (InvalidData ''snapshot segment''))
             else Some (Inr (put_segment m k s)))
      | SnInsert ev \<Rightarrow>
          (case ev of EvInsert slot segment offset r \<Rightarrow> restore_insert kh m slot segment offset r
           | _ \<Rightarrow> Some (Inl (InvalidData ''snapshot insert''))))"

definition unpanic :: "(io_error + 'a) option \<Rightarrow> io_error + 'a" where
  "unpanic x = (case x of None \<Rightarrow> Inl PANICKED | Some r \<Rightarrow> r)"

definition small_machine :: "(small_key \<Rightarrow> u64) \<Rightarrow> (small_model, event, snapshot_record) machine" where
  "small_machine kh =
     \<lparr>mc_encoded_len = event_encoded_len, mc_encode = event_encode, mc_decode = event_decode,
      mc_apply = (\<lambda>m lsn ev. unpanic (model_apply kh m ev)), mc_snapshot = model_snapshot, mc_decode_snapshot = decode_snapshot,
      mc_restore = (\<lambda>m sr. unpanic (model_restore kh m sr)), mc_valid = event_valid\<rparr>"

definition small_init :: small_model where
  "small_init = \<lparr>mo_segments = [], mo_next = 1\<rparr>"

definition model_sim :: "small_model \<Rightarrow> small_model \<Rightarrow> bool" where
  "model_sim a b \<longleftrightarrow> model_abs a = model_abs b"

subsection \<open>Events\<close>

lemma fmt_u64_le [simp]: "fmt_u64 (u64_le n @ r) = Inr (n, r)" "fmt_u64 (u64_le n) = Inr (n, [])"
  using fmt_u64_iff [of "u64_le n"] by (simp_all add: fmt_u64_iff)

lemma decode_encode_event:
  assumes b: "event_encode ev = Inr b" and v: "event_valid ev" and a: "spec_apply a ev \<noteq> None"
    and zero: "map_of (ab_segments a) 0 = None"
  shows "event_decode b = Inr ev"
proof (cases ev)
  case (EvInsert slot segment offset r)
  obtain kb where kb: "encode_key (sr_key r) = Inr kb"
      "b = 0 # u64_le slot @ u64_le segment @ u64_le offset @ u64_le (sr_len r) @ u64_le (sr_checksum r) @ kb"
    using b EvInsert by (auto simp: event_encode_def split: sum.splits)
  have "small_view kb = Inr (sr_key r)" using kb(1) v EvInsert by (simp add: small_view_iff event_valid_def)
  moreover have "sr_len r \<le> MAX_EXTENT" "valid_extent (sr_key r) (sr_len r)"
    using a EvInsert by (auto simp: spec_apply_def spec_insert_def Let_def storable_def good_extent_def split: if_splits)
  ultimately show ?thesis using EvInsert by (simp add: kb(2) event_decode_def take_byte_def decode_insert_def)
next
  case (EvReplace old new)
  have "new \<noteq> Some 0" using a zero EvReplace by (auto simp: spec_apply_def)
  then show ?thesis using b EvReplace
    by (cases new) (auto simp: event_encode_def event_decode_def take_byte_def decode_two_def no_trailing_def)
qed (use b in \<open>auto simp: event_encode_def event_decode_def take_byte_def decode_one_def decode_two_def no_trailing_def\<close>)

lemma decode_valid_event: "event_decode b = Inr ev \<Longrightarrow> event_valid ev"
  by (auto simp: event_decode_def take_byte_def decode_one_def decode_two_def decode_insert_def no_trailing_def event_valid_def small_view_iff
      split: sum.splits list.splits if_splits)

subsection \<open>Snapshots\<close>

lemma contents_entry:
  assumes wf: "records_wf R" and e: "e \<in> set (contents R)"
  shows "key_utf8 (sr_key (snd e))" "validate_key (sr_key (snd e)) = Inr ()" "good_extent (fst e) (snd e)"
proof -
  obtain p where p: "p \<in> set (live_pairs R)" "e = entry p" using e by (auto simp: contents_def)
  note ok = wf_fields(6) [OF wf p(1)]
  show "key_utf8 (sr_key (snd e))" "validate_key (sr_key (snd e)) = Inr ()" unfolding p(2) by (rule live_decode [OF ok])+
  have n: "unat (row_off (fst p)) + unat (row_len (fst p)) \<le> unat MAX_SEGMENT" "row_len (fst p) \<le> MAX_EXTENT" "row_len (fst p) \<noteq> 0"
    using ok p(1) by (simp_all add: row_ok_def live_pairs_def)
  have "unat (row_off (fst p) + row_len (fst p)) = unat (row_off (fst p)) + unat (row_len (fst p))" by (rule unat_add_small [OF n(1)])
  moreover have "0 < unat (row_len (fst p))" using n(3) unat_gt_0 by blast
  ultimately have "row_off (fst p) + row_len (fst p) \<le> MAX_SEGMENT" "row_off (fst p) < MAX_SEGMENT"
    using n(1) unfolding word_le_nat_alt word_less_nat_alt by linarith+
  then show "good_extent (fst e) (snd e)" using live_decode(5) [OF ok] n(2,3) unfolding p(2) good_extent_def by (simp add: entry_end)
qed

lemma contents_apart:
  assumes "records_wf R"
  shows "sorted_wrt (\<lambda>a b. extent_end a \<le> unat (fst b)) (contents R)"
  using wf_fields(5) [OF assms] by (simp add: contents_def sorted_wrt_map apart_def entry_end pair_end_def)

lemma restore_all_append:
  "restore_all M (xs @ ys) m = (case restore_all M xs m of Inl e \<Rightarrow> Inl e | Inr m' \<Rightarrow> restore_all M ys m')"
  by (induction xs arbitrary: m) (auto split: sum.split)

lemma mc_simps [simp]:
  "mc_restore (small_machine kh) m sr = unpanic (model_restore kh m sr)" "mc_apply (small_machine kh) m l ev = unpanic (model_apply kh m ev)"
  "mc_decode (small_machine kh) = event_decode" "mc_encode (small_machine kh) = event_encode" "mc_snapshot (small_machine kh) = model_snapshot"
  "mc_decode_snapshot (small_machine kh) = decode_snapshot" "mc_valid (small_machine kh) = event_valid"
  by (simp_all add: small_machine_def)

lemma btree_last:
  assumes "btree_ok (P @ [(k, s)])"
  shows "map_of (P @ [(k, s)]) k = Some s" "btree_put k t (P @ [(k, s)]) = P @ [(k, t)]"
proof -
  have less: "fst e < k" if "e \<in> set P" for e using that assms by (auto simp: btree_ok_def sorted_wrt_append)
  then have "k \<notin> fst ` set P" by force
  then have "map_of P k = None" by (simp add: map_of_eq_None_iff)
  then show "map_of (P @ [(k, s)]) k = Some s" by (simp add: map_add_def)
  have "filter (\<lambda>e. fst e < k) P = P" "filter (\<lambda>e. k < fst e) P = []"
    using less by (auto simp: filter_id_conv filter_empty_conv dest: less_asym)
  then show "btree_put k t (P @ [(k, s)]) = P @ [(k, t)]" by (simp add: btree_put_def)
qed

text \<open>One extent of a segment being restored.\<close>

lemma restore_insert_ok:
  assumes m: "model_ok m" "mo_segments m = P @ [(k, t)]" and t: "records_plain (sg_records t)"
    and s: "seg_ok s" "contents (sg_records s) = L @ e # L'" "seg_abs t = seg_abs s\<lparr>ss_extents := L\<rparr>"
  shows "\<exists>m' t'. unpanic (model_restore kh m (SnInsert (EvInsert (sg_slot s) k (fst e) (snd e)))) = Inr m' \<and> model_ok m' \<and> mo_next m' = mo_next m \<and>
    mo_segments m' = P @ [(k, t')] \<and> records_plain (sg_records t') \<and> seg_abs t' = seg_abs s\<lparr>ss_extents := L @ [e]\<rparr>"
proof -
  note c = contents_entry [OF seg_okD(1) [OF s(1)], of e]
  have e: "e \<in> set (contents (sg_records s))" using s(2) by simp
  have f: "sg_slot t = sg_slot s" "sg_bytes t = sg_bytes s" "sg_durable_end t = sg_durable_end s" "contents (sg_records t) = L"
      "sg_sealed t = sg_sealed s" "sg_metadata t = sg_metadata s"
    using s(3) by (simp_all add: seg_abs_def)
  have bt: "btree_ok (P @ [(k, t)])" using m by (simp add: model_ok_def)
  have look: "map_of (mo_segments m) k = Some t" using btree_last(1) [OF bt] m(2) by simp
  note tok = model_okD [OF m(1) look]
  note n = good_extent_nat [OF c(3) [OF e]]
  have sum: "unat (fst e + sr_len (snd e)) = extent_end e" using n(4) by (simp add: unat_word_ariths extent_end_def)
  have fin: "checked_add (fst e) (sr_len (snd e)) = Some (fst e + sr_len (snd e))" using n(4) by (simp add: checked_add_def)
  have apart: "extent_end x \<le> unat (fst e)" if "x \<in> set L" for x
    using contents_apart [OF seg_okD(1) [OF s(1)]] that unfolding s(2) by (simp add: sorted_wrt_append)
  have free: "\<not> overlapping (contents (sg_records t)) (fst e) (sr_len (snd e))" unfolding f(4) using apart by (fastforce simp: overlapping_def)
  have "\<not> records_overlaps (sg_records t) (fst e) (sr_len (snd e))" using records_overlaps_iff [OF seg_okD(1) [OF tok(1)] n(4)] free by simp
  moreover have "\<not> fst e + sr_len (snd e) > sg_bytes t" using seg_okD(2) [OF s(1) e] sum f(2) by (simp add: word_less_nat_alt)
  moreover have "\<not> (fst e < sg_durable_end t \<and> fst e + sr_len (snd e) > sg_durable_end t)"
    using seg_okD(5) [OF s(1)] e sum f(3) by (auto simp: crossing_def word_less_nat_alt)
  ultimately have run: "model_restore kh m (SnInsert (EvInsert (sg_slot s) k (fst e) (snd e))) =
      (case records_insert kh (sg_records t) (fst e) (snd e) of None \<Rightarrow> None
           | Some (Inl e) \<Rightarrow> Some (Inl e)
           | Some (Inr (R, row)) \<Rightarrow> Some (Inr (put_segment m k (t\<lparr>sg_records := R\<rparr>))))"
    using look f(1) fin by (auto simp: model_restore_def restore_insert_def)
  have room: "key_bytes L + length (codec_encode (sr_key (snd e))) \<le> U32_MAX" using seg_okD(7) [OF s(1)] unfolding s(2) by simp
  then obtain R row where R: "records_insert kh (sg_records t) (fst e) (snd e) = Some (Inr (R, row))" "records_wf R"
      "contents R = put_extent (fst e) (snd e) L" "records_plain R"
    using records_insert_ok [OF seg_okD(1) [OF tok(1)] c(3,1,2) [OF e] free, of kh, unfolded plain_key_bytes [OF seg_okD(1) [OF tok(1)] t] f(4)] t
    by auto
  have pos: "unat (fst x) < extent_end x" if "x \<in> set L" for x
    using good_extent_nat(3) [OF contents_entry(3) [OF seg_okD(1) [OF s(1)]]] that s(2) by (simp add: extent_end_def)
  have "\<forall>x \<in> set L. fst x < fst e" using apart pos unfolding word_less_nat_alt by fastforce
  then have "filter (\<lambda>x. fst x < fst e) L = L" "filter (\<lambda>x. fst e < fst x) L = []" by (auto simp: filter_id_conv filter_empty_conv dest: less_asym)
  then have cont: "contents R = L @ [e]" using R(3) by (simp add: put_extent_def)
  let ?t = "t\<lparr>sg_records := R\<rparr>"
  have "seg_ok ?t"
    using R(2,4) cont s(1,2) f room seg_okD(2-5) [OF s(1)] by (auto simp: seg_ok_def crossing_def)
  then have "model_ok (put_segment m k ?t)" using put_segment_ok [OF m(1)] tok(2,3) by blast
  moreover have "mo_segments (put_segment m k ?t) = P @ [(k, ?t)]" using btree_last(2) [OF bt] m(2) by (simp add: put_segment_def)
  moreover have "mo_next (put_segment m k ?t) = mo_next m" by (simp add: put_segment_def)
  moreover have "seg_abs ?t = seg_abs s\<lparr>ss_extents := L @ [e]\<rparr>" using f cont by (simp add: seg_abs_def)
  ultimately show ?thesis using run R(1,4) by (auto simp: unpanic_def)
qed

lemma restore_extents_ok:
  "\<lbrakk>model_ok m; mo_segments m = P @ [(k, t)]; records_plain (sg_records t); seg_ok s; contents (sg_records s) = L @ L';
    seg_abs t = seg_abs s\<lparr>ss_extents := L\<rparr>\<rbrakk> \<Longrightarrow>
   \<exists>m' t'. restore_all (small_machine kh) (map (\<lambda>e. SnInsert (EvInsert (sg_slot s) k (fst e) (snd e))) L') m = Inr m' \<and> model_ok m' \<and>
     mo_next m' = mo_next m \<and> mo_segments m' = P @ [(k, t')] \<and> seg_abs t' = seg_abs s"
proof (induction L' arbitrary: m t L)
  case Nil
  then show ?case by (auto simp: seg_abs_def)
next
  case (Cons e L')
  obtain m1 t1 where m1: "unpanic (model_restore kh m (SnInsert (EvInsert (sg_slot s) k (fst e) (snd e)))) = Inr m1" "model_ok m1" "mo_next m1 = mo_next m"
      "mo_segments m1 = P @ [(k, t1)]" "records_plain (sg_records t1)" "seg_abs t1 = seg_abs s\<lparr>ss_extents := L @ [e]\<rparr>"
    using restore_insert_ok [OF Cons.prems(1-6), of kh] by blast
  have "contents (sg_records s) = (L @ [e]) @ L'" using Cons.prems(5) by simp
  from Cons.IH [OF m1(2,4,5) Cons.prems(4) this m1(6)] show ?case using m1(1,3) by auto
qed

lemma seal_previous_ok:
  assumes m: "model_ok m"
  shows "\<exists>m'. seal_previous m = Some m' \<and> model_ok m' \<and> model_abs m' = model_abs m"
proof (cases "mo_segments m = []")
  case True
  then show ?thesis using m by (simp add: seal_previous_def)
next
  case False
  obtain P k s where segs: "mo_segments m = P @ [(k, s)]" using False by (metis append_butlast_last_id surj_pair)
  have bt: "btree_ok (P @ [(k, s)])" using m segs by (simp add: model_ok_def)
  have look: "map_of (mo_segments m) k = Some s" using btree_last(1) [OF bt] segs by simp
  note s = model_okD [OF m look]
  obtain R where R: "records_seal (sg_records s) = Some R" "records_wf R" "contents R = contents (sg_records s)"
    using records_seal_ok [OF seg_okD(1) [OF s(1)]] by blast
  show ?thesis
  proof (cases "sg_sealed s")
    case True
    let ?s = "s\<lparr>sg_records := R\<rparr>"
    have "seg_ok ?s" using s(1) R True not_crossing_bytes [OF s(1)] by (simp add: seg_ok_def)
    then have "model_ok (put_segment m k ?s)" using put_segment_ok [OF m] s(2,3) by blast
    moreover have "model_abs (put_segment m k ?s) = model_abs m"
      using segs btree_last(2) [OF bt, of ?s] R(3) by (simp add: model_abs_def put_segment_def seg_abs_def)
    ultimately show ?thesis using segs R(1) True by (simp add: seal_previous_def)
  next
    case False
    then show ?thesis using segs m by (simp add: seal_previous_def)
  qed
qed

definition blank_segment :: "segment_meta \<Rightarrow> segment_meta" where
  "blank_segment s = s\<lparr>sg_records := records_default\<rparr>"

definition segment_restores :: "u64 \<times> segment_meta \<Rightarrow> snapshot_record list" where
  "segment_restores e =
     SnSegment (fst e) (blank_segment (snd e)) #
     map (\<lambda>x. SnInsert (EvInsert (sg_slot (snd e)) (fst e) (fst x) (snd x))) (contents (sg_records (snd e)))"

lemma restore_segment_ok:
  assumes m: "model_ok m" and s: "seg_ok s" "k \<noteq> 0" "k < mo_next m" and above: "\<forall>e \<in> set (mo_segments m). fst e < k"
  shows "\<exists>m'. restore_all (small_machine kh) (segment_restores (k, s)) m = Inr m' \<and> model_ok m' \<and>
    model_abs m' = model_abs m\<lparr>ab_segments := ab_segments (model_abs m) @ [(k, seg_abs s)]\<rparr>"
proof -
  obtain m1 where m1: "seal_previous m = Some m1" "model_ok m1" "model_abs m1 = model_abs m" using seal_previous_ok [OF m] by blast
  have nx: "mo_next m1 = mo_next m" and ids: "map fst (mo_segments m1) = map fst (mo_segments m)"
  proof -
    show "mo_next m1 = mo_next m" using arg_cong [OF m1(3), of ab_next] by (simp add: model_abs_def)
    have "map fst (ab_segments (model_abs m1)) = map fst (ab_segments (model_abs m))" using m1(3) by simp
    then show "map fst (mo_segments m1) = map fst (mo_segments m)" by (simp add: model_abs_def o_def)
  qed
  have below: "\<forall>e \<in> set (mo_segments m1). fst e < k" using above ids by (metis (no_types) imageE imageI set_map)
  then have none: "map_of (mo_segments m1) k = None" by (auto simp: map_of_eq_None_iff)
  let ?b = "blank_segment s"
  have "filter (\<lambda>e. fst e < k) (mo_segments m1) = mo_segments m1" "filter (\<lambda>e. k < fst e) (mo_segments m1) = []"
    using below by (auto simp: filter_id_conv filter_empty_conv dest: less_asym)
  then have put: "btree_put k ?b (mo_segments m1) = mo_segments m1 @ [(k, ?b)]" by (simp add: btree_put_def)
  define m2 where "m2 = put_segment m1 k ?b"
  have "seg_ok ?b" using s(1) by (simp add: seg_ok_def blank_segment_def crossing_def)
  then have "model_ok m2" unfolding m2_def using put_segment_ok [OF m1(2)] s(2,3) nx by simp
  then have m2: "model_ok m2" "mo_segments m2 = mo_segments m1 @ [(k, ?b)]" "mo_next m2 = mo_next m"
    using nx put by (simp_all add: m2_def put_segment_def)
  have first: "unpanic (model_restore kh m (SnSegment k ?b)) = Inr m2"
    using m1(1) s(2,3) nx none by (simp add: model_restore_def unpanic_def m2_def)
  have "seg_abs ?b = seg_abs s\<lparr>ss_extents := []\<rparr>" "records_plain (sg_records ?b)" by (simp_all add: seg_abs_def blank_segment_def)
  then obtain m' t' where m': "restore_all (small_machine kh) (map (\<lambda>e. SnInsert (EvInsert (sg_slot s) k (fst e) (snd e))) (contents (sg_records s))) m2 = Inr m'"
      "model_ok m'" "mo_next m' = mo_next m2" "mo_segments m' = mo_segments m1 @ [(k, t')]" "seg_abs t' = seg_abs s"
    using restore_extents_ok [OF m2(1,2) _ s(1), of "[]" "contents (sg_records s)" kh] by auto
  have "model_abs m' = model_abs m1\<lparr>ab_segments := ab_segments (model_abs m1) @ [(k, seg_abs s)]\<rparr>"
    using m'(3-5) m2(3) nx by (simp add: model_abs_def)
  then show ?thesis using first m'(1,2) m1(3) by (simp add: segment_restores_def)
qed

lemma restore_segments_ok:
  "\<lbrakk>model_ok m; btree_ok Q; \<forall>e \<in> set Q. seg_ok (snd e) \<and> fst e \<noteq> 0 \<and> fst e < mo_next m \<and> (\<forall>x \<in> set (mo_segments m). fst x < fst e)\<rbrakk> \<Longrightarrow>
   \<exists>m'. restore_all (small_machine kh) (concat (map segment_restores Q)) m = Inr m' \<and> model_ok m' \<and>
     model_abs m' = model_abs m\<lparr>ab_segments := ab_segments (model_abs m) @ map (\<lambda>e. (fst e, seg_abs (snd e))) Q\<rparr>"
proof (induction Q arbitrary: m)
  case (Cons e Q)
  obtain k s where e: "e = (k, s)" by (cases e)
  have ks: "seg_ok s" "k \<noteq> 0" "k < mo_next m" "\<forall>x \<in> set (mo_segments m). fst x < k" using Cons.prems(3) by (auto simp: e)
  obtain m1 where m1: "restore_all (small_machine kh) (segment_restores (k, s)) m = Inr m1" "model_ok m1"
      "model_abs m1 = model_abs m\<lparr>ab_segments := ab_segments (model_abs m) @ [(k, seg_abs s)]\<rparr>"
    using restore_segment_ok [OF Cons.prems(1) ks, of kh] by blast
  have nx: "mo_next m1 = mo_next m" using arg_cong [OF m1(3), of ab_next] by (simp add: model_abs_def)
  have "map fst (ab_segments (model_abs m1)) = map fst (ab_segments (model_abs m)) @ [k]" unfolding m1(3) by simp
  then have ids: "map fst (mo_segments m1) = map fst (mo_segments m) @ [k]" by (simp add: model_abs_def o_def)
  have later: "k < fst x" if "x \<in> set Q" for x using that Cons.prems(2) by (auto simp: e btree_ok_def)
  have below: "fst x < fst y" if "x \<in> set (mo_segments m1)" "y \<in> set Q" for x y
  proof -
    have "fst x \<in> set (map fst (mo_segments m1))" using that(1) by simp
    then have "fst x \<in> fst ` set (mo_segments m) \<or> fst x = k" unfolding ids by auto
    then show ?thesis using later [OF that(2)] ks(4) by (metis imageE order.strict_trans)
  qed
  have "btree_ok Q" using Cons.prems(2) by (simp add: btree_ok_def)
  then obtain m' where "restore_all (small_machine kh) (concat (map segment_restores Q)) m1 = Inr m'" "model_ok m'"
      "model_abs m' = model_abs m1\<lparr>ab_segments := ab_segments (model_abs m1) @ map (\<lambda>e. (fst e, seg_abs (snd e))) Q\<rparr>"
    using Cons.IH [OF m1(2)] Cons.prems(3) below nx by auto
  then show ?case using m1(1,3) by (simp add: e restore_all_append)
qed (simp add: model_abs_def)

lemma encode_contents:
  assumes wf: "records_wf R" and e: "e \<in> set (contents R)"
  shows "\<exists>b. event_encode (EvInsert slot k (fst e) (snd e)) = Inr b \<and> decode_snapshot b = Inr (SnInsert (EvInsert slot k (fst e) (snd e)))"
proof -
  note c = contents_entry [OF assms]
  obtain kb where kb: "encode_key (sr_key (snd e)) = Inr kb" using c(2) by (simp add: encode_key_def)
  have v: "small_view kb = Inr (sr_key (snd e))" using kb c(1) by (simp add: small_view_iff)
  have g: "sr_len (snd e) \<le> MAX_EXTENT" "valid_extent (sr_key (snd e)) (sr_len (snd e))" using c(3) by (simp_all add: good_extent_def)
  show ?thesis using kb v g
    by (simp add: event_encode_def decode_snapshot_def take_byte_def event_decode_def decode_insert_def)
qed

lemma decode_segment_header:
  assumes "seg_ok s"
  shows "decode_snapshot (segment_header k s) = Inr (SnSegment k (blank_segment s))"
  using seg_okD(3,4) [OF assms]
  by (cases s; cases "sg_sealed s") (auto simp: segment_header_def decode_snapshot_def take_byte_def decode_header_def decode_seal_def blank_segment_def)

lemma segment_items_ok:
  assumes "seg_ok (snd e)"
  shows "\<exists>bs. segment_items e = map Inr bs \<and> list_all2 (\<lambda>b sr. decode_snapshot b = Inr sr) bs (segment_restores e)"
proof -
  let ?R = "sg_records (snd e)" and ?ev = "\<lambda>x. EvInsert (sg_slot (snd e)) (fst e) (fst x) (snd x)"
  have wf: "records_wf ?R" using seg_okD(1) [OF assms] .
  have "\<exists>bs. map (\<lambda>x. event_encode (?ev x)) L = map Inr bs \<and> list_all2 (\<lambda>b sr. decode_snapshot b = Inr sr) bs (map (\<lambda>x. SnInsert (?ev x)) L)"
    if "set L \<subseteq> set (contents ?R)" for L
    using that
  proof (induction L)
    case (Cons x L)
    obtain b where "event_encode (?ev x) = Inr b" "decode_snapshot b = Inr (SnInsert (?ev x))"
      using encode_contents [OF wf, of x "sg_slot (snd e)" "fst e"] Cons.prems by auto
    moreover obtain bs where "map (\<lambda>x. event_encode (?ev x)) L = map Inr bs"
        "list_all2 (\<lambda>b sr. decode_snapshot b = Inr sr) bs (map (\<lambda>x. SnInsert (?ev x)) L)"
      using Cons by auto
    ultimately show ?case by (intro exI [of _ "b # bs"]) simp
  qed simp
  then obtain bs where "map (\<lambda>x. event_encode (?ev x)) (contents ?R) = map Inr bs"
      "list_all2 (\<lambda>b sr. decode_snapshot b = Inr sr) bs (map (\<lambda>x. SnInsert (?ev x)) (contents ?R))" by blast
  then show ?thesis using records_iter_contents [OF wf] decode_segment_header [OF assms, of "fst e"]
    by (intro exI [of _ "segment_header (fst e) (snd e) # bs"]) (simp add: segment_items_def segment_restores_def)
qed

lemma snapshot_items_ok:
  "\<forall>e \<in> set Q. seg_ok (snd e) \<Longrightarrow>
   \<exists>bs. concat (map segment_items Q) = map Inr bs \<and> list_all2 (\<lambda>b sr. decode_snapshot b = Inr sr) bs (concat (map segment_restores Q))"
proof (induction Q)
  case (Cons e Q)
  obtain bs where "concat (map segment_items Q) = map Inr bs" "list_all2 (\<lambda>b sr. decode_snapshot b = Inr sr) bs (concat (map segment_restores Q))"
    using Cons by auto
  moreover obtain cs where "segment_items e = map Inr cs" "list_all2 (\<lambda>b sr. decode_snapshot b = Inr sr) cs (segment_restores e)"
    using segment_items_ok Cons.prems by (metis list.set_intros(1))
  ultimately show ?case by (intro exI [of _ "cs @ bs"]) (simp add: list_all2_appendI)
qed simp

lemma small_snapshot_restores:
  assumes m: "model_ok m" and items: "model_snapshot m = Inr (map Inr items)"
  shows "\<exists>srs m'. list_all2 (\<lambda>b sr. decode_snapshot b = Inr sr) items srs \<and> restore_all (small_machine kh) srs small_init = Inr m' \<and>
    model_ok m' \<and> model_abs m = model_abs m'"
proof -
  have segs: "\<forall>e \<in> set (mo_segments m). seg_ok (snd e)" "btree_ok (mo_segments m)" "mo_next m \<noteq> 0"
      "\<forall>e \<in> set (mo_segments m). fst e \<noteq> 0 \<and> fst e < mo_next m"
    using m by (auto simp: model_ok_def)
  obtain bs where bs: "concat (map segment_items (mo_segments m)) = map Inr bs"
      "list_all2 (\<lambda>b sr. decode_snapshot b = Inr sr) bs (concat (map segment_restores (mo_segments m)))"
    using snapshot_items_ok [OF segs(1)] by blast
  have "(map Inr items :: (io_error + byte list) list) = map Inr ((5 # u64_le (mo_next m)) # bs)" using items bs(1) by (simp add: model_snapshot_def)
  then have it: "items = (5 # u64_le (mo_next m)) # bs" by (rule map_injective) (simp add: inj_def)
  have d: "decode_snapshot (5 # u64_le (mo_next m)) = Inr (SnNext (mo_next m))" using segs(3) by (simp add: decode_snapshot_def take_byte_def)
  define m0 where "m0 = small_init\<lparr>mo_next := mo_next m\<rparr>"
  have m0: "model_ok m0" "mo_segments m0 = []" "mo_next m0 = mo_next m" using segs(3) by (simp_all add: m0_def small_init_def model_ok_def btree_ok_def)
  have r0: "unpanic (model_restore kh small_init (SnNext (mo_next m))) = Inr m0"
    by (simp add: model_restore_def unpanic_def m0_def) (simp add: small_init_def)
  obtain m' where m': "restore_all (small_machine kh) (concat (map segment_restores (mo_segments m))) m0 = Inr m'" "model_ok m'"
      "model_abs m' = model_abs m0\<lparr>ab_segments := ab_segments (model_abs m0) @ map (\<lambda>e. (fst e, seg_abs (snd e))) (mo_segments m)\<rparr>"
    using restore_segments_ok [OF m0(1) segs(2), of kh] segs m0 by auto
  have "model_abs m' = model_abs m" unfolding m'(3) using m0 by (simp add: model_abs_def)
  then show ?thesis using it d bs(2) r0 m'(1,2)
    by (intro exI [of _ "SnNext (mo_next m) # concat (map segment_restores (mo_segments m))"]) auto
qed

subsection \<open>The journal's laws\<close>

lemma unpanic_refines:
  assumes "model_ok m" "event_valid ev"
  shows "unpanic (model_apply kh m ev) = Inr m' \<Longrightarrow> model_ok m' \<and> spec_apply (model_abs m) ev = Some (model_abs m')"
    "spec_apply (model_abs m) ev = Some a \<Longrightarrow> \<exists>m'. unpanic (model_apply kh m ev) = Inr m' \<and> a = model_abs m'"
  using model_apply_refines [OF assms, of kh] by (auto simp: refines_def unpanic_def split: option.splits sum.splits)

interpretation small: journal_machine xxh "small_machine kh" small_init model_ok model_sim for xxh kh
proof unfold_locales
  show "model_ok small_init" by (simp add: model_ok_def small_init_def btree_ok_def)
  show "model_ok m'" if "model_ok m" "mc_valid (small_machine kh) r" "mc_apply (small_machine kh) m l r = Inr m'" for m l r m'
    using unpanic_refines(1) [OF that(1), of r kh m'] that by simp
  show "\<exists>b'. mc_apply (small_machine kh) b l r = Inr b' \<and> model_sim a' b'"
    if "mc_valid (small_machine kh) r" "model_ok a" "model_ok b" "model_sim a b" "mc_apply (small_machine kh) a l r = Inr a'" for a b l r a'
  proof -
    have v: "event_valid r" "unpanic (model_apply kh a r) = Inr a'" "model_abs b = model_abs a" using that by (simp_all add: model_sim_def)
    have "spec_apply (model_abs b) r = Some (model_abs a')" using unpanic_refines(1) [OF that(2) v(1,2)] v(3) by simp
    then show ?thesis using unpanic_refines(2) [OF that(3) v(1)] by (auto simp: model_sim_def)
  qed
  show "mc_valid (small_machine kh) r" if "mc_decode (small_machine kh) bytes = Inr r" for bytes r
    using that decode_valid_event by simp
  show "mc_decode (small_machine kh) bytes = Inr r"
    if "model_ok m" "mc_valid (small_machine kh) r" "mc_apply (small_machine kh) m l r = Inr m'" "mc_encode (small_machine kh) r = Inr bytes" for m l r m' bytes
  proof -
    have "map_of (mo_segments m) 0 = None" using that(1) by (auto simp: model_ok_def map_of_eq_None_iff)
    then have "map_of (ab_segments (model_abs m)) 0 = None" by (simp add: abs_segment)
    then show ?thesis using decode_encode_event [of r bytes "model_abs m"] unpanic_refines(1) [OF that(1), of r kh m'] that by simp
  qed
  show "\<exists>srs m'. list_all2 (\<lambda>b s. mc_decode_snapshot (small_machine kh) b = Inr s) items srs \<and> restore_all (small_machine kh) srs small_init = Inr m' \<and>
      model_ok m' \<and> model_sim m m'"
    if "model_ok m" "mc_snapshot (small_machine kh) m = Inr (map Inr items)" for m items
    using small_snapshot_restores [OF that(1), of items kh] that(2) by (simp add: model_sim_def)
qed (simp_all add: model_sim_def)

end
