(* ===== verification/Small_Store.thy ===== *)
theory Small_Store
  imports Small_Machine
begin

text \<open>
  The small-object store on its journal: what recovery, appends of the events of
  \<open>crates/talon-worker/src/small_store/journal/model.rs\<close> and a crash at any moment give together. The journal's guarantees are taken at the store's machine.
\<close>

lemma event_encoded_len_exact: "event_encode ev = Inr b \<Longrightarrow> event_encoded_len ev = Inr (length b)"
  by (cases ev) (auto simp: event_encode_def event_encoded_len_def encode_key_length split: sum.splits)

lemma event_encode_bound: "event_encode ev = Inr b \<Longrightarrow> length b \<le> 41 + MAX_KEY"
proof (cases ev)
  case (EvInsert slot segment offset r)
  assume b: "event_encode ev = Inr b"
  then obtain kb where "encode_key (sr_key r) = Inr kb" "length b = 41 + length kb"
    using EvInsert by (auto simp: event_encode_def split: sum.splits)
  then show ?thesis using encode_key_length [of "sr_key r" kb] by (auto simp: encode_key_Inr)
qed (auto simp: event_encode_def MAX_KEY_def)

text \<open>The append of an accepted event by an idle writer.\<close>

lemma store_append:
  assumes reach: "stream_reachable xxh (small_machine kh) small_init threads cb s" and w: "st_proc s = Running w" "idle cb w"
    and ev: "event_valid ev" "spec_apply (model_abs (wr_machine w)) ev = Some a" "event_encode ev = Inr body"
    and room: "length (st_log s) + 1 < 2 ^ 64" "unat (dk_offset (wr_disk w)) + 32 + length body < 2 ^ 64"
  shows "\<exists>s' w'. stream_run xxh (small_machine kh) small_init threads cb s s' \<and> st_proc s' = Running w' \<and>
    model_abs (wr_machine w') = a \<and> st_log s' = st_log s @ [body] \<and> st_acked s' = length (st_log s')"
proof -
  let ?M = "small_machine kh" and ?n = "length (st_log s)"
  note idle = small.idle_state [OF reach w]
  have bound: "length body \<le> 41 + MAX_KEY" by (rule event_encode_bound [OF ev(3)])
  obtain m' where m': "unpanic (model_apply kh (wr_machine w) ev) = Inr m'" "a = model_abs m'"
    using unpanic_refines(2) [OF idle(2) ev(1,2)] by blast
  have ha: "handle_append ?M (41 + MAX_KEY) (73 + MAX_KEY) ev Durable = Inr (Append ev body Durable)"
    using ev(3) bound event_encoded_len_exact [OF ev(3)] by (simp add: handle_append_def JOURNAL_HEADER_def small_machine_def)
  have n: "unat (of_nat ?n :: u64) = ?n" using room(1) by (simp add: unsigned_of_nat take_bit_nat_eq_self)
  define lsn :: u64 where "lsn = of_nat ?n + 1"
  have lsn: "checked_add (wr_next_lsn w) 1 = Some lsn" unfolding idle(1) lsn_def checked_add_Some n using room(1) by simp
  have lsn_nat: "unat lsn = ?n + 1" using checked_add_unat [OF lsn] unfolding idle(1) n by simp
  obtain bytes where enc: "frame_encode xxh lsn body = Inr bytes" "length bytes = 32 + length body"
    using bound by (simp add: frame_encode_def frame_head_def MAX_RECORD_def MAX_KEY_def JOURNAL_MAGIC_def)
  have small: "length bytes < 2 ^ 64" using room(2) enc(2) by simp
  then have len: "length bytes < 2 ^ 64" "unat (of_nat (length bytes) :: u64) = length bytes"
    by (simp_all add: unsigned_of_nat take_bit_nat_eq_self)
  have off': "checked_add (dk_offset (wr_disk w)) (of_nat (length bytes)) = Some (dk_offset (wr_disk w) + of_nat (length bytes))"
    unfolding checked_add_Some len(2) using room(2) enc(2) by simp
  obtain s' w' where "stream_run xxh ?M small_init threads cb s s'" "st_proc s' = Running w'" "wr_machine w' = m'"
      "st_log s' = st_log s @ [body]" "st_acked s' = max (st_acked s) (unat lsn)"
    using idle_append [OF w _ ha lsn enc(1) len(1) off', of m' small_init threads] ev(1) m'(1) by auto
  then show ?thesis using m'(2) lsn_nat idle(3) by auto
qed

lemma store_opens:
  assumes "0 < cb"
  shows "\<exists>s w. stream_reachable xxh (small_machine kh) small_init threads cb s \<and> st_proc s = Running w \<and> idle cb w \<and> st_log s = [] \<and>
    dk_offset (wr_disk w) = 0 \<and> model_abs (wr_machine w) = model_abs small_init"
  using small.opens_idle [OF assms, of xxh kh threads] by (auto simp: model_sim_def)

lemma sample_run:
  "\<exists>s w. stream_reachable (\<lambda>_. 0) (small_machine (\<lambda>_. 0)) small_init 1 1000 s \<and> st_proc s = Running w \<and>
    model_abs (wr_machine w) = \<lparr>ab_segments = [], ab_next = 7\<rparr> \<and> st_log s = [5 # u64_le 7] \<and> st_acked s = 1"
proof -
  obtain s w where s: "stream_reachable (\<lambda>_. 0) (small_machine (\<lambda>_. 0)) small_init 1 1000 s" "st_proc s = Running w" "idle 1000 w"
      "st_log s = []" "dk_offset (wr_disk w) = 0" "model_abs (wr_machine w) = model_abs small_init"
    using store_opens [of 1000 "\<lambda>_. 0" "\<lambda>_. 0" 1] by auto
  have "spec_apply (model_abs (wr_machine w)) (EvSetNext 7) = Some \<lparr>ab_segments = [], ab_next = 7\<rparr>"
    unfolding s(6) by (simp add: spec_apply_def model_abs_def small_init_def)
  then have "\<exists>s' w'. stream_run (\<lambda>_. 0) (small_machine (\<lambda>_. 0)) small_init 1 1000 s s' \<and> st_proc s' = Running w' \<and>
      model_abs (wr_machine w') = \<lparr>ab_segments = [], ab_next = 7\<rparr> \<and> st_log s' = st_log s @ [5 # u64_le 7] \<and> st_acked s' = length (st_log s')"
    using s(4,5) by (intro store_append [OF s(1-3), of "EvSetNext 7"]) (simp_all add: event_valid_def event_encode_def)
  then obtain s' w' where r: "stream_run (\<lambda>_. 0) (small_machine (\<lambda>_. 0)) small_init 1 1000 s s'" "st_proc s' = Running w'"
      "model_abs (wr_machine w') = \<lparr>ab_segments = [], ab_next = 7\<rparr>" "st_log s' = st_log s @ [5 # u64_le 7]" "st_acked s' = length (st_log s')"
    by blast
  show ?thesis using stream_reachable_run [OF s(1) r(1)] r(2-5) s(4) by (intro exI [of _ s'] exI [of _ w']) simp
qed

text \<open>C1. The metadata of the small-object store survives every crash: from any state that a run of its stream can reach,
  with any interleaving of appends, syncs, checkpoints and earlier crashes, provided that every record written is one the
  model accepts when its turn comes (\<open>clients_ok\<close>), and from any image of the files a crash may leave, recovery succeeds
  without a panic and returns the store that results from the first \<open>k\<close> events, where \<open>k\<close> is at least the number of
  events acknowledged as durable (\<open>Ack::Durable\<close>). A crash is one of the machine: each restart begins with what survived
  as durable content, so a stop of the process alone followed by a loss of the page cache is not covered
  (\<open>stop_during_publication\<close> of Journal_Disk).\<close>

theorem small_store_crash_safe:
  assumes "stream_reachable xxh (small_machine kh) small_init threads checkpoint_bytes s" "crash_image (st_fs s) img"
  shows "\<exists>ops d m mk k. journal_recover xxh (small_machine kh) threads (fs_of_image img) small_init = Some (ops, Inr (d, m)) \<and>
    dk_lsn d = of_nat k \<and> st_acked s \<le> k \<and> k \<le> length (st_log s) \<and>
    replay (small_machine kh) 0 (take k (st_log s)) small_init = Inr mk \<and> model_abs m = model_abs mk"
  using small.reachable_recovers [OF assms] unfolding model_sim_def by metis

theorem small_store_crash_safe_witness:
  "\<exists>s ops d m. stream_reachable (\<lambda>_. 0) (small_machine (\<lambda>_. 0)) small_init 1 1000 s \<and> st_acked s = 1 \<and>
    journal_recover (\<lambda>_. 0) (small_machine (\<lambda>_. 0)) 1 (fs_of_image (live_image (st_fs s))) small_init = Some (ops, Inr (d, m)) \<and>
    dk_lsn d = 1 \<and> model_abs m = \<lparr>ab_segments = [], ab_next = 7\<rparr>"
proof -
  obtain s w where s: "stream_reachable (\<lambda>_. 0) (small_machine (\<lambda>_. 0)) small_init 1 1000 s" "st_log s = [5 # u64_le 7]" "st_acked s = 1"
    using sample_run by blast
  obtain ops d m mk k where r: "journal_recover (\<lambda>_. 0) (small_machine (\<lambda>_. 0)) 1 (fs_of_image (live_image (st_fs s))) small_init = Some (ops, Inr (d, m))"
      "dk_lsn d = of_nat k" "st_acked s \<le> k" "k \<le> length (st_log s)" "replay (small_machine (\<lambda>_. 0)) 0 (take k (st_log s)) small_init = Inr mk"
      "model_abs m = model_abs mk"
    using small_store_crash_safe [OF s(1) live_is_crash_image [OF reachable_wf_fs [OF s(1)]]] by blast
  have k: "k = 1" using r(3,4) s(2,3) by simp
  have "event_decode (5 # u64_le 7) = Inr (EvSetNext 7)" by (simp add: event_decode_def take_byte_def decode_one_def no_trailing_def)
  then have "mk = \<lparr>mo_segments = [], mo_next = 7\<rparr>" using r(5) by (simp add: k s(2) model_apply_def unpanic_def small_init_def)
  then have "model_abs m = \<lparr>ab_segments = [], ab_next = 7\<rparr>" using r(6) by (simp add: model_abs_def)
  then show ?thesis using s(1,3) r(1,2) k by auto
qed

text \<open>C14. An append can always complete: from a writer with nothing in flight there is a run that takes any event the
  specification accepts, with numbers and log offsets left, through the write, the application and the sync to its
  acknowledgement. (That the operating system lets the run happen is not claimed.)\<close>

theorem append_acknowledged:
  assumes "stream_reachable xxh (small_machine kh) small_init threads checkpoint_bytes s" "st_proc s = Running w" "idle checkpoint_bytes w"
    and "event_valid ev" "spec_apply (model_abs (wr_machine w)) ev = Some a" "event_encode ev = Inr body"
    and "length (st_log s) + 1 < 2 ^ 64" "unat (dk_offset (wr_disk w)) + 32 + length body < 2 ^ 64"
  shows "\<exists>s' w'. stream_run xxh (small_machine kh) small_init threads checkpoint_bytes s s' \<and> st_proc s' = Running w' \<and>
    model_abs (wr_machine w') = a \<and> st_log s' = st_log s @ [body] \<and> st_acked s' = length (st_log s')"
  by (rule store_append [OF assms])

theorem append_acknowledged_witness:
  "\<exists>s w. stream_reachable (\<lambda>_. 0) (small_machine (\<lambda>_. 0)) small_init 1 1000 s \<and> st_proc s = Running w \<and>
    ab_next (model_abs (wr_machine w)) = 9 \<and> st_log s = [5 # u64_le 9] \<and> st_acked s = 1"
proof -
  obtain s w where s: "stream_reachable (\<lambda>_. 0) (small_machine (\<lambda>_. 0)) small_init 1 1000 s" "st_proc s = Running w" "idle 1000 w"
      "st_log s = []" "dk_offset (wr_disk w) = 0" "model_abs (wr_machine w) = model_abs small_init"
    using store_opens [of 1000 "\<lambda>_. 0" "\<lambda>_. 0" 1] by auto
  have "spec_apply (model_abs (wr_machine w)) (EvSetNext 9) = Some \<lparr>ab_segments = [], ab_next = 9\<rparr>"
    unfolding s(6) by (simp add: spec_apply_def model_abs_def small_init_def)
  then have "\<exists>s' w'. stream_run (\<lambda>_. 0) (small_machine (\<lambda>_. 0)) small_init 1 1000 s s' \<and> st_proc s' = Running w' \<and>
      model_abs (wr_machine w') = \<lparr>ab_segments = [], ab_next = 9\<rparr> \<and> st_log s' = st_log s @ [5 # u64_le 9] \<and> st_acked s' = length (st_log s')"
    using s(4,5) by (intro append_acknowledged [OF s(1-3), of "EvSetNext 9"]) (simp_all add: event_valid_def event_encode_def)
  then obtain s' w' where r: "stream_run (\<lambda>_. 0) (small_machine (\<lambda>_. 0)) small_init 1 1000 s s'" "st_proc s' = Running w'"
      "model_abs (wr_machine w') = \<lparr>ab_segments = [], ab_next = 9\<rparr>" "st_log s' = st_log s @ [5 # u64_le 9]" "st_acked s' = length (st_log s')"
    by blast
  show ?thesis using stream_reachable_run [OF s(1) r(1)] r(2-5) s(4) by (intro exI [of _ s'] exI [of _ w']) simp
qed

text \<open>C13. A snapshot of a store in its invariant is written without an error or a panic, every item of it decodes, and restoring the
  items into an empty store gives the same segments, extents, sizes and allocator.\<close>

theorem store_snapshot_roundtrip:
  assumes "model_ok m"
  shows "\<exists>items srs m'. model_snapshot m = Inr (map Inr items) \<and> list_all2 (\<lambda>b sr. decode_snapshot b = Inr sr) items srs \<and>
    restore_all (small_machine kh) srs small_init = Inr m' \<and> model_ok m' \<and> model_abs m' = model_abs m"
proof -
  obtain bs where bs: "concat (map segment_items (mo_segments m)) = map Inr bs"
    using snapshot_items_ok [of "mo_segments m"] assms by (auto simp: model_ok_def)
  then have "model_snapshot m = Inr (map Inr ((5 # u64_le (mo_next m)) # bs))" by (simp add: model_snapshot_def)
  then show ?thesis using small_snapshot_restores [OF assms, of "(5 # u64_le (mo_next m)) # bs" kh] by metis
qed

theorem store_snapshot_roundtrip_witness:
  "\<exists>m items srs m'. map_of (ab_segments (model_abs m)) 4 \<noteq> None \<and> model_snapshot m = Inr (map Inr items) \<and>
    list_all2 (\<lambda>b sr. decode_snapshot b = Inr sr) items srs \<and>
    restore_all (small_machine (\<lambda>_. 0)) srs small_init = Inr m' \<and> model_abs m' = model_abs m"
proof -
  let ?m = "\<lparr>mo_segments = [(4, new_segment 2)], mo_next = 5\<rparr>"
  have "model_ok ?m" using new_segment_ok(1) by (simp add: model_ok_def btree_ok_def)
  moreover have "map_of (ab_segments (model_abs ?m)) 4 \<noteq> None" by (simp add: abs_segment)
  ultimately show ?thesis using store_snapshot_roundtrip [of ?m "\<lambda>_. 0"] by blast
qed

end
