(* ===== verification/Spec2Isabelle.thy ===== *)
theory Spec2Isabelle
  imports Prelude Core_Key Core_Block Placement Meta_Record Meta_Store Meta_Link Meta_Shard Meta_Recovery
    Journal_Frame Journal_Current Journal_Replay Journal_Fs Journal_Disk Journal_Writer Journal_Crash Journal_Safety Journal_Stream Journal_Live
    Small_Format Small_Keys Small_Table Small_Records Small_Model Small_Machine Small_Store
begin

text \<open>
  A verification library of Talon, a distributed read cache for object stores. Clients plan reads in blocks and place the
  blocks on workers; workers cache them, small objects in segment files whose metadata is kept in a journal; a metadata
  service keeps namespaces, hard links and the ownership of write shards.

  \<^bold>\<open>Conventions.\<close> Machine integers are words and wrap as release builds do; natural numbers count. A string is its list of
  UTF-8 bytes. An error is \<open>Inl\<close>; a panic, or a loop that does not return, is \<open>None\<close>. Third-party code is a parameter:
  SHA-256 (\<open>sha\<close>), \<open>xxh3_64\<close> (\<open>xxh\<close>), the keyed hash of a key (\<open>kh\<close>); in the placement table the unstable sort is the
  parameter \<open>usort\<close>, while the key table takes the stable order among equal keys. Loops are total functions with
  termination proofs or \<open>partial_function (option)\<close> with proofs that they return; no fuel is used.

  \<^bold>\<open>Keys, blocks and placement\<close> (\<open>crates/talon-core\<close>, \<open>talon-cache-client/src/read_plan.rs\<close>, \<open>talon-fuse/src/mapping.rs\<close>).
  \<open>Core_Key\<close>: identities, their printed paths and parsers, and when they are inverse. \<open>Core_Block\<close>: the presence bitmap as
  an implementation of a set (locale \<open>presence_set\<close>), resident bytes, and the split of a read, which tiles the request.
  \<open>Placement\<close>: the Maglev table; its construction returns, is balanced and does not depend on the order of the members,
  and the replicas of a block are the first of its preference order.

  \<^bold>\<open>Metadata service\<close> (\<open>crates/talon-metadata\<close>, \<open>talon-worker/src/mapping_guard.rs\<close>). \<open>Meta_Record\<close>: capabilities, revisions,
  records and the worker's guard. \<open>Meta_Store\<close>: transactions and the memory store, which meets the contract
  \<open>metadata_store\<close>. \<open>Meta_Link\<close>: hard-link transactions, and a step relation of concurrent clients in which link counts stay
  exact. \<open>Meta_Shard\<close>: shard routing, ownership and fencing terms. \<open>Meta_Recovery\<close>: shard recovery keeps acknowledged
  writes; scrubber and flush policy.

  \<^bold>\<open>Journal\<close> (\<open>crates/talon-journal\<close>). \<open>Journal_Frame\<close>, \<open>Journal_Current\<close> and \<open>Journal_Replay\<close>: frames, the recovery set and the
  sequential and parallel readers, which agree. \<open>Journal_Fs\<close>: files and what a crash may leave of them. \<open>Journal_Disk\<close>:
  recovery, rotation and snapshots as lists of file operations. \<open>Journal_Writer\<close>: the select loop as the step relation
  \<open>stream_step\<close>. \<open>Journal_Crash\<close>, \<open>Journal_Safety\<close>, \<open>Journal_Stream\<close>: the locale \<open>journal_machine\<close> of the laws of a state
  machine, and in it the invariant of a stream and its crash safety. \<open>Journal_Live\<close>: runs to an acknowledgement.

  \<^bold>\<open>Small-object store\<close> (\<open>crates/talon-worker/src/small_store\<close>). \<open>Small_Format\<close>: keys, their two encodings and
  metadata frames (\<open>format.rs\<close>, \<open>key.rs\<close>, \<open>key_codec.rs\<close>, the records of \<open>access.rs\<close>). \<open>Small_Keys\<close> and \<open>Small_Table\<close>: the compressed key table (\<open>keys.rs\<close>) refines a list of
  keys. \<open>Small_Records\<close>: the record table (\<open>records.rs\<close>) refines a sorted list of extents. \<open>Small_Model\<close>: the model of
  \<open>journal/model.rs\<close> refines the specification \<open>spec_apply\<close>. \<open>Small_Machine\<close> interprets \<open>journal_machine\<close> on that model, and
  \<open>Small_Store\<close> draws the consequences: crash safety, completion of appends, and the round trip of snapshots.

  \<^bold>\<open>What the results on the journal assume.\<close> The writer writes a record before the machine is asked to apply it, so a record
  that the machine rejects is already in the log, and replay of the log stops at it. Crash safety is therefore stated for
  runs in which every written record is accepted (\<open>clients_ok\<close> of \<open>Journal_Writer\<close>). That the callers in the worker append
  only such records has not been verified. Failures of system calls are not modelled. Acknowledged means acknowledged as
  durable; replies to \<open>Ack::Written\<close> promise nothing across a crash and are not modelled. Crashes are crashes of the machine:
  unsynchronised writes survive as prefixes in order, and a restart counts what survived as durable. A stop of the process
  whose page cache is lost later is outside the model, and there the code needs more of the file system:
  \<open>stop_during_publication\<close> of \<open>Journal_Disk\<close> shows that the cleanup of recovery can then delete files which the \<open>CURRENT\<close> on disk
  still names, unless directory operations become durable in order. The running store drives its journal
  with \<open>LiveModel\<close> of \<open>catalog.rs\<close>, which wraps the verified \<open>Model\<close> in an index with an error of its own; the index is not
  modelled, and the theorems are about \<open>Model\<close>. The result on appends says that a run to the acknowledgement exists, not
  that scheduling brings it about.

  \<^bold>\<open>Not modelled.\<close> The worker's block, page and memory stores, index, eviction, write-ahead log, page lifecycle and the
  catalog and serving code of the small-object store; the transport's frames; rate limits; the coordinator's membership;
  the gateway's decoders; retry timing; read-ahead. These contain logic that could be modelled and is not. Clients of external services (object stores, etcd, Kubernetes,
  credentials), kernel and asynchronous I/O, TLS, configuration, metrics and command-line tools are left out because
  they have little behaviour apart from the code and systems outside the repository that they call.
\<close>

section \<open>Properties that span components\<close>

text \<open>
  C10. A stale write cannot land after a promotion has begun: once a worker's guard has observed the
  revision that the opening transaction of a promotion published, no request that still carries
  the revision before it (or an older one) is ever admitted, whatever else the guard observes and whenever the request arrives.
\<close>

theorem promotion_fences_stale_requests:
  assumes "begin_promotion t = Inr tx" "commit_locked m0 tx = Some (m1, Inr out)"
    "ns_mapping_revision (state_snapshot m1 (lt_namespace t)) \<in> set (revisions_of (lt_namespace t) evs)"
    "request \<le> ns_mapping_revision (state_snapshot m0 (lt_namespace t))"
  shows "guard_validate (observe_all (guard_new freshness) evs) now (lt_namespace t) request \<noteq> Inr ()"
  using guard_refuses_older [OF assms(3)] revision_next_less [OF begin_effect(5) [OF assms(1,2)]] assms(4)
  by (meson le_less_trans)

theorem promotion_fences_stale_requests_witness:
  "\<exists>m1 out. commit_locked memory_new (begin_tx (demo_transition ''op1'' ''a'' ''b'' 0 7)) = Some (m1, Inr out) \<and>
    guard_validate (observe_all (guard_new 5) [(1, ''n'', ns_mapping_revision (state_snapshot m1 ''n'')), (2, ''n'', 0)]) 3 ''n'' 0 \<noteq> Inr ()"
proof -
  let ?t = "demo_transition ''op1'' ''a'' ''b'' 0 7"
  have tx: "begin_promotion ?t = Inr (begin_tx ?t)" "lt_namespace ?t = ''n''"
    by (simp_all add: begin_tx_def begin_promotion_def demo_transition_def)
  obtain m1 out where c: "commit_locked memory_new (begin_tx ?t) = Some (m1, Inr out)"
    using commit_view [OF memory_new_served, of "begin_tx ?t"] by (simp add: demo_simps) metis
  show ?thesis
    using promotion_fences_stale_requests [OF tx(1) c, of "[(1, ''n'', ns_mapping_revision (state_snapshot m1 ''n'')), (2, ''n'', 0)]" 0 5 3]
      tx(2) c by (auto simp: memory_new_view ns_default_def)
qed

text \<open>
  C33. The scrubber leaves a healthy namespace alone: in every reachable state of the hard-link
  protocol, an observation of a recorded inode that reports the recorded link count, the number of
  paths that lead to it and a present object asks for no repair.
\<close>

theorem scrub_quiet_when_reachable:
  assumes "link_reachable N s" "ns_inodes (state_snapshot (ls_store s) N) i = Some rec" "so_object_present ob"
    "so_recorded_link_count ob = Some (ir_link_count rec)"
    "so_path_references ob = of_nat (card (paths_of (state_snapshot (ls_store s) N) i))"
  shows "decide ob \<in> {RepairNone, DeferToTransition}"
proof -
  note ok = links_okD [OF inv_links [OF link_inv_reachable [OF assms(1)]] assms(2)]
  have "so_path_references ob = ir_link_count rec" using ok(2) assms(5) by simp
  moreover have "ir_link_count rec \<noteq> 0" using ok(3) by auto
  ultimately show ?thesis using assms(3,4) by (simp add: decide_def)
qed

theorem scrub_quiet_when_reachable_witness:
  "\<exists>s. link_reachable ''n'' s \<and>
    decide \<lparr>so_inode = 7, so_object_present = True, so_recorded_link_count = Some 2,
      so_path_references = of_nat (card (paths_of (state_snapshot (ls_store s) ''n'') 7)),
      so_live_transition = False, so_previously_unreferenced = False, so_grace_elapsed = False\<rparr> \<in> {RepairNone, DeferToTransition}"
proof -
  obtain s where s: "link_reachable ''n'' s" "ns_inodes (state_snapshot (ls_store s) ''n'') 7 =
      Some \<lparr>ir_namespace = ''n'', ir_inode = 7, ir_link_count = 2, ir_corrupt = False\<rparr>"
    using demo_reachable by blast
  show ?thesis
    using scrub_quiet_when_reachable [OF s, of "\<lparr>so_inode = 7, so_object_present = True, so_recorded_link_count = Some 2,
      so_path_references = of_nat (card (paths_of (state_snapshot (ls_store s) ''n'') 7)),
      so_live_transition = False, so_previously_unreferenced = False, so_grace_elapsed = False\<rparr>"] s(1)
    by auto
qed

text \<open>
  C16. Every read can be routed: for any byte range of an object and any membership with a worker (and
  fewer than \<open>2^32 - 1\<close> workers), the read is split into block segments, and for each of them the placement table of the membership returns a
  primary that is a worker of the membership and the first of the replicas ranked for that block.
\<close>

theorem read_segments_are_routed:
  assumes "unstable_sort usort" "length (table_workers usort nodes) < 2 ^ 32 - 1" "w \<in> set nodes" "role w = Worker"
  shows "\<exists>t segs. table_new sha usort nodes = Some t \<and> plan_read ob offset len block_size ver sz = Some segs \<and>
    (\<forall>seg \<in> set segs. \<exists>p rest. primary sha t (seg_block seg) = Some (Some p) \<and> p \<in> set nodes \<and> role p = Worker \<and>
       rank sha t (seg_block seg) (length (pt_workers t)) = Some (p # rest))"
proof -
  have ids: "set (table_workers usort nodes) \<subseteq> {n \<in> set nodes. role n = Worker}"
    "node_id ` set (table_workers usort nodes) = node_id ` {n \<in> set nodes. role n = Worker}"
    using table_workers_ids [OF assms(1), of nodes] by blast+
  have ne: "table_workers usort nodes \<noteq> []" using ids(2) assms(3,4) by auto
  obtain t k where t: "table_new sha usort nodes = Some t" "pt_workers t = table_workers usort nodes" "table_ok t k"
    using table_new_returns [OF assms(1) ne, of sha] assms(2) by auto
  obtain segs where segs: "plan_read ob offset len block_size ver sz = Some segs"
    using plan_read_correct [of ob offset len block_size ver sz undefined] by blast
  have "\<exists>p rest. primary sha t b = Some (Some p) \<and> p \<in> set nodes \<and> role p = Worker \<and>
      rank sha t b (length (pt_workers t)) = Some (p # rest)" for b
  proof -
    have m: "mset (preference sha t b) = mset (pt_workers t)" by (rule preference_perm [OF t(3)])
    then have "preference sha t b \<noteq> []" using ne t(2) by auto
    then obtain p rest where pr: "preference sha t b = p # rest" by (cases "preference sha t b") auto
    have "p \<in> set (pt_workers t)" using mset_eq_setD [OF m] pr by auto
    moreover have "length (pt_workers t) = length (p # rest)" using arg_cong [OF m, of size] pr by simp
    ultimately show ?thesis
      using rank_preference [OF t(3), of sha b "length (pt_workers t)"] primary_preference [OF t(3), of sha b] pr ids(1) t(2)
      by auto
  qed
  then show ?thesis using t(1) segs by blast
qed

theorem read_segments_are_routed_witness:
  "\<exists>t segs. table_new (\<lambda>_. replicate 32 0) (sort_key node_id) [\<lparr>node_id = ''w1'', address = ''a:1'', role = Worker\<rparr>] = Some t \<and>
    plan_read \<lparr>obj_backend = S3, obj_bucket = ''b'', object_path = ''k''\<rparr> 3 10 8 ''v'' 100 = Some segs"
  using read_segments_are_routed [OF unstable_sort_sort_key, of "[\<lparr>node_id = ''w1'', address = ''a:1'', role = Worker\<rparr>]"
      "\<lparr>node_id = ''w1'', address = ''a:1'', role = Worker\<rparr>" "\<lambda>_. replicate 32 0"
      "\<lparr>obj_backend = S3, obj_bucket = ''b'', object_path = ''k''\<rparr>" 3 10 8 "''v''" 100]
  by (auto simp: table_workers_def)

end
